(* ===== verification/Prelude.thy ===== *)
theory Prelude
  imports Main "HOL-Library.Word"
begin

text \<open>
  The shared base of the development: the machine integers of the Go code, the collections
  of rewrite rules the component proofs use, and facts on lists and signed words that more
  than one component needs.
\<close>

section \<open>Collections\<close>

named_theorems decide_simps \<open>unfolding of the decisions of the account aggregate\<close>
named_theorems store_simps \<open>unfolding of the store operations\<close>
named_theorems go_simps \<open>unfolding of small helpers of the Go code\<close>

section \<open>Machine integers\<close>

text \<open>
  Go's \<^verbatim>\<open>int64\<close> is \<^typ>\<open>64 word\<close>: \<open>+\<close> and \<open>-\<close> wrap around as they do in Go, and the
  signed order of the language is the order of \<^const>\<open>sint\<close>.
\<close>

type_synonym int64 = "64 word"
type_synonym u8 = "8 word"
type_synonym u32 = "32 word"

abbreviation (input) max_int64 :: int where
  "max_int64 \<equiv> 9223372036854775807"

lemma sint64_lower: "- 9223372036854775808 \<le> sint (a :: int64)"
  using sint_ge [of a] by simp

lemma sint64_upper: "sint (a :: int64) \<le> 9223372036854775807"
  using sint_lt [of a] by simp

text \<open>Signed addition and subtraction are exact as long as the exact result fits.\<close>

lemma sint64_add:
  assumes "- 9223372036854775808 \<le> sint a + sint (b :: int64)"
    and "sint a + sint b \<le> 9223372036854775807"
  shows "sint (a + b) = sint a + sint b"
proof -
  have "sint (a + b) = signed_take_bit 63 (sint a + sint b)"
    by (simp add: sint_word_ariths)
  also have "\<dots> = sint a + sint b"
    using assms by (intro signed_take_bit_int_eq_self) auto
  finally show ?thesis .
qed

lemma sint64_sub:
  assumes "- 9223372036854775808 \<le> sint a - sint (b :: int64)"
    and "sint a - sint b \<le> 9223372036854775807"
  shows "sint (a - b) = sint a - sint b"
proof -
  have "sint (a - b) = signed_take_bit 63 (sint a - sint b)"
    by (simp add: sint_word_ariths)
  also have "\<dots> = sint a - sint b"
    using assms by (intro signed_take_bit_int_eq_self) auto
  finally show ?thesis .
qed

lemma sint64_word_of_int:
  assumes "- 9223372036854775808 \<le> n" and "n \<le> 9223372036854775807"
  shows "sint (word_of_int n :: int64) = n"
proof -
  have "sint (word_of_int n :: int64) = signed_take_bit 63 n"
    by (simp add: sint_sbintrunc')
  also have "\<dots> = n"
    using assms by (intro signed_take_bit_int_eq_self) auto
  finally show ?thesis .
qed

lemma sint64_of_nat:
  "int n \<le> 9223372036854775807 \<Longrightarrow> sint (of_nat n :: int64) = int n"
  using sint64_word_of_int [of "int n"] by simp

lemma sint_step: "a \<noteq> 9223372036854775807 \<Longrightarrow> sint (a + 1 :: int64) = sint a + 1"
proof -
  assume "a \<noteq> 9223372036854775807"
  then have "sint a \<noteq> sint (9223372036854775807 :: int64)" using signed_word_eqI [of a 9223372036854775807] by blast
  then have "sint a < 9223372036854775807" using sint64_upper [of a] by simp
  then show ?thesis using sint64_add [of a 1] sint64_lower [of a] by simp
qed

section \<open>Text of numbers and quoted strings\<close>

text \<open>The verbs \<^verbatim>\<open>%d\<close>, \<^verbatim>\<open>%02x\<close> and \<^verbatim>\<open>%q\<close> of \<^verbatim>\<open>fmt\<close>. \<^verbatim>\<open>%q\<close> escapes as Go does for ASCII text; bytes
  of multi-byte characters are copied.\<close>

definition digit_char :: "nat \<Rightarrow> char" where
  "digit_char d = ''0123456789abcdef'' ! d"

fun show_nat :: "nat \<Rightarrow> string" where
  "show_nat n = (if n < 10 then [digit_char n] else show_nat (n div 10) @ [digit_char (n mod 10)])"

definition show_int :: "int \<Rightarrow> string" where
  "show_int i = (if i < 0 then CHR ''-'' # show_nat (nat (- i)) else show_nat (nat i))"

definition hex_byte :: "nat \<Rightarrow> string" where
  "hex_byte b = [digit_char (b div 16), digit_char (b mod 16)]"

definition quote_char :: "char \<Rightarrow> string" where
  "quote_char c = (let n = of_char c :: nat in
     if n = 34 \<or> n = 92 then [CHR 0x5C, c]
     else if n = 7 then [CHR 0x5C, CHR ''a'']
     else if n = 8 then [CHR 0x5C, CHR ''b'']
     else if n = 9 then [CHR 0x5C, CHR ''t'']
     else if n = 10 then [CHR 0x5C, CHR ''n'']
     else if n = 11 then [CHR 0x5C, CHR ''v'']
     else if n = 12 then [CHR 0x5C, CHR ''f'']
     else if n = 13 then [CHR 0x5C, CHR ''r'']
     else if n < 32 \<or> n = 127 then [CHR 0x5C, CHR ''x''] @ hex_byte n
     else [c])"

definition quote :: "string \<Rightarrow> string" where
  "quote s = [CHR 0x22] @ concat (map quote_char s) @ [CHR 0x22]"

declare show_nat.simps [simp del]

lemma length_hex_byte [simp]: "length (hex_byte b) = 2"
  by (simp add: hex_byte_def)

section \<open>Lists\<close>

lemma filter_eq_snoc: "filter P (xs @ [x]) = (if P x then filter P xs @ [x] else filter P xs)"
  by simp

lemma prefix_take_snoc:
  "(\<forall>n. P (take n (xs @ [x]))) \<longleftrightarrow> (\<forall>n. P (take n xs)) \<and> P (xs @ [x])"
proof
  assume *: "\<forall>n. P (take n (xs @ [x]))"
  have "P (take n xs)" for n
    using * [rule_format, of "min n (length xs)"] by (cases "n \<le> length xs") simp_all
  moreover have "P (xs @ [x])"
    using * [rule_format, of "Suc (length xs)"] by simp
  ultimately show "(\<forall>n. P (take n xs)) \<and> P (xs @ [x])" by blast
next
  assume *: "(\<forall>n. P (take n xs)) \<and> P (xs @ [x])"
  show "\<forall>n. P (take n (xs @ [x]))"
  proof
    fix n
    show "P (take n (xs @ [x]))"
      using * by (cases "n \<le> length xs") auto
  qed
qed

lemma sum_list_map_snoc: "sum_list (map f (xs @ [x])) = sum_list (map f xs) + (f x :: int)"
  by simp

end
