(* ===== verification/Errors.thy ===== *)
theory Errors
  imports Prelude
begin

text \<open>
  The error values of the program: the sentinels declared with \<^verbatim>\<open>errors.New\<close> in
  \<^verbatim>\<open>internal/domain/account.go\<close>, \<^verbatim>\<open>internal/eventstore/store.go\<close> and \<^verbatim>\<open>internal/app/app.go\<close>, the
  library errors the code inspects, and the wrapping of \<^verbatim>\<open>fmt.Errorf\<close> with \<^verbatim>\<open>%w\<close>.
  A Go result \<open>(T, error)\<close> is the sum \<open>error + T\<close>; a bare \<^verbatim>\<open>error\<close> is \<open>error option\<close> with
  \<^const>\<open>None\<close> for \<^verbatim>\<open>nil\<close>.
\<close>

datatype error =
    ErrAccountClosed
  | ErrAccountNotFound
  | ErrInsufficientFunds
  | ErrInvalidAmount
  | ErrOwnerRequired
  | ErrSameAccount
  | ErrAmountTooLarge
  | ErrConcurrency
  | ErrAggregateMismatch
  | ErrTooManyConflicts
  | ErrNoRows \<comment> \<open>\<^verbatim>\<open>sql.ErrNoRows\<close>\<close>
  | Canceled \<comment> \<open>\<^verbatim>\<open>context.Canceled\<close>\<close>
  | DeadlineExceeded \<comment> \<open>\<^verbatim>\<open>context.DeadlineExceeded\<close>\<close>
  | JSONError string \<comment> \<open>an error of \<^verbatim>\<open>encoding/json\<close>, with its text\<close>
  | PqError string string \<comment> \<open>a \<^verbatim>\<open>pq.Error\<close>: SQLSTATE code and text\<close>
  | Errorf string \<comment> \<open>\<^verbatim>\<open>fmt.Errorf\<close> or \<^verbatim>\<open>errors.New\<close> with no wrapped error\<close>
  | Wrapf string error \<comment> \<open>\<^verbatim>\<open>fmt.Errorf("...: %w", err)\<close>\<close>

type_synonym 'a result = "error + 'a"

text \<open>The method \<^verbatim>\<open>Error()\<close>.\<close>

primrec error_text :: "error \<Rightarrow> string" where
  "error_text ErrAccountClosed = ''account is closed''"
| "error_text ErrAccountNotFound = ''account not found''"
| "error_text ErrInsufficientFunds = ''insufficient funds''"
| "error_text ErrInvalidAmount = ''amount must be positive''"
| "error_text ErrOwnerRequired = ''owner is required''"
| "error_text ErrSameAccount = ''transfer to the same account''"
| "error_text ErrAmountTooLarge = ''amount exceeds per-operation limit''"
| "error_text ErrConcurrency = ''concurrency conflict: aggregate was modified''"
| "error_text ErrAggregateMismatch = ''event aggregate does not match stream''"
| "error_text ErrTooManyConflicts = ''too many concurrent updates, retry later''"
| "error_text ErrNoRows = ''sql: no rows in result set''"
| "error_text Canceled = ''context canceled''"
| "error_text DeadlineExceeded = ''context deadline exceeded''"
| "error_text (JSONError t) = t"
| "error_text (PqError code t) = ''pq: '' @ t"
| "error_text (Errorf t) = t"
| "error_text (Wrapf p e) = p @ '': '' @ error_text e"

text \<open>\<^verbatim>\<open>errors.Is(err, target)\<close> walks the chain of wrapped errors.\<close>

fun errors_Is :: "error \<Rightarrow> error \<Rightarrow> bool" where
  "errors_Is (Wrapf p e) target = (Wrapf p e = target \<or> errors_Is e target)"
| "errors_Is e target = (e = target)"

text \<open>\<^verbatim>\<open>errors.As(err, &pqErr)\<close>: the SQLSTATE code of the first \<^verbatim>\<open>pq.Error\<close> in the chain.\<close>

fun errors_As_pq :: "error \<Rightarrow> string option" where
  "errors_As_pq (PqError code t) = Some code"
| "errors_As_pq (Wrapf p e) = errors_As_pq e"
| "errors_As_pq e = None"

lemma errors_Is_refl [simp]: "errors_Is e e"
  by (cases e) simp_all

lemma error_text_nonempty:
  "(\<And>t. e \<noteq> JSONError t) \<Longrightarrow> (\<And>t. e \<noteq> Errorf t) \<Longrightarrow> error_text e \<noteq> []"
  by (cases e) simp_all

end
