(* ===== verification/Json.thy ===== *)
theory Json
  imports Errors "HOL-Library.Multiset"
begin

text \<open>
  What the code uses of \<^verbatim>\<open>encoding/json\<close>: a \<^verbatim>\<open>json.RawMessage\<close> is either text that does not
  parse (with the text of the syntax error \<^verbatim>\<open>json.Unmarshal\<close> reports) or the value it denotes.
  Numbers keep the distinction the decoder makes between integer literals and literals with
  a fraction or an exponent. Decoding into a struct follows the decoder: every key of the
  object in order, matched to a field up to case folding, unknown keys skipped, \<^verbatim>\<open>null\<close>
  leaving the field alone, the first type error kept while decoding goes on. Strings are
  valid UTF-8: those of the program come out of the decoder, which replaces other bytes.
\<close>

datatype json =
    JNull
  | JBool bool
  | JInt int
  | JReal string
  | JStr string
  | JArr "json list"
  | JObj "(string \<times> json) list"

datatype RawMessage = RawJSON json | RawInvalid string

section \<open>Matching keys to fields\<close>

text \<open>
  The folded name of the decoder: ASCII letters in upper case, and the two characters
  outside ASCII that fold to ASCII letters, U+017F and U+212A.
\<close>

definition ascii_upper :: "char \<Rightarrow> char" where
  "ascii_upper c = (case c of Char b0 b1 b2 b3 b4 b5 b6 b7 \<Rightarrow>
     if b5 \<and> b6 \<and> \<not> b7 \<and> (b0 \<or> b1 \<or> b2 \<or> b3 \<or> b4) \<and> \<not> (b4 \<and> b3 \<and> (b2 \<or> b1 \<and> b0))
     then Char b0 b1 b2 b3 b4 False b6 b7 else c)"

text \<open>The test on the bits selects the codes 97 to 122; bit 5 is the distance to the upper case letter.\<close>

lemma ascii_upper_letters:
  "map ascii_upper ''abcdefghijklmnopqrstuvwxyz'' = ''ABCDEFGHIJKLMNOPQRSTUVWXYZ''"
  "map ascii_upper ''@AZ[_`{|}~'' = ''@AZ[_`{|}~''"
  by (simp_all add: ascii_upper_def)

function fold_name :: "string \<Rightarrow> string" where
  "fold_name [] = []"
| "fold_name (c # cs) =
     (if c = CHR 0xC5 \<and> take 1 cs = [CHR 0xBF] then CHR ''S'' # fold_name (drop 1 cs)
      else if c = CHR 0xE2 \<and> take 2 cs = [CHR 0x84, CHR 0xAA] then CHR ''K'' # fold_name (drop 2 cs)
      else ascii_upper c # fold_name cs)"
  by pat_completeness auto
termination
  by (relation "measure length") auto

definition key_matches :: "string \<Rightarrow> string \<Rightarrow> bool" where
  "key_matches field key = (key = field \<or> fold_name key = fold_name field)"

section \<open>Decoding values into fields\<close>

definition value_name :: "json \<Rightarrow> string" where
  "value_name v = (case v of
       JNull \<Rightarrow> ''null'' | JBool _ \<Rightarrow> ''bool'' | JInt n \<Rightarrow> ''number '' @ show_int n
     | JReal l \<Rightarrow> ''number '' @ l | JStr _ \<Rightarrow> ''string'' | JArr _ \<Rightarrow> ''array''
     | JObj _ \<Rightarrow> ''object'')"

definition field_error :: "string \<Rightarrow> string \<Rightarrow> string \<Rightarrow> error" where
  "field_error what path typ =
     JSONError (''json: cannot unmarshal '' @ what @ '' into Go struct field '' @ path @ '' of type '' @ typ)"

text \<open>A \<^verbatim>\<open>string\<close> field and an \<^verbatim>\<open>int64\<close> field: the new value, or the type error.\<close>

definition decode_string :: "string \<Rightarrow> json \<Rightarrow> string \<Rightarrow> string result" where
  "decode_string path v old = (case v of
       JStr s \<Rightarrow> Inr s
     | JNull \<Rightarrow> Inr old
     | JInt _ \<Rightarrow> Inl (field_error ''number'' path ''string'')
     | JReal _ \<Rightarrow> Inl (field_error ''number'' path ''string'')
     | _ \<Rightarrow> Inl (field_error (value_name v) path ''string''))"

definition decode_int64 :: "string \<Rightarrow> json \<Rightarrow> int64 \<Rightarrow> int64 result" where
  "decode_int64 path v old = (case v of
       JInt n \<Rightarrow> if - 9223372036854775808 \<le> n \<and> n \<le> 9223372036854775807 then Inr (word_of_int n)
                 else Inl (field_error (value_name v) path ''int64'')
     | JNull \<Rightarrow> Inr old
     | _ \<Rightarrow> Inl (field_error (value_name v) path ''int64''))"

definition decode_bool :: "string \<Rightarrow> json \<Rightarrow> bool \<Rightarrow> bool result" where
  "decode_bool path v old = (case v of
       JBool b \<Rightarrow> Inr b
     | JNull \<Rightarrow> Inr old
     | JInt _ \<Rightarrow> Inl (field_error ''number'' path ''bool'')
     | JReal _ \<Rightarrow> Inl (field_error ''number'' path ''bool'')
     | _ \<Rightarrow> Inl (field_error (value_name v) path ''bool''))"

section \<open>Decoding an object into a struct\<close>

text \<open>
  \<open>assign key value struct\<close> stores one key. The result pairs the first type error with the
  struct as decoded, because \<^verbatim>\<open>json.Unmarshal\<close> stores what it can even when it reports an error.
\<close>

fun decode_fields :: "(string \<Rightarrow> json \<Rightarrow> 's \<Rightarrow> 's result) \<Rightarrow> (string \<times> json) list \<Rightarrow> 's \<Rightarrow> error option \<times> 's" where
  "decode_fields assign [] s = (None, s)"
| "decode_fields assign ((k, v) # kvs) s = (case assign k v s of
       Inr s' \<Rightarrow> decode_fields assign kvs s'
     | Inl e \<Rightarrow> (Some e, snd (decode_fields assign kvs s)))"

definition unmarshal_struct ::
    "string \<Rightarrow> (string \<Rightarrow> json \<Rightarrow> 's \<Rightarrow> 's result) \<Rightarrow> RawMessage \<Rightarrow> 's \<Rightarrow> error option \<times> 's" where
  "unmarshal_struct typ assign raw s = (case raw of
       RawInvalid msg \<Rightarrow> (Some (JSONError msg), s)
     | RawJSON JNull \<Rightarrow> (None, s)
     | RawJSON (JObj kvs) \<Rightarrow> decode_fields assign kvs s
     | RawJSON v \<Rightarrow> (Some (JSONError (''json: cannot unmarshal ''
         @ (case v of JInt _ \<Rightarrow> ''number'' | JReal _ \<Rightarrow> ''number'' | _ \<Rightarrow> value_name v)
         @ '' into Go value of type '' @ typ)), s))"

text \<open>\<^verbatim>\<open>json.Unmarshal\<close> as its callers read it: the error, or the decoded struct.\<close>

definition unmarshal ::
    "string \<Rightarrow> (string \<Rightarrow> json \<Rightarrow> 's \<Rightarrow> 's result) \<Rightarrow> 's \<Rightarrow> RawMessage \<Rightarrow> 's result" where
  "unmarshal typ assign zero raw =
     (case unmarshal_struct typ assign raw zero of (Some e, _) \<Rightarrow> Inl e | (None, s) \<Rightarrow> Inr s)"

section \<open>Facts\<close>

lemma decode_string_JStr [simp]: "decode_string path (JStr s) old = Inr s"
  by (simp add: decode_string_def)

lemma decode_bool_JBool [simp]: "decode_bool path (JBool b) old = Inr b"
  by (simp add: decode_bool_def)

lemma decode_int64_JInt [simp]: "decode_int64 path (JInt (sint w)) old = Inr w"
  using sint64_lower [of w] sint64_upper [of w] by (simp add: decode_int64_def)

text \<open>
  The order of the keys does not matter when every key is accepted and no two keys write
  the same field differently.
\<close>

lemma decode_fields_fold:
  "(\<And>k v t. (k, v) \<in> set kvs \<Longrightarrow> assign k v t = Inr (upd (k, v) t)) \<Longrightarrow>
     decode_fields assign kvs s = (None, fold upd kvs s)"
  by (induction kvs arbitrary: s) auto

lemma decode_fields_perm:
  assumes "mset kvs' = mset kvs"
    and "\<And>k v t. (k, v) \<in> set kvs \<Longrightarrow> assign k v t = Inr (upd (k, v) t)"
    and "\<And>x y t. x \<in> set kvs \<Longrightarrow> y \<in> set kvs \<Longrightarrow> upd x (upd y t) = upd y (upd x t)"
  shows "decode_fields assign kvs' s = decode_fields assign kvs s"
proof -
  have "set kvs' = set kvs" using assms(1) by (metis set_mset_mset)
  then have "decode_fields assign kvs' s = (None, fold upd kvs' s)"
    using assms(2) by (intro decode_fields_fold) auto
  moreover have "decode_fields assign kvs s = (None, fold upd kvs s)"
    using assms(2) by (intro decode_fields_fold) auto
  moreover have "fold upd kvs' = fold upd kvs"
    using assms(1,3) \<open>set kvs' = set kvs\<close> by (intro fold_multiset_equiv) (auto simp: fun_eq_iff)
  ultimately show ?thesis by simp
qed

lemma key_matches_refl [simp]: "key_matches k k"
  by (simp add: key_matches_def)

end
