(* ===== verification/Events.thy ===== *)
theory Events
  imports Json
begin

text \<open>
  \<^verbatim>\<open>internal/domain/events.go\<close>: the event envelope, the payload structs with their JSON tags,
  \<^verbatim>\<open>NewEvent\<close> and \<^verbatim>\<open>NewID\<close>. What the run-time system hands in (random bytes and the clock) is the
  record \<open>draw\<close>; times are nanoseconds since the epoch. A failing entropy source makes
  \<^verbatim>\<open>NewID\<close> panic, which ends the process, so a draw always has its bytes.
\<close>

unbundle bit_operations_syntax

section \<open>Event types\<close>

type_synonym EventType = string

definition EventAccountOpened :: EventType where "EventAccountOpened = ''account.opened''"
definition EventMoneyDeposited :: EventType where "EventMoneyDeposited = ''money.deposited''"
definition EventMoneyWithdrawn :: EventType where "EventMoneyWithdrawn = ''money.withdrawn''"
definition EventTransferDebited :: EventType where "EventTransferDebited = ''transfer.debited''"
definition EventTransferCredited :: EventType where "EventTransferCredited = ''transfer.credited''"
definition EventTransferReversed :: EventType where "EventTransferReversed = ''transfer.reversed''"

lemmas event_type_defs = EventAccountOpened_def EventMoneyDeposited_def EventMoneyWithdrawn_def
  EventTransferDebited_def EventTransferCredited_def EventTransferReversed_def

lemma event_types_distinct [simp]:
  "EventAccountOpened \<noteq> EventMoneyDeposited" "EventAccountOpened \<noteq> EventMoneyWithdrawn"
  "EventAccountOpened \<noteq> EventTransferDebited" "EventAccountOpened \<noteq> EventTransferCredited"
  "EventAccountOpened \<noteq> EventTransferReversed" "EventMoneyDeposited \<noteq> EventAccountOpened"
  "EventMoneyDeposited \<noteq> EventMoneyWithdrawn" "EventMoneyDeposited \<noteq> EventTransferDebited"
  "EventMoneyDeposited \<noteq> EventTransferCredited" "EventMoneyDeposited \<noteq> EventTransferReversed"
  "EventMoneyWithdrawn \<noteq> EventAccountOpened" "EventMoneyWithdrawn \<noteq> EventMoneyDeposited"
  "EventMoneyWithdrawn \<noteq> EventTransferDebited" "EventMoneyWithdrawn \<noteq> EventTransferCredited"
  "EventMoneyWithdrawn \<noteq> EventTransferReversed" "EventTransferDebited \<noteq> EventAccountOpened"
  "EventTransferDebited \<noteq> EventMoneyDeposited" "EventTransferDebited \<noteq> EventMoneyWithdrawn"
  "EventTransferDebited \<noteq> EventTransferCredited" "EventTransferDebited \<noteq> EventTransferReversed"
  "EventTransferCredited \<noteq> EventAccountOpened" "EventTransferCredited \<noteq> EventMoneyDeposited"
  "EventTransferCredited \<noteq> EventMoneyWithdrawn" "EventTransferCredited \<noteq> EventTransferDebited"
  "EventTransferCredited \<noteq> EventTransferReversed" "EventTransferReversed \<noteq> EventAccountOpened"
  "EventTransferReversed \<noteq> EventMoneyDeposited" "EventTransferReversed \<noteq> EventMoneyWithdrawn"
  "EventTransferReversed \<noteq> EventTransferDebited" "EventTransferReversed \<noteq> EventTransferCredited"
  by (simp_all add: event_type_defs)

section \<open>The envelope and the payloads\<close>

record Event =
  eID :: string
  eAggregateID :: string
  eVersion :: int64
  eType :: EventType
  eData :: RawMessage
  eOccurredAt :: int
  eSeq :: int64

record AccountOpened =
  aoOwner :: string

record MoneyDeposited =
  mdAmount :: int64
  mdDescription :: string

record MoneyWithdrawn =
  mwAmount :: int64
  mwDescription :: string

record TransferDebited =
  tdTransferID :: string
  tdTo :: string
  tdAmount :: int64

record TransferCredited =
  tcTransferID :: string
  tcFrom :: string
  tcAmount :: int64

record TransferReversed =
  trTransferID :: string
  trAmount :: int64
  trReason :: string

text \<open>The dynamic type of the parameter \<^verbatim>\<open>payload any\<close> of \<^verbatim>\<open>NewEvent\<close>.\<close>

datatype payload =
    PAccountOpened AccountOpened
  | PMoneyDeposited MoneyDeposited
  | PMoneyWithdrawn MoneyWithdrawn
  | PTransferDebited TransferDebited
  | PTransferCredited TransferCredited
  | PTransferReversed TransferReversed

section \<open>Encoding\<close>

definition omitempty :: "string \<Rightarrow> string \<Rightarrow> (string \<times> json) list" where
  "omitempty name s = (if s = [] then [] else [(name, JStr s)])"

text \<open>\<^verbatim>\<open>json.Marshal\<close> on the payload structs: fields in declaration order under their tags.\<close>

primrec marshal :: "payload \<Rightarrow> RawMessage result" where
  "marshal (PAccountOpened p) = Inr (RawJSON (JObj [(''owner'', JStr (aoOwner p))]))"
| "marshal (PMoneyDeposited p) = Inr (RawJSON (JObj
     ((''amount'', JInt (sint (mdAmount p))) # omitempty ''description'' (mdDescription p))))"
| "marshal (PMoneyWithdrawn p) = Inr (RawJSON (JObj
     ((''amount'', JInt (sint (mwAmount p))) # omitempty ''description'' (mwDescription p))))"
| "marshal (PTransferDebited p) = Inr (RawJSON (JObj
     [(''transfer_id'', JStr (tdTransferID p)), (''to'', JStr (tdTo p)), (''amount'', JInt (sint (tdAmount p)))]))"
| "marshal (PTransferCredited p) = Inr (RawJSON (JObj
     [(''transfer_id'', JStr (tcTransferID p)), (''from'', JStr (tcFrom p)), (''amount'', JInt (sint (tcAmount p)))]))"
| "marshal (PTransferReversed p) = Inr (RawJSON (JObj
     [(''transfer_id'', JStr (trTransferID p)), (''amount'', JInt (sint (trAmount p))), (''reason'', JStr (trReason p))]))"

section \<open>Decoding\<close>

text \<open>One field of a struct: the updated struct, or the type error.\<close>

definition set_field :: "('f \<Rightarrow> 's) \<Rightarrow> 'f result \<Rightarrow> 's result" where
  "set_field upd r = (case r of Inl e \<Rightarrow> Inl e | Inr x \<Rightarrow> Inr (upd x))"

definition assign_AccountOpened :: "string \<Rightarrow> json \<Rightarrow> AccountOpened \<Rightarrow> AccountOpened result" where
  "assign_AccountOpened k v p =
     (if key_matches ''owner'' k
        then set_field (\<lambda>x. p\<lparr>aoOwner := x\<rparr>) (decode_string ''AccountOpened.owner'' v (aoOwner p))
      else Inr p)"

definition assign_MoneyDeposited :: "string \<Rightarrow> json \<Rightarrow> MoneyDeposited \<Rightarrow> MoneyDeposited result" where
  "assign_MoneyDeposited k v p =
     (if key_matches ''amount'' k
        then set_field (\<lambda>x. p\<lparr>mdAmount := x\<rparr>) (decode_int64 ''MoneyDeposited.amount'' v (mdAmount p))
      else if key_matches ''description'' k
        then set_field (\<lambda>x. p\<lparr>mdDescription := x\<rparr>) (decode_string ''MoneyDeposited.description'' v (mdDescription p))
      else Inr p)"

definition assign_MoneyWithdrawn :: "string \<Rightarrow> json \<Rightarrow> MoneyWithdrawn \<Rightarrow> MoneyWithdrawn result" where
  "assign_MoneyWithdrawn k v p =
     (if key_matches ''amount'' k
        then set_field (\<lambda>x. p\<lparr>mwAmount := x\<rparr>) (decode_int64 ''MoneyWithdrawn.amount'' v (mwAmount p))
      else if key_matches ''description'' k
        then set_field (\<lambda>x. p\<lparr>mwDescription := x\<rparr>) (decode_string ''MoneyWithdrawn.description'' v (mwDescription p))
      else Inr p)"

definition assign_TransferDebited :: "string \<Rightarrow> json \<Rightarrow> TransferDebited \<Rightarrow> TransferDebited result" where
  "assign_TransferDebited k v p =
     (if key_matches ''transfer_id'' k
        then set_field (\<lambda>x. p\<lparr>tdTransferID := x\<rparr>) (decode_string ''TransferDebited.transfer_id'' v (tdTransferID p))
      else if key_matches ''to'' k
        then set_field (\<lambda>x. p\<lparr>tdTo := x\<rparr>) (decode_string ''TransferDebited.to'' v (tdTo p))
      else if key_matches ''amount'' k
        then set_field (\<lambda>x. p\<lparr>tdAmount := x\<rparr>) (decode_int64 ''TransferDebited.amount'' v (tdAmount p))
      else Inr p)"

definition assign_TransferCredited :: "string \<Rightarrow> json \<Rightarrow> TransferCredited \<Rightarrow> TransferCredited result" where
  "assign_TransferCredited k v p =
     (if key_matches ''transfer_id'' k
        then set_field (\<lambda>x. p\<lparr>tcTransferID := x\<rparr>) (decode_string ''TransferCredited.transfer_id'' v (tcTransferID p))
      else if key_matches ''from'' k
        then set_field (\<lambda>x. p\<lparr>tcFrom := x\<rparr>) (decode_string ''TransferCredited.from'' v (tcFrom p))
      else if key_matches ''amount'' k
        then set_field (\<lambda>x. p\<lparr>tcAmount := x\<rparr>) (decode_int64 ''TransferCredited.amount'' v (tcAmount p))
      else Inr p)"

definition assign_TransferReversed :: "string \<Rightarrow> json \<Rightarrow> TransferReversed \<Rightarrow> TransferReversed result" where
  "assign_TransferReversed k v p =
     (if key_matches ''transfer_id'' k
        then set_field (\<lambda>x. p\<lparr>trTransferID := x\<rparr>) (decode_string ''TransferReversed.transfer_id'' v (trTransferID p))
      else if key_matches ''amount'' k
        then set_field (\<lambda>x. p\<lparr>trAmount := x\<rparr>) (decode_int64 ''TransferReversed.amount'' v (trAmount p))
      else if key_matches ''reason'' k
        then set_field (\<lambda>x. p\<lparr>trReason := x\<rparr>) (decode_string ''TransferReversed.reason'' v (trReason p))
      else Inr p)"

definition unmarshal_AccountOpened :: "RawMessage \<Rightarrow> AccountOpened result" where
  "unmarshal_AccountOpened = unmarshal ''domain.AccountOpened'' assign_AccountOpened \<lparr>aoOwner = []\<rparr>"

definition unmarshal_MoneyDeposited :: "RawMessage \<Rightarrow> MoneyDeposited result" where
  "unmarshal_MoneyDeposited =
     unmarshal ''domain.MoneyDeposited'' assign_MoneyDeposited \<lparr>mdAmount = 0, mdDescription = []\<rparr>"

definition unmarshal_MoneyWithdrawn :: "RawMessage \<Rightarrow> MoneyWithdrawn result" where
  "unmarshal_MoneyWithdrawn =
     unmarshal ''domain.MoneyWithdrawn'' assign_MoneyWithdrawn \<lparr>mwAmount = 0, mwDescription = []\<rparr>"

definition unmarshal_TransferDebited :: "RawMessage \<Rightarrow> TransferDebited result" where
  "unmarshal_TransferDebited =
     unmarshal ''domain.TransferDebited'' assign_TransferDebited \<lparr>tdTransferID = [], tdTo = [], tdAmount = 0\<rparr>"

definition unmarshal_TransferCredited :: "RawMessage \<Rightarrow> TransferCredited result" where
  "unmarshal_TransferCredited =
     unmarshal ''domain.TransferCredited'' assign_TransferCredited \<lparr>tcTransferID = [], tcFrom = [], tcAmount = 0\<rparr>"

definition unmarshal_TransferReversed :: "RawMessage \<Rightarrow> TransferReversed result" where
  "unmarshal_TransferReversed =
     unmarshal ''domain.TransferReversed'' assign_TransferReversed \<lparr>trTransferID = [], trAmount = 0, trReason = []\<rparr>"

text \<open>The one field \<^verbatim>\<open>transfer_id\<close> of a payload; a decoding error is ignored, so this is what the decoder stored.\<close>

definition transfer_field :: "RawMessage \<Rightarrow> string" where
  "transfer_field d = snd (unmarshal_struct ''struct''
     (\<lambda>k v t. if key_matches ''transfer_id'' k then decode_string ''.transfer_id'' v t else Inr t) d [])"

text \<open>Two encodings no decoder of the program can tell apart: what a store may do to a payload.\<close>

definition same_payload :: "RawMessage \<Rightarrow> RawMessage \<Rightarrow> bool" where
  "same_payload d d' \<longleftrightarrow>
     unmarshal_AccountOpened d' = unmarshal_AccountOpened d \<and> unmarshal_MoneyDeposited d' = unmarshal_MoneyDeposited d \<and>
     unmarshal_MoneyWithdrawn d' = unmarshal_MoneyWithdrawn d \<and> unmarshal_TransferDebited d' = unmarshal_TransferDebited d \<and>
     unmarshal_TransferCredited d' = unmarshal_TransferCredited d \<and> unmarshal_TransferReversed d' = unmarshal_TransferReversed d \<and>
     transfer_field d' = transfer_field d"

text \<open>
  \<open>f\<close> is the event \<open>e\<close> as a store holds it: it has its own \<^verbatim>\<open>Seq\<close>, may round the time and
  rewrite the JSON text, and agrees on all the rest.
\<close>

definition stored_as :: "Event \<Rightarrow> Event \<Rightarrow> bool" where
  "stored_as e f \<longleftrightarrow> eAggregateID f = eAggregateID e \<and> eVersion f = eVersion e \<and> eType f = eType e \<and>
     same_payload (eData e) (eData f)"

lemma same_payload_refl [simp]: "same_payload d d"
  by (simp add: same_payload_def)

lemma stored_as_seq [simp]: "stored_as e (e\<lparr>eSeq := n\<rparr>)"
  by (simp add: stored_as_def)

lemma stored_as_refl [simp]: "stored_as e e"
  by (simp add: stored_as_def)

section \<open>NewID and NewEvent\<close>

record draw =
  rnd :: "u8 list" \<comment> \<open>the bytes \<^verbatim>\<open>rand.Read\<close> fills in\<close>
  now :: int \<comment> \<open>\<^verbatim>\<open>time.Now().UTC()\<close>\<close>

definition hex_bytes :: "u8 list \<Rightarrow> string" where
  "hex_bytes bs = concat (map (\<lambda>b. hex_byte (unat b)) bs)"

definition slice :: "nat \<Rightarrow> nat \<Rightarrow> 'a list \<Rightarrow> 'a list" where
  "slice i j xs = drop i (take j xs)"

definition NewID :: "u8 list \<Rightarrow> string" where
  "NewID b =
     (let b = b[6 := (b ! 6 AND 0x0f) OR 0x40];
          b = b[8 := (b ! 8 AND 0x3f) OR 0x80]
      in hex_bytes (slice 0 4 b) @ ''-'' @ hex_bytes (slice 4 6 b) @ ''-'' @ hex_bytes (slice 6 8 b)
         @ ''-'' @ hex_bytes (slice 8 10 b) @ ''-'' @ hex_bytes (slice 10 16 b))"

definition NewEvent :: "draw \<Rightarrow> string \<Rightarrow> int64 \<Rightarrow> EventType \<Rightarrow> payload \<Rightarrow> Event result" where
  "NewEvent d aggregateID version typ p = (case marshal p of
       Inl e \<Rightarrow> Inl (Wrapf (''marshal payload '' @ typ) e)
     | Inr dat \<Rightarrow> Inr \<lparr>eID = NewID (rnd d), eAggregateID = aggregateID, eVersion = version,
                        eType = typ, eData = dat, eOccurredAt = now d, eSeq = 0\<rparr>)"

section \<open>Facts\<close>

lemma marshal_total: "\<exists>v. marshal p = Inr (RawJSON v)"
  by (cases p) simp_all

lemma NewID_nonempty [simp]: "NewID b \<noteq> []"
  by (simp add: NewID_def Let_def)

lemma set_field_Inr [simp]: "set_field upd (Inr x) = Inr (upd x)"
  and set_field_Inl [simp]: "set_field upd (Inl e) = Inl e"
  by (simp_all add: set_field_def)

text \<open>The tags of one struct do not fold together.\<close>

lemma tags_distinct [simp]:
  "\<not> key_matches ''amount'' ''description''"
  "\<not> key_matches ''transfer_id'' ''description''" "\<not> key_matches ''transfer_id'' ''owner''"
  "\<not> key_matches ''transfer_id'' ''to''" "\<not> key_matches ''transfer_id'' ''from''"
  "\<not> key_matches ''transfer_id'' ''amount''" "\<not> key_matches ''transfer_id'' ''reason''"
  "\<not> key_matches ''to'' ''amount''" "\<not> key_matches ''from'' ''amount''"
  "\<not> key_matches ''amount'' ''reason''"
  by (simp_all add: key_matches_def ascii_upper_def)

lemmas unmarshal_payload_defs = unmarshal_AccountOpened_def unmarshal_MoneyDeposited_def
  unmarshal_MoneyWithdrawn_def unmarshal_TransferDebited_def unmarshal_TransferCredited_def
  unmarshal_TransferReversed_def

lemmas assign_payload_defs = assign_AccountOpened_def assign_MoneyDeposited_def
  assign_MoneyWithdrawn_def assign_TransferDebited_def assign_TransferCredited_def
  assign_TransferReversed_def

lemma unmarshal_marshal_AccountOpened:
  "marshal (PAccountOpened p) = Inr d \<Longrightarrow> unmarshal_AccountOpened d = Inr p"
  by (auto simp: unmarshal_payload_defs assign_payload_defs unmarshal_def unmarshal_struct_def)

lemma unmarshal_marshal_MoneyDeposited:
  "marshal (PMoneyDeposited p) = Inr d \<Longrightarrow> unmarshal_MoneyDeposited d = Inr p"
  by (auto simp: unmarshal_payload_defs assign_payload_defs unmarshal_def unmarshal_struct_def omitempty_def)

lemma unmarshal_marshal_MoneyWithdrawn:
  "marshal (PMoneyWithdrawn p) = Inr d \<Longrightarrow> unmarshal_MoneyWithdrawn d = Inr p"
  by (auto simp: unmarshal_payload_defs assign_payload_defs unmarshal_def unmarshal_struct_def omitempty_def)

lemma unmarshal_marshal_TransferDebited:
  "marshal (PTransferDebited p) = Inr d \<Longrightarrow> unmarshal_TransferDebited d = Inr p"
  by (auto simp: unmarshal_payload_defs assign_payload_defs unmarshal_def unmarshal_struct_def)

lemma unmarshal_marshal_TransferCredited:
  "marshal (PTransferCredited p) = Inr d \<Longrightarrow> unmarshal_TransferCredited d = Inr p"
  by (auto simp: unmarshal_payload_defs assign_payload_defs unmarshal_def unmarshal_struct_def)

lemma unmarshal_marshal_TransferReversed:
  "marshal (PTransferReversed p) = Inr d \<Longrightarrow> unmarshal_TransferReversed d = Inr p"
  by (auto simp: unmarshal_payload_defs assign_payload_defs unmarshal_def unmarshal_struct_def)

section \<open>Properties\<close>

text \<open>
  C16. Every payload survives the event store: decoding what \<open>NewEvent\<close> encodes gives the payload
  back, for each of the six payload structs and all values of their fields.
\<close>

theorem payload_roundtrip:
  "\<exists>d1 d2 d3 d4 d5 d6.
     marshal (PAccountOpened p1) = Inr d1 \<and> unmarshal_AccountOpened d1 = Inr p1 \<and>
     marshal (PMoneyDeposited p2) = Inr d2 \<and> unmarshal_MoneyDeposited d2 = Inr p2 \<and>
     marshal (PMoneyWithdrawn p3) = Inr d3 \<and> unmarshal_MoneyWithdrawn d3 = Inr p3 \<and>
     marshal (PTransferDebited p4) = Inr d4 \<and> unmarshal_TransferDebited d4 = Inr p4 \<and>
     marshal (PTransferCredited p5) = Inr d5 \<and> unmarshal_TransferCredited d5 = Inr p5 \<and>
     marshal (PTransferReversed p6) = Inr d6 \<and> unmarshal_TransferReversed d6 = Inr p6"
  using unmarshal_marshal_AccountOpened [of p1] unmarshal_marshal_MoneyDeposited [of p2]
    unmarshal_marshal_MoneyWithdrawn [of p3] unmarshal_marshal_TransferDebited [of p4]
    unmarshal_marshal_TransferCredited [of p5] unmarshal_marshal_TransferReversed [of p6]
  by simp

text \<open>The two bytes of the id whose bits \<^const>\<open>NewID\<close> fixes, and the bytes as it prints them.\<close>

definition uuid_bytes :: "u8 list \<Rightarrow> u8 list" where
  "uuid_bytes b = b[6 := (b ! 6 AND 0x0f) OR 0x40, 8 := (b ! 8 AND 0x3f) OR 0x80]"

lemma high_nibble: "unat (w :: u8) div 16 = unat (drop_bit 4 w)"
  by (simp add: drop_bit_eq_div unat_div)

lemma version_nibble: "digit_char (unat ((w AND 0x0f) OR 0x40 :: u8) div 16) = CHR ''4''"
  unfolding high_nibble drop_bit_or drop_bit_and by (simp add: digit_char_def)

lemma variant_nibble: "digit_char (unat ((w AND 0x3f) OR 0x80 :: u8) div 16) \<in> set ''89ab''"
proof -
  let ?z = "drop_bit 4 w AND 3"
  have "?z = take_bit 2 (drop_bit 4 w)" by (simp add: take_bit_eq_mask mask_eq_exp_minus_1)
  then have "unat ?z < 4" by (simp add: unsigned_take_bit_eq take_bit_nat_less_exp [of 2, simplified])
  then have "unat ?z \<in> {0, 1, 2, 3}" by auto
  then have "?z \<in> {0, 1, 2, 3}" by (auto simp: word_unat_eq_iff)
  then have "drop_bit 4 ((w AND 0x3f) OR 0x80) \<in> {8, 9, 10, 11}"
    unfolding drop_bit_or drop_bit_and by auto
  then show ?thesis unfolding high_nibble by (auto simp: digit_char_def)
qed

lemma NewID_shape:
  assumes "length b = 16"
  shows "length (NewID b) = 36"
    and "map ((!) (NewID b)) [8, 13, 18, 23] = ''----''"
    and "NewID b ! 14 = CHR ''4''" and "NewID b ! 19 \<in> set ''89ab''"
proof -
  obtain b0 b1 b2 b3 b4 b5 b6 b7 b8 b9 b10 b11 b12 b13 b14 b15
    where b: "b = [b0, b1, b2, b3, b4, b5, b6, b7, b8, b9, b10, b11, b12, b13, b14, b15]"
    using assms by (auto simp: length_Suc_conv eval_nat_numeral)
  have "NewID b = hex_bytes [b0, b1, b2, b3] @ ''-'' @ hex_bytes [b4, b5] @ ''-'' @
      hex_bytes [(b6 AND 0x0f) OR 0x40, b7] @ ''-'' @ hex_bytes [(b8 AND 0x3f) OR 0x80, b9] @ ''-'' @
      hex_bytes [b10, b11, b12, b13, b14, b15]"
    unfolding b NewID_def Let_def slice_def by simp
  then show "length (NewID b) = 36" "map ((!) (NewID b)) [8, 13, 18, 23] = ''----''"
    "NewID b ! 14 = CHR ''4''" "NewID b ! 19 \<in> set ''89ab''"
    using version_nibble [of b6] variant_nibble [of b8]
    by (simp_all add: hex_bytes_def hex_byte_def)
qed

lemma digit_char_inj: "i < 16 \<Longrightarrow> j < 16 \<Longrightarrow> digit_char i = digit_char j \<longleftrightarrow> i = j"
  unfolding digit_char_def by (subst nth_eq_iff_index_eq) simp_all

lemma hex_byte_inj: "hex_byte (unat (v :: u8)) = hex_byte (unat w) \<longleftrightarrow> v = w"
proof -
  have "unat v < 256" "unat w < 256" using unsigned_less [of v] unsigned_less [of w] by simp_all
  then have "unat v div 16 < 16" "unat w div 16 < 16" by auto
  moreover have "unat v = unat w" if "unat v div 16 = unat w div 16" "unat v mod 16 = unat w mod 16"
    using that by (metis div_mult_mod_eq)
  ultimately show ?thesis by (auto simp: hex_byte_def digit_char_inj word_unat_eq_iff)
qed

lemma hex_bytes_inj: "length v = length w \<Longrightarrow> hex_bytes v = hex_bytes w \<longleftrightarrow> v = w"
  by (induction v w rule: list_induct2) (auto simp: hex_bytes_def hex_byte_inj)

lemma NewID_inj:
  assumes "length b = 16" and "length c = 16"
  shows "NewID b = NewID c \<longleftrightarrow> uuid_bytes b = uuid_bytes c"
proof
  assume "NewID b = NewID c"
  have len: "length (uuid_bytes b) = 16" "length (uuid_bytes c) = 16" using assms by (simp_all add: uuid_bytes_def)
  have id: "NewID x = hex_bytes (slice 0 4 (uuid_bytes x)) @ ''-'' @ hex_bytes (slice 4 6 (uuid_bytes x)) @ ''-'' @
      hex_bytes (slice 6 8 (uuid_bytes x)) @ ''-'' @ hex_bytes (slice 8 10 (uuid_bytes x)) @ ''-'' @
      hex_bytes (slice 10 16 (uuid_bytes x))" for x
    by (simp add: NewID_def uuid_bytes_def Let_def)
  have sl: "length (slice i j u) = j - i" if "length u = 16" "j \<le> 16" for i j and u :: "u8 list"
    using that by (simp add: slice_def)
  have hl: "length (hex_bytes u) = 2 * length u" for u by (induction u) (auto simp: hex_bytes_def)
  have "slice i j (uuid_bytes b) = slice i j (uuid_bytes c)" if "(i, j) \<in> {(0, 4), (4, 6), (6, 8), (8, 10), (10, 16)}" for i j
    using \<open>NewID b = NewID c\<close> that unfolding id
    by (auto simp: append_eq_append_conv hl sl len hex_bytes_inj)
  moreover have "slice 0 4 u @ slice 4 6 u @ slice 6 8 u @ slice 8 10 u @ slice 10 16 u = u" if "length u = 16" for u :: "u8 list"
    by (rule nth_equalityI) (use that in \<open>auto simp: slice_def nth_append\<close>)
  ultimately show "uuid_bytes b = uuid_bytes c" using len by (metis insertI1 insertI2)
qed (simp add: NewID_def uuid_bytes_def Let_def)

text \<open>
  \<open>NewID\<close> prints a version 4 UUID: 36 characters, hyphens at the positions 8, 13, 18 and 23,
  the version digit 4 and the variant digit 8, 9, a or b; and two ids are equal exactly
  when the random bytes agree outside the six fixed bits.
\<close>

lemma NewID_uuid_v4:
  assumes "length b = 16" and "length c = 16"
  shows "length (NewID b) = 36 \<and> map ((!) (NewID b)) [8, 13, 18, 23] = ''----'' \<and>
    NewID b ! 14 = CHR ''4'' \<and> NewID b ! 19 \<in> set ''89ab'' \<and>
    (NewID b = NewID c \<longleftrightarrow> uuid_bytes b = uuid_bytes c)"
  using NewID_shape [OF assms(1)] NewID_inj [OF assms] by simp

end
