(* ===== verification/Payload_Order.thy ===== *)
theory Payload_Order
  imports Events
begin

text \<open>
  Payloads whose keys come back from a store in another order. Within the encodings of the
  program no key is written twice and a tag has one type in all structs, so every decoder
  reads the same from a reordered payload. \<open>accepted_by\<close> is the condition on a decoder,
  \<open>same_payload_perm\<close> the result.
\<close>

section \<open>Decoders that do not depend on the order\<close>

definition accepted_by :: "(string \<Rightarrow> json \<Rightarrow> 's \<Rightarrow> 's result) \<Rightarrow> (string \<times> json) list \<Rightarrow> bool" where
  "accepted_by assign kvs \<longleftrightarrow> (\<exists>upd.
     (\<forall>(k, v) \<in> set kvs. assign k v = (\<lambda>t. Inr (upd (k, v) t))) \<and>
     (\<forall>x \<in> set kvs. \<forall>y \<in> set kvs. \<forall>t. upd x (upd y t) = upd y (upd x t)))"

lemma accepted_perm:
  assumes "accepted_by assign kvs" and "mset kvs' = mset kvs"
  shows "unmarshal_struct typ assign (RawJSON (JObj kvs')) s = unmarshal_struct typ assign (RawJSON (JObj kvs)) s"
proof -
  obtain upd where u: "\<And>k v. (k, v) \<in> set kvs \<Longrightarrow> assign k v = (\<lambda>t. Inr (upd (k, v) t))"
    "\<And>x y t. x \<in> set kvs \<Longrightarrow> y \<in> set kvs \<Longrightarrow> upd x (upd y t) = upd y (upd x t)"
    using assms(1) unfolding accepted_by_def by blast
  have "decode_fields assign kvs' s = decode_fields assign kvs s"
    by (rule decode_fields_perm [OF assms(2), where upd = upd]) (simp_all add: u)
  then show ?thesis by (simp add: unmarshal_struct_def)
qed

lemma unmarshal_perm:
  "accepted_by assign kvs \<Longrightarrow> mset kvs' = mset kvs \<Longrightarrow>
     unmarshal typ assign z (RawJSON (JObj kvs')) = unmarshal typ assign z (RawJSON (JObj kvs))"
  using accepted_perm [of assign kvs kvs' "typ" z] by (simp add: unmarshal_def)

section \<open>The payloads of the program\<close>

definition assign_transfer :: "string \<Rightarrow> json \<Rightarrow> string \<Rightarrow> string result" where
  "assign_transfer k v t = (if key_matches ''transfer_id'' k then decode_string ''.transfer_id'' v t else Inr t)"

lemma tags_distinct2 [simp]:
  "\<not> key_matches ''owner'' ''amount''" "\<not> key_matches ''owner'' ''description''" "\<not> key_matches ''owner'' ''transfer_id''"
  "\<not> key_matches ''owner'' ''to''" "\<not> key_matches ''owner'' ''from''" "\<not> key_matches ''owner'' ''reason''"
  "\<not> key_matches ''amount'' ''owner''" "\<not> key_matches ''amount'' ''transfer_id''" "\<not> key_matches ''amount'' ''to''"
  "\<not> key_matches ''amount'' ''from''" "\<not> key_matches ''description'' ''owner''" "\<not> key_matches ''description'' ''amount''"
  "\<not> key_matches ''description'' ''transfer_id''" "\<not> key_matches ''description'' ''to''"
  "\<not> key_matches ''description'' ''from''" "\<not> key_matches ''description'' ''reason''"
  "\<not> key_matches ''to'' ''owner''" "\<not> key_matches ''to'' ''description''" "\<not> key_matches ''to'' ''transfer_id''"
  "\<not> key_matches ''to'' ''from''" "\<not> key_matches ''to'' ''reason''"
  "\<not> key_matches ''from'' ''owner''" "\<not> key_matches ''from'' ''description''" "\<not> key_matches ''from'' ''transfer_id''"
  "\<not> key_matches ''from'' ''to''" "\<not> key_matches ''from'' ''reason''"
  "\<not> key_matches ''reason'' ''owner''" "\<not> key_matches ''reason'' ''description''" "\<not> key_matches ''reason'' ''transfer_id''"
  "\<not> key_matches ''reason'' ''to''" "\<not> key_matches ''reason'' ''from''" "\<not> key_matches ''reason'' ''amount''"
  by (simp_all add: key_matches_def ascii_upper_def)

text \<open>The total version of a decoder of one key: what it stores when it accepts the value.\<close>

lemma accepted_byI:
  assumes "\<And>k v t. (k, v) \<in> set kvs \<Longrightarrow> \<exists>t'. assign k v t = Inr t'"
    and "\<And>k v k' v' t. (k, v) \<in> set kvs \<Longrightarrow> (k', v') \<in> set kvs \<Longrightarrow>
      projr (assign k v (projr (assign k' v' t))) = projr (assign k' v' (projr (assign k v t)))"
  shows "accepted_by assign kvs"
proof -
  have "assign k v t = Inr (projr (assign k v t))" if "(k, v) \<in> set kvs" for k v t
    using assms(1) [OF that, of t] by auto
  then show ?thesis
    unfolding accepted_by_def using assms(2)
    by (intro exI [of _ "\<lambda>(k, v) t. projr (assign k v t)"]) (auto simp: fun_eq_iff)
qed

text \<open>Every key of an encoding is one of these.\<close>

definition tagged :: "string \<times> json \<Rightarrow> bool" where
  "tagged kv = (case kv of (k, v) \<Rightarrow>
     k = ''amount'' \<and> (\<exists>w :: int64. v = JInt (sint w)) \<or>
     k \<in> {''owner'', ''description'', ''transfer_id'', ''to'', ''from'', ''reason''} \<and> (\<exists>s. v = JStr s))"

lemma tagged_simps [simp]:
  "tagged (''amount'', JInt (sint (w :: int64)))" "tagged (''owner'', JStr s)" "tagged (''description'', JStr s)"
  "tagged (''transfer_id'', JStr s)" "tagged (''to'', JStr s)" "tagged (''from'', JStr s)" "tagged (''reason'', JStr s)"
  by (auto simp: tagged_def)

lemma marshal_tagged: "marshal p = Inr (RawJSON (JObj kvs)) \<Longrightarrow> distinct (map fst kvs) \<and> (\<forall>kv \<in> set kvs. tagged kv)"
  by (cases p) (auto simp: omitempty_def split: if_splits)

lemma tagged_cases:
  assumes "tagged (k, v)"
  obtains (amount) w where "k = ''amount''" "v = JInt (sint (w :: int64))"
    | (owner) s where "k = ''owner''" "v = JStr s"
    | (description) s where "k = ''description''" "v = JStr s"
    | (transfer_id) s where "k = ''transfer_id''" "v = JStr s"
    | (to) s where "k = ''to''" "v = JStr s"
    | (origin) s where "k = ''from''" "v = JStr s"
    | (reason) s where "k = ''reason''" "v = JStr s"
  using assms unfolding tagged_def prod.case by (elim disjE conjE exE insertE emptyE) assumption+

lemma tagged_accepted:
  assumes "tagged (k, v)"
  shows "\<exists>t'. assign_AccountOpened k v t1 = Inr t'" and "\<exists>t'. assign_MoneyDeposited k v t2 = Inr t'"
    and "\<exists>t'. assign_MoneyWithdrawn k v t3 = Inr t'" and "\<exists>t'. assign_TransferDebited k v t4 = Inr t'"
    and "\<exists>t'. assign_TransferCredited k v t5 = Inr t'" and "\<exists>t'. assign_TransferReversed k v t6 = Inr t'"
    and "\<exists>t'. assign_transfer k v t7 = Inr t'"
  using assms by (cases rule: tagged_cases; simp add: assign_payload_defs assign_transfer_def)+

lemma tagged_commute:
  assumes "tagged (k, v)" and "tagged (k', v')" and "k \<noteq> k'"
  shows "projr (assign_AccountOpened k v (projr (assign_AccountOpened k' v' t1))) =
      projr (assign_AccountOpened k' v' (projr (assign_AccountOpened k v t1)))"
    and "projr (assign_MoneyDeposited k v (projr (assign_MoneyDeposited k' v' t2))) =
      projr (assign_MoneyDeposited k' v' (projr (assign_MoneyDeposited k v t2)))"
    and "projr (assign_MoneyWithdrawn k v (projr (assign_MoneyWithdrawn k' v' t3))) =
      projr (assign_MoneyWithdrawn k' v' (projr (assign_MoneyWithdrawn k v t3)))"
    and "projr (assign_TransferDebited k v (projr (assign_TransferDebited k' v' t4))) =
      projr (assign_TransferDebited k' v' (projr (assign_TransferDebited k v t4)))"
    and "projr (assign_TransferCredited k v (projr (assign_TransferCredited k' v' t5))) =
      projr (assign_TransferCredited k' v' (projr (assign_TransferCredited k v t5)))"
    and "projr (assign_TransferReversed k v (projr (assign_TransferReversed k' v' t6))) =
      projr (assign_TransferReversed k' v' (projr (assign_TransferReversed k v t6)))"
    and "projr (assign_transfer k v (projr (assign_transfer k' v' t7))) =
      projr (assign_transfer k' v' (projr (assign_transfer k v t7)))"
  by (rule tagged_cases [OF assms(1)]; rule tagged_cases [OF assms(2)];
      use assms(3) in \<open>simp add: assign_payload_defs assign_transfer_def\<close>)+

lemma marshal_commutes:
  assumes "marshal p = Inr (RawJSON (JObj kvs))" and "(k, v) \<in> set kvs" and "(k', v') \<in> set kvs"
  shows "tagged (k, v) \<and> tagged (k', v') \<and> (k = k' \<longrightarrow> v = v')"
  using marshal_tagged [OF assms(1)] assms(2,3) by (auto simp: eq_key_imp_eq_value)

lemma marshal_accepted:
  assumes "marshal p = Inr (RawJSON (JObj kvs))"
  shows "accepted_by assign_AccountOpened kvs" and "accepted_by assign_MoneyDeposited kvs"
    and "accepted_by assign_MoneyWithdrawn kvs" and "accepted_by assign_TransferDebited kvs"
    and "accepted_by assign_TransferCredited kvs" and "accepted_by assign_TransferReversed kvs"
    and "accepted_by assign_transfer kvs"
  by (rule accepted_byI; metis marshal_commutes [OF assms] tagged_accepted tagged_commute)+

lemma same_payload_perm:
  assumes "marshal p = Inr (RawJSON (JObj kvs))" and "mset kvs' = mset kvs"
  shows "same_payload (RawJSON (JObj kvs)) (RawJSON (JObj kvs'))"
  unfolding same_payload_def unmarshal_payload_defs transfer_field_def assign_transfer_def [symmetric, abs_def]
  using marshal_accepted [OF assms(1), THEN unmarshal_perm, OF assms(2)]
    accepted_perm [OF marshal_accepted(7) [OF assms(1)] assms(2)] by simp

text \<open>An event whose payload is the encoding of a payload struct.\<close>

definition encoded :: "Event \<Rightarrow> bool" where
  "encoded e \<longleftrightarrow> (\<exists>p. marshal p = Inr (eData e))"

lemma marshal_object: "marshal p = Inr d \<Longrightarrow> \<exists>kvs. d = RawJSON (JObj kvs)"
  by (cases p) auto

end
