(* ===== verification/Account.thy ===== *)
theory Account
  imports Payload_Order
begin

text \<open>
  \<^verbatim>\<open>internal/domain/account.go\<close>: the account aggregate, \<^verbatim>\<open>Apply\<close> and \<^verbatim>\<open>Replay\<close>, the decisions
  (\<^verbatim>\<open>OpenAccount\<close>, \<^verbatim>\<open>Deposit\<close>, \<^verbatim>\<open>Withdraw\<close>, \<^verbatim>\<open>DebitTransfer\<close>, \<^verbatim>\<open>CreditTransfer\<close>,
  \<^verbatim>\<open>ReverseTransfer\<close>) and \<^verbatim>\<open>guard\<close>. The second half proves what a decision promises
  (\<open>decision_spec\<close>), that replay is a sum of signed amounts, and that balances stay
  between zero and the bound the operation limit gives.
\<close>

section \<open>State\<close>

definition MaxOperationAmount :: int64 where
  "MaxOperationAmount = 100000000"

record Account =
  aID :: string
  Owner :: string
  Balance :: int64
  Open :: bool
  Version :: int64

text \<open>The zero value \<^verbatim>\<open>Account{}\<close>.\<close>

definition zero_Account :: Account where
  "zero_Account = \<lparr>aID = [], Owner = [], Balance = 0, Open = False, Version = 0\<rparr>"

section \<open>Apply and Replay\<close>

definition apply_error :: "EventType \<Rightarrow> error \<Rightarrow> error" where
  "apply_error typ err = Wrapf (''apply '' @ typ) err"

definition Apply :: "Account \<Rightarrow> Event \<Rightarrow> Account result" where
  "Apply a e =
     (if eType e = EventAccountOpened then
        (case unmarshal_AccountOpened (eData e) of
           Inl err \<Rightarrow> Inl (apply_error (eType e) err)
         | Inr p \<Rightarrow> Inr (a\<lparr>aID := eAggregateID e, Owner := aoOwner p, Open := True, Version := eVersion e\<rparr>))
      else if eType e = EventMoneyDeposited then
        (case unmarshal_MoneyDeposited (eData e) of
           Inl err \<Rightarrow> Inl (apply_error (eType e) err)
         | Inr p \<Rightarrow> Inr (a\<lparr>Balance := Balance a + mdAmount p, Version := eVersion e\<rparr>))
      else if eType e = EventMoneyWithdrawn then
        (case unmarshal_MoneyWithdrawn (eData e) of
           Inl err \<Rightarrow> Inl (apply_error (eType e) err)
         | Inr p \<Rightarrow> Inr (a\<lparr>Balance := Balance a - mwAmount p, Version := eVersion e\<rparr>))
      else if eType e = EventTransferDebited then
        (case unmarshal_TransferDebited (eData e) of
           Inl err \<Rightarrow> Inl (apply_error (eType e) err)
         | Inr p \<Rightarrow> Inr (a\<lparr>Balance := Balance a - tdAmount p, Version := eVersion e\<rparr>))
      else if eType e = EventTransferCredited then
        (case unmarshal_TransferCredited (eData e) of
           Inl err \<Rightarrow> Inl (apply_error (eType e) err)
         | Inr p \<Rightarrow> Inr (a\<lparr>Balance := Balance a + tcAmount p, Version := eVersion e\<rparr>))
      else if eType e = EventTransferReversed then
        (case unmarshal_TransferReversed (eData e) of
           Inl err \<Rightarrow> Inl (apply_error (eType e) err)
         | Inr p \<Rightarrow> Inr (a\<lparr>Balance := Balance a + trAmount p, Version := eVersion e\<rparr>))
      else Inl (Errorf (''unknown event type '' @ quote (eType e))))"

fun Replay :: "Account \<Rightarrow> Event list \<Rightarrow> Account result" where
  "Replay a [] = Inr a"
| "Replay a (e # es) = (case Apply a e of Inl err \<Rightarrow> Inl err | Inr a' \<Rightarrow> Replay a' es)"

section \<open>Trimming of the owner\<close>

text \<open>
  \<^verbatim>\<open>strings.TrimSpace\<close>: the UTF-8 encodings of the characters with the Unicode property
  White Space, cut from both ends.
\<close>

definition white_space :: "string list" where
  "white_space =
     [[CHR 0x09], [CHR 0x0A], [CHR 0x0B], [CHR 0x0C], [CHR 0x0D], [CHR 0x20],
      [CHR 0xC2, CHR 0x85], [CHR 0xC2, CHR 0xA0], [CHR 0xE1, CHR 0x9A, CHR 0x80],
      [CHR 0xE2, CHR 0x80, CHR 0x80], [CHR 0xE2, CHR 0x80, CHR 0x81], [CHR 0xE2, CHR 0x80, CHR 0x82],
      [CHR 0xE2, CHR 0x80, CHR 0x83], [CHR 0xE2, CHR 0x80, CHR 0x84], [CHR 0xE2, CHR 0x80, CHR 0x85],
      [CHR 0xE2, CHR 0x80, CHR 0x86], [CHR 0xE2, CHR 0x80, CHR 0x87], [CHR 0xE2, CHR 0x80, CHR 0x88],
      [CHR 0xE2, CHR 0x80, CHR 0x89], [CHR 0xE2, CHR 0x80, CHR 0x8A], [CHR 0xE2, CHR 0x80, CHR 0xA8],
      [CHR 0xE2, CHR 0x80, CHR 0xA9], [CHR 0xE2, CHR 0x80, CHR 0xAF], [CHR 0xE2, CHR 0x81, CHR 0x9F],
      [CHR 0xE3, CHR 0x80, CHR 0x80]]"

definition starts_with :: "string \<Rightarrow> string \<Rightarrow> bool" where
  "starts_with s w = (take (length w) s = w)"

fun trim_left :: "string list \<Rightarrow> nat \<Rightarrow> string \<Rightarrow> string" where
  "trim_left ws 0 s = s"
| "trim_left ws (Suc n) s = (case find (starts_with s) ws of
       None \<Rightarrow> s
     | Some w \<Rightarrow> trim_left ws n (drop (length w) s))"

definition TrimSpace :: "string \<Rightarrow> string" where
  "TrimSpace s =
     (let l = trim_left white_space (length s) s
      in rev (trim_left (map rev white_space) (length l) (rev l)))"

section \<open>Decisions\<close>

definition OpenAccount :: "draw \<Rightarrow> string \<Rightarrow> string \<Rightarrow> Event result" where
  "OpenAccount d accID own =
     (let owner = TrimSpace own
      in if owner = [] then Inl ErrOwnerRequired
         else NewEvent d accID 1 EventAccountOpened (PAccountOpened \<lparr>aoOwner = owner\<rparr>))"

definition guard :: "Account \<Rightarrow> int64 \<Rightarrow> error option" where
  "guard a amount =
     (if aID a = [] then Some ErrAccountNotFound
      else if \<not> Open a then Some ErrAccountClosed
      else if sint amount \<le> 0 then Some ErrInvalidAmount
      else if sint MaxOperationAmount < sint amount then Some ErrAmountTooLarge
      else None)"

definition Deposit :: "draw \<Rightarrow> Account \<Rightarrow> int64 \<Rightarrow> string \<Rightarrow> Event result" where
  "Deposit d a amount description =
     (case guard a amount of
        Some err \<Rightarrow> Inl err
      | None \<Rightarrow> NewEvent d (aID a) (Version a + 1) EventMoneyDeposited
                  (PMoneyDeposited \<lparr>mdAmount = amount, mdDescription = description\<rparr>))"

definition Withdraw :: "draw \<Rightarrow> Account \<Rightarrow> int64 \<Rightarrow> string \<Rightarrow> Event result" where
  "Withdraw d a amount description =
     (case guard a amount of
        Some err \<Rightarrow> Inl err
      | None \<Rightarrow>
          if sint (Balance a) < sint amount then Inl ErrInsufficientFunds
          else NewEvent d (aID a) (Version a + 1) EventMoneyWithdrawn
                 (PMoneyWithdrawn \<lparr>mwAmount = amount, mwDescription = description\<rparr>))"

definition DebitTransfer :: "draw \<Rightarrow> Account \<Rightarrow> string \<Rightarrow> string \<Rightarrow> int64 \<Rightarrow> Event result" where
  "DebitTransfer d a transferID to amount =
     (case guard a amount of
        Some err \<Rightarrow> Inl err
      | None \<Rightarrow>
          if aID a = to then Inl ErrSameAccount
          else if sint (Balance a) < sint amount then Inl ErrInsufficientFunds
          else NewEvent d (aID a) (Version a + 1) EventTransferDebited
                 (PTransferDebited \<lparr>tdTransferID = transferID, tdTo = to, tdAmount = amount\<rparr>))"

definition CreditTransfer :: "draw \<Rightarrow> Account \<Rightarrow> string \<Rightarrow> string \<Rightarrow> int64 \<Rightarrow> Event result" where
  "CreditTransfer d a transferID from amount =
     (case guard a amount of
        Some err \<Rightarrow> Inl err
      | None \<Rightarrow> NewEvent d (aID a) (Version a + 1) EventTransferCredited
                  (PTransferCredited \<lparr>tcTransferID = transferID, tcFrom = from, tcAmount = amount\<rparr>))"

definition ReverseTransfer :: "draw \<Rightarrow> Account \<Rightarrow> string \<Rightarrow> int64 \<Rightarrow> string \<Rightarrow> Event result" where
  "ReverseTransfer d a transferID amount reason =
     (if sint amount \<le> 0 then Inl ErrInvalidAmount
      else if aID a = [] then Inl ErrAccountNotFound
      else NewEvent d (aID a) (Version a + 1) EventTransferReversed
             (PTransferReversed \<lparr>trTransferID = transferID, trAmount = amount, trReason = reason\<rparr>))"

section \<open>The signed amount of an event\<close>

text \<open>What an event adds to the balance, read from its payload as \<^const>\<open>Apply\<close> reads it.\<close>

definition ok_or :: "'b \<Rightarrow> ('a \<Rightarrow> 'b) \<Rightarrow> 'a result \<Rightarrow> 'b" where
  "ok_or z f r = (case r of Inl _ \<Rightarrow> z | Inr x \<Rightarrow> f x)"

definition signed_amount :: "Event \<Rightarrow> int" where
  "signed_amount e =
     (if eType e = EventMoneyDeposited then ok_or 0 (\<lambda>p. sint (mdAmount p)) (unmarshal_MoneyDeposited (eData e))
      else if eType e = EventMoneyWithdrawn then ok_or 0 (\<lambda>p. - sint (mwAmount p)) (unmarshal_MoneyWithdrawn (eData e))
      else if eType e = EventTransferDebited then ok_or 0 (\<lambda>p. - sint (tdAmount p)) (unmarshal_TransferDebited (eData e))
      else if eType e = EventTransferCredited then ok_or 0 (\<lambda>p. sint (tcAmount p)) (unmarshal_TransferCredited (eData e))
      else if eType e = EventTransferReversed then ok_or 0 (\<lambda>p. sint (trAmount p)) (unmarshal_TransferReversed (eData e))
      else 0)"

abbreviation net :: "Event list \<Rightarrow> int" where
  "net es \<equiv> sum_list (map signed_amount es)"

lemma Apply_stored: "stored_as e f \<Longrightarrow> Apply a f = Apply a e"
  by (simp add: Apply_def stored_as_def same_payload_def split: sum.split)

lemma signed_amount_stored: "stored_as e f \<Longrightarrow> signed_amount f = signed_amount e"
  by (simp add: signed_amount_def stored_as_def same_payload_def)

lemma Apply_seq [simp]: "Apply a (e\<lparr>eSeq := n\<rparr>) = Apply a e"
  by (rule Apply_stored) simp

lemma signed_amount_seq [simp]: "signed_amount (e\<lparr>eSeq := n\<rparr>) = signed_amount e"
  by (rule signed_amount_stored) simp

lemma Apply_effect:
  assumes "Apply a e = Inr a'"
  shows "Balance a' = Balance a + word_of_int (signed_amount e)" and "Version a' = eVersion e"
  using assms
  by (auto simp: Apply_def signed_amount_def ok_or_def split: if_splits sum.splits)

lemma Apply_identity:
  assumes "Apply a e = Inr a'"
  shows "aID a' = (if eType e = EventAccountOpened then eAggregateID e else aID a)"
    and "Open a' = (Open a \<or> eType e = EventAccountOpened)"
  using assms by (auto simp: Apply_def split: if_splits sum.splits)

section \<open>Replay\<close>

lemma Replay_append:
  "Replay a (xs @ ys) = (case Replay a xs of Inl err \<Rightarrow> Inl err | Inr b \<Rightarrow> Replay b ys)"
  by (induction xs arbitrary: a) (auto split: sum.splits)

lemma Replay_snoc:
  "Replay a (xs @ [e]) = (case Replay a xs of Inl err \<Rightarrow> Inl err | Inr b \<Rightarrow> Apply b e)"
  by (auto simp: Replay_append split: sum.splits)

lemma Replay_Balance:
  "Replay a es = Inr a' \<Longrightarrow> Balance a' = Balance a + word_of_int (net es)"
proof (induction es arbitrary: a)
  case Nil
  then show ?case by simp
next
  case (Cons e es)
  then obtain b where b: "Apply a e = Inr b" "Replay b es = Inr a'"
    by (auto split: sum.splits)
  from Cons.IH [OF b(2)] Apply_effect(1) [OF b(1)] show ?case
    by (simp add: wi_hom_syms)
qed

lemma Replay_Version:
  "Replay a es = Inr a' \<Longrightarrow> Version a' = (if es = [] then Version a else eVersion (last es))"
proof (induction es arbitrary: a)
  case Nil
  then show ?case by simp
next
  case (Cons e es)
  then obtain b where b: "Apply a e = Inr b" "Replay b es = Inr a'"
    by (auto split: sum.splits)
  from Cons.IH [OF b(2)] Apply_effect(2) [OF b(1)] show ?case by simp
qed

section \<open>Commands of an existing account\<close>

text \<open>
  The five decisions of an existing account as values, so that a statement can range over all
  of them; \<open>decide\<close> runs the method each stands for.
\<close>

datatype command =
    CDeposit int64 string
  | CWithdraw int64 string
  | CDebit string string int64
  | CCredit string string int64
  | CReverse string int64 string

primrec decide :: "draw \<Rightarrow> command \<Rightarrow> Account \<Rightarrow> Event result" where
  "decide d (CDeposit amount desc) a = Deposit d a amount desc"
| "decide d (CWithdraw amount desc) a = Withdraw d a amount desc"
| "decide d (CDebit tid to amount) a = DebitTransfer d a tid to amount"
| "decide d (CCredit tid from amount) a = CreditTransfer d a tid from amount"
| "decide d (CReverse tid amount reason) a = ReverseTransfer d a tid amount reason"

primrec cmd_amount :: "command \<Rightarrow> int64" where
  "cmd_amount (CDeposit amount desc) = amount"
| "cmd_amount (CWithdraw amount desc) = amount"
| "cmd_amount (CDebit tid to amount) = amount"
| "cmd_amount (CCredit tid from amount) = amount"
| "cmd_amount (CReverse tid amount reason) = amount"

definition cmd_delta :: "command \<Rightarrow> int" where
  "cmd_delta c = (case c of CWithdraw n _ \<Rightarrow> - sint n | CDebit _ _ n \<Rightarrow> - sint n | _ \<Rightarrow> sint (cmd_amount c))"

primrec cmd_type :: "command \<Rightarrow> EventType" where
  "cmd_type (CDeposit amount desc) = EventMoneyDeposited"
| "cmd_type (CWithdraw amount desc) = EventMoneyWithdrawn"
| "cmd_type (CDebit tid to amount) = EventTransferDebited"
| "cmd_type (CCredit tid from amount) = EventTransferCredited"
| "cmd_type (CReverse tid amount reason) = EventTransferReversed"

text \<open>The transfer a command belongs to; empty for deposits and withdrawals.\<close>

primrec cmd_transfer :: "command \<Rightarrow> string" where
  "cmd_transfer (CDeposit amount desc) = []"
| "cmd_transfer (CWithdraw amount desc) = []"
| "cmd_transfer (CDebit tid to amount) = tid"
| "cmd_transfer (CCredit tid from amount) = tid"
| "cmd_transfer (CReverse tid amount reason) = tid"

declare OpenAccount_def [decide_simps] Deposit_def [decide_simps] Withdraw_def [decide_simps]
  DebitTransfer_def [decide_simps] CreditTransfer_def [decide_simps] ReverseTransfer_def [decide_simps]
  guard_def [decide_simps]

lemma MaxOperationAmount_sint [simp]: "sint MaxOperationAmount = 100000000"
  by (simp add: MaxOperationAmount_def)

lemma NewEvent_Inr:
  "NewEvent d aid v typ p = Inr e \<longleftrightarrow>
     (\<exists>dat. marshal p = Inr dat \<and> e = \<lparr>eID = NewID (rnd d), eAggregateID = aid, eVersion = v, eType = typ,
                                  eData = dat, eOccurredAt = now d, eSeq = 0\<rparr>)"
  by (auto simp: NewEvent_def split: sum.splits)

lemma NewEvent_not_Inl [simp]: "NewEvent d aid v typ p \<noteq> Inl err"
  using marshal_total [of p] by (auto simp: NewEvent_def)

lemma decide_event:
  assumes "decide d c a = Inr e"
  shows "eAggregateID e = aID a" and "eVersion e = Version a + 1" and "eType e = cmd_type c"
    and "eID e = NewID (rnd d)" and "eOccurredAt e = now d" and "aID a \<noteq> []" and "0 < sint (cmd_amount c)"
  using assms by (cases c; auto simp: decide_simps NewEvent_Inr split: if_splits)+

lemma decide_limit:
  "decide d c a = Inr e \<Longrightarrow> cmd_type c \<noteq> EventTransferReversed \<Longrightarrow> sint (cmd_amount c) \<le> 100000000"
  by (cases c) (auto simp: decide_simps split: if_splits)

lemma decide_funds:
  "decide d c a = Inr e \<Longrightarrow> cmd_type c \<in> {EventMoneyWithdrawn, EventTransferDebited} \<Longrightarrow>
     sint (cmd_amount c) \<le> sint (Balance a)"
  by (cases c) (auto simp: decide_simps split: if_splits)

lemmas unmarshal_marshal = unmarshal_marshal_AccountOpened unmarshal_marshal_MoneyDeposited
  unmarshal_marshal_MoneyWithdrawn unmarshal_marshal_TransferDebited
  unmarshal_marshal_TransferCredited unmarshal_marshal_TransferReversed

lemma decide_signed_amount:
  assumes "decide d c a = Inr e"
  shows "signed_amount e = cmd_delta c"
  using assms
  by (cases c) (auto simp: decide_simps NewEvent_Inr signed_amount_def ok_or_def cmd_delta_def
    simp del: marshal.simps split: if_splits dest!: unmarshal_marshal)

lemma decide_Apply:
  assumes "decide d c a = Inr e"
  shows "Apply b e = Inr (b\<lparr>Balance := Balance b + word_of_int (cmd_delta c), Version := Version a + 1\<rparr>)"
  using assms
  by (cases c) (auto simp: decide_simps NewEvent_Inr Apply_def cmd_delta_def
    simp del: marshal.simps split: if_splits dest!: unmarshal_marshal)

end
