(* ===== verification/Account_History.thy ===== *)
theory Account_History
  imports Account
begin

text \<open>
  The histories an account can have: the event of \<^const>\<open>OpenAccount\<close> first, then events each
  decided on the account the earlier ones give, as a store holds them (\<^const>\<open>stored_as\<close>). The
  aggregate alone can produce every one of them (\<open>produced\<close>), also with reversals of any amount; the
  service issues no reversal above the operation limit, and \<open>history\<close> is the part of them with that
  restriction. The invariant of the aggregate is proved here once, by rule induction; the stores and
  the concurrent writers are shown to keep it.
\<close>

section \<open>Histories\<close>

text \<open>Everything the aggregate can produce.\<close>

inductive produced :: "Event list \<Rightarrow> Account \<Rightarrow> bool" where
  opened: "OpenAccount d accID own = Inr e \<Longrightarrow> Apply zero_Account e = Inr a \<Longrightarrow> stored_as e f \<Longrightarrow> produced [f] a"
| decided: "produced es a \<Longrightarrow> decide d c a = Inr e \<Longrightarrow> Apply a e = Inr b \<Longrightarrow> stored_as e f \<Longrightarrow> produced (es @ [f]) b"

text \<open>
  \<^const>\<open>ReverseTransfer\<close> has no upper bound on its amount. The callers of the service pass the amount of a
  debit, which is within the limit; \<open>reversal_limited\<close> states this of a command, \<open>reversal_within\<close> of a
  stored event. The code does not check it.
\<close>

definition reversal_limited :: "command \<Rightarrow> bool" where
  "reversal_limited c = (case c of CReverse _ n _ \<Rightarrow> sint n \<le> sint MaxOperationAmount | _ \<Rightarrow> True)"

definition reversal_within :: "Event \<Rightarrow> bool" where
  "reversal_within e \<longleftrightarrow> eType e = EventTransferReversed \<longrightarrow> signed_amount e \<le> sint MaxOperationAmount"

inductive history :: "Event list \<Rightarrow> Account \<Rightarrow> bool" where
  opened: "OpenAccount d accID own = Inr e \<Longrightarrow> accID \<noteq> [] \<Longrightarrow> Apply zero_Account e = Inr a \<Longrightarrow>
     stored_as e f \<Longrightarrow> history [f] a"
| decided: "history es a \<Longrightarrow> decide d c a = Inr e \<Longrightarrow> reversal_limited c \<Longrightarrow> Apply a e = Inr b \<Longrightarrow>
     stored_as e f \<Longrightarrow> history (es @ [f]) b"

lemma OpenAccount_event:
  assumes "OpenAccount d accID own = Inr e"
  shows "eAggregateID e = accID" and "eVersion e = 1" and "eType e = EventAccountOpened"
    and "signed_amount e = 0" and "eID e = NewID (rnd d)"
    and "Apply b e = Inr (b\<lparr>aID := accID, Owner := TrimSpace own, Open := True, Version := 1\<rparr>)"
  using assms
  by (auto simp: OpenAccount_def Let_def NewEvent_Inr signed_amount_def Apply_def
    simp del: marshal.simps split: if_splits dest!: unmarshal_marshal)

lemma OpenAccount_ApplyD:
  "OpenAccount d accID own = Inr e \<Longrightarrow> Apply b e = Inr a \<Longrightarrow>
     a = b\<lparr>aID := accID, Owner := TrimSpace own, Open := True, Version := 1\<rparr>"
  by (simp add: OpenAccount_event(6))

lemma decide_ApplyD:
  "decide d c a = Inr e \<Longrightarrow> Apply b e = Inr b' \<Longrightarrow>
     b' = b\<lparr>Balance := Balance b + word_of_int (cmd_delta c), Version := Version a + 1\<rparr>"
  by (simp add: decide_Apply)

lemma history_nonempty: "history es a \<Longrightarrow> es \<noteq> []"
  by (cases rule: history.cases) auto

lemma history_Replay: "history es a \<Longrightarrow> Replay zero_Account es = Inr a"
  by (induction rule: history.induct) (auto simp: Replay_snoc Apply_stored)

lemma history_open: "history es a \<Longrightarrow> Open a \<and> aID a \<noteq> []"
  by (induction rule: history.induct)
    (auto dest: OpenAccount_ApplyD decide_ApplyD)

lemma history_Version: "history es a \<Longrightarrow> Version a = of_nat (length es)"
proof (induction rule: history.induct)
  case (opened d accID own e a f)
  then show ?case by (auto dest: OpenAccount_ApplyD)
next
  case (decided es a d c e b f)
  then show ?case by (auto dest: decide_ApplyD)
qed

lemma history_events:
  "history es a \<Longrightarrow> i < length es \<Longrightarrow> eAggregateID (es ! i) = aID a \<and> eVersion (es ! i) = of_nat (Suc i)"
proof (induction arbitrary: i rule: history.induct)
  case (opened d accID own e a f)
  then show ?case by (auto dest: OpenAccount_event simp: Apply_identity stored_as_def)
next
  case (decided es a d c e b f)
  have "aID b = aID a"
    using decided.hyps by (auto dest: decide_ApplyD)
  moreover have "eAggregateID e = aID a" "eVersion e = of_nat (Suc (length es))"
    using decide_event [OF decided.hyps(2)] history_Version [OF decided.hyps(1)] by (auto simp: add.commute)
  ultimately show ?case
    using decided by (auto simp: nth_append less_Suc_eq stored_as_def)
qed

section \<open>Balances\<close>

text \<open>
  The number of events up to which a balance cannot leave the range of \<^verbatim>\<open>int64\<close>, whatever the
  amounts: the largest \<open>n\<close> with \<open>n * MaxOperationAmount \<le> 2\<^sup>6\<^sup>3 - 1\<close>.
\<close>

definition history_limit :: nat where
  "history_limit = 92233720368"

lemma decide_delta_bounds:
  assumes "decide d c a = Inr e" and "reversal_limited c"
  shows "cmd_delta c \<le> 100000000" and "- 100000000 \<le> cmd_delta c"
    and "0 \<le> sint (Balance a) \<Longrightarrow> 0 \<le> sint (Balance a) + cmd_delta c"
proof -
  have pos: "0 < sint (cmd_amount c)" by (rule decide_event(7) [OF assms(1)])
  have lim: "sint (cmd_amount c) \<le> 100000000"
    using decide_limit [OF assms(1)] assms(2) by (cases c) (auto simp: reversal_limited_def)
  have delta: "cmd_delta c = sint (cmd_amount c) \<or>
      cmd_delta c = - sint (cmd_amount c) \<and> sint (cmd_amount c) \<le> sint (Balance a)"
    using decide_funds [OF assms(1)] by (cases c) (auto simp: cmd_delta_def)
  show "cmd_delta c \<le> 100000000" "- 100000000 \<le> cmd_delta c"
    "0 \<le> sint (Balance a) \<Longrightarrow> 0 \<le> sint (Balance a) + cmd_delta c"
    using delta pos lim by linarith+
qed

lemma reversal_within_limited:
  "decide d c a = Inr e \<Longrightarrow> stored_as e f \<Longrightarrow> reversal_within f \<longleftrightarrow> reversal_limited c"
  using decide_event(3) [of d c a e] decide_signed_amount [of d c a e] signed_amount_stored [of e f]
  by (cases c) (auto simp: reversal_within_def reversal_limited_def cmd_delta_def stored_as_def)

lemma opening_within: "OpenAccount d accID own = Inr e \<Longrightarrow> stored_as e f \<Longrightarrow> reversal_within f"
  by (auto simp: reversal_within_def stored_as_def dest: OpenAccount_event(3))

text \<open>A history is what the aggregate produces for an account with an id when every reversal is within the limit.\<close>

lemma history_produced: "history es a \<Longrightarrow> produced es a \<and> list_all reversal_within es"
proof (induction rule: history.induct)
  case (opened d accID own e a f)
  then show ?case using produced.opened opening_within by force
next
  case (decided es a d c e b f)
  then show ?case using produced.decided [of es a d c e b f] reversal_within_limited [of d c a e f] by auto
qed

lemma produced_facts:
  "produced es a \<Longrightarrow> Replay zero_Account es = Inr a \<and> Open a \<and> Version a = of_nat (length es) \<and>
     Balance a = word_of_int (net es)"
proof (induction rule: produced.induct)
  case (opened d accID own e a f)
  then show ?case
    using OpenAccount_event(4) [OF opened.hyps(1)] OpenAccount_ApplyD [OF opened.hyps(1,2)]
      signed_amount_stored [OF opened.hyps(3)] Apply_stored [OF opened.hyps(3)]
    by (simp add: zero_Account_def)
next
  case (decided es a d c e b f)
  then show ?case
    using decide_ApplyD [OF decided.hyps(2,3)] Apply_stored [OF decided.hyps(4)]
      decide_signed_amount [OF decided.hyps(2)] signed_amount_stored [OF decided.hyps(4)]
    by (simp add: Replay_snoc)
qed

lemma produced_balance:
  "produced es a \<Longrightarrow> list_all reversal_within es \<Longrightarrow> length es \<le> history_limit \<Longrightarrow>
     sint (Balance a) = net es \<and> 0 \<le> net es \<and> net es \<le> 100000000 * int (length es)"
proof (induction rule: produced.induct)
  case (opened d accID own e a f)
  then show ?case
    using OpenAccount_event(4) [OF opened.hyps(1)] OpenAccount_ApplyD [OF opened.hyps(1,2)]
      signed_amount_stored [OF opened.hyps(3)]
    by (simp add: zero_Account_def)
next
  case (decided es a d c e b f)
  have len: "int (length es) + 1 \<le> 92233720368"
    using decided.prems(2) by (simp add: history_limit_def)
  have IH: "sint (Balance a) = net es" "0 \<le> net es" "net es \<le> 100000000 * int (length es)"
    using decided.IH decided.prems by simp_all
  have "reversal_limited c"
    using reversal_within_limited [OF decided.hyps(2,4)] decided.prems(1) by simp
  note lim = decide_delta_bounds [OF decided.hyps(2) this]
  have tot: "net (es @ [f]) = net es + cmd_delta c"
    by (simp add: decide_signed_amount [OF decided.hyps(2)] signed_amount_stored [OF decided.hyps(4)])
  have "Balance b = Balance a + word_of_int (cmd_delta c)"
    using decide_ApplyD [OF decided.hyps(2,3)] by simp
  moreover have "sint (word_of_int (cmd_delta c) :: int64) = cmd_delta c"
    using lim by (intro sint64_word_of_int) auto
  moreover have "sint (Balance a) + cmd_delta c \<le> 9223372036854775807"
    using lim(1) IH len by simp
  ultimately have "sint (Balance b) = net es + cmd_delta c"
    using lim(3) IH by (simp add: sint64_add)
  then show ?case using tot lim IH by simp
qed

lemma history_balance:
  "history es a \<Longrightarrow> length es \<le> history_limit \<Longrightarrow>
     sint (Balance a) = net es \<and> 0 \<le> net es \<and> net es \<le> 100000000 * int (length es)"
  using history_produced produced_balance by blast

section \<open>Debits in a history\<close>

lemma decide_debit:
  assumes "decide d c a = Inr e" and "eType e = EventTransferDebited"
  shows "\<exists>tid to n. c = CDebit tid to n \<and>
    unmarshal_TransferDebited (eData e) = Inr \<lparr>tdTransferID = tid, tdTo = to, tdAmount = n\<rparr> \<and> to \<noteq> aID a"
proof -
  from decide_event(3) [OF assms(1)] assms(2) obtain tid to n where c: "c = CDebit tid to n"
    by (cases c) auto
  with assms(1) show ?thesis
    by (auto simp: decide_simps NewEvent_Inr simp del: marshal.simps split: if_splits
        dest!: unmarshal_marshal)
qed

text \<open>Every event after the first was decided on an earlier state of the same account.\<close>

lemma history_member:
  "history es a \<Longrightarrow> f \<in> set es \<Longrightarrow> eType f \<noteq> EventAccountOpened \<Longrightarrow>
     \<exists>d c acc e. decide d c acc = Inr e \<and> reversal_limited c \<and> aID acc = aID a \<and> stored_as e f"
proof (induction rule: history.induct)
  case (opened d accID own e a f')
  then show ?case by (auto dest: OpenAccount_event simp: stored_as_def)
next
  case (decided es a d c e b f')
  have "aID b = aID a" using decided.hyps by (auto dest: decide_ApplyD)
  show ?case
  proof (cases "f \<in> set es")
    case True
    with decided \<open>aID b = aID a\<close> show ?thesis by simp
  next
    case False
    then have "f = f'" using decided.prems by simp
    then show ?thesis using decided.hyps(2,3,5) \<open>aID b = aID a\<close> by metis
  qed
qed

lemma history_debit:
  assumes "history es a" and "f \<in> set es" and "eType f = EventTransferDebited"
  shows "\<exists>p. unmarshal_TransferDebited (eData f) = Inr p \<and> tdTo p \<noteq> aID a \<and>
       0 < sint (tdAmount p) \<and> sint (tdAmount p) \<le> 100000000 \<and> signed_amount f = - sint (tdAmount p)"
proof -
  obtain d c acc e where e: "decide d c acc = Inr e" "aID acc = aID a" "stored_as e f"
    using history_member [OF assms(1,2)] assms(3) by auto
  then obtain tid to m where c: "c = CDebit tid to m"
      "unmarshal_TransferDebited (eData e) = Inr \<lparr>tdTransferID = tid, tdTo = to, tdAmount = m\<rparr>" "to \<noteq> aID acc"
    using decide_debit [OF e(1)] assms(3) by (auto simp: stored_as_def)
  then show ?thesis
    using e decide_event(7) [OF e(1)] decide_limit [OF e(1)] decide_signed_amount [OF e(1)]
      signed_amount_stored [OF e(3)]
    by (auto simp: cmd_delta_def stored_as_def same_payload_def)
qed

section \<open>Properties\<close>

text \<open>
  C5. For every sequence of events the aggregate can produce, replay succeeds, the account is open,
  its version is the number of events and its \<open>int64\<close> balance is the sum of the signed amounts modulo
  \<open>2\<^sup>6\<^sup>4\<close>. When moreover every reversal in it is within the operation limit (the aggregate does not
  check this; the saga reverses only amounts that were debited), then up to 92,233,720,368 events
  the balance is the exact sum, it is never negative, and it is at most the number of events times
  the limit.
\<close>

theorem replayed_balance_exact:
  assumes "produced es a"
  shows "Replay zero_Account es = Inr a \<and> Open a \<and> Version a = of_nat (length es) \<and> Balance a = word_of_int (net es) \<and>
    (list_all reversal_within es \<and> length es \<le> history_limit \<longrightarrow>
      sint (Balance a) = net es \<and> 0 \<le> sint (Balance a) \<and> sint (Balance a) \<le> sint MaxOperationAmount * int (length es))"
  using produced_facts [OF assms] produced_balance [OF assms] by simp

definition opening_draw :: draw where
  "opening_draw = \<lparr>rnd = replicate 16 1, now = 0\<rparr>"

lemma opening_sample_history:
  "\<exists>e a. OpenAccount opening_draw ''acc'' ''ana'' = Inr e \<and> history [e] a \<and> aID a = ''acc''"
proof -
  obtain e where e: "OpenAccount opening_draw ''acc'' ''ana'' = Inr e"
    by (auto simp: OpenAccount_def NewEvent_def TrimSpace_def white_space_def starts_with_def Let_def
        eval_nat_numeral split: option.split)
  have "history [e] (zero_Account\<lparr>aID := ''acc'', Owner := TrimSpace ''ana'', Open := True, Version := 1\<rparr>)"
    by (rule history.opened [OF e _ OpenAccount_event(6) [OF e]]) simp_all
  then show ?thesis using e by auto
qed

text \<open>An account with a deposit of 100 and a withdrawal of 30; and one with two reversals of the largest \<open>int64\<close>.\<close>

definition opened_account :: Account where
  "opened_account = zero_Account\<lparr>aID := ''acc'', Owner := ''ana'', Open := True, Version := 1\<rparr>"

lemma decided_event: "decide d c a = Inr e \<Longrightarrow> produced es a \<Longrightarrow>
    produced (es @ [e]) (a\<lparr>Balance := Balance a + word_of_int (cmd_delta c), Version := Version a + 1\<rparr>)"
  using produced.decided [OF _ _ decide_Apply] by (simp add: stored_as_def same_payload_def)

lemma opened_account_produced: "\<exists>e. produced [e] opened_account \<and> signed_amount e = 0 \<and> reversal_within e"
proof -
  obtain e where e: "OpenAccount opening_draw ''acc'' ''ana'' = Inr e" using opening_sample_history by blast
  have "TrimSpace ''ana'' = ''ana''" by code_simp
  then have "Apply zero_Account e = Inr opened_account"
    using OpenAccount_event(6) [OF e, of zero_Account] by (simp add: opened_account_def)
  from produced.opened [OF e this, of e] opening_within [OF e, of e] OpenAccount_event(4) [OF e] show ?thesis by auto
qed

lemma sample_decisions:
  "\<exists>e. decide opening_draw (CDeposit 100 ''salary'') opened_account = Inr e"
  "\<exists>e. decide opening_draw (CWithdraw 30 ''rent'') (opened_account\<lparr>Balance := 100, Version := 2\<rparr>) = Inr e"
  "\<exists>e. decide opening_draw (CReverse ''t'' 9223372036854775807 ''r'') (opened_account\<lparr>Balance := b, Version := v\<rparr>) = Inr e"
  by (auto simp: opened_account_def zero_Account_def decide_simps MaxOperationAmount_def NewEvent_def split: sum.split)

theorem replayed_balance_exact_witness:
  "\<exists>es a. produced es a \<and> length es = 3 \<and> Replay zero_Account es = Inr a \<and> sint (Balance a) = 70 \<and> net es = 70"
proof -
  let ?a2 = "opened_account\<lparr>Balance := 100, Version := 2\<rparr>" and ?a3 = "opened_account\<lparr>Balance := 70, Version := 3\<rparr>"
  obtain e1 where e1: "produced [e1] opened_account" "signed_amount e1 = 0" "reversal_within e1"
    using opened_account_produced by blast
  obtain e2 e3 where e2: "decide opening_draw (CDeposit 100 ''salary'') opened_account = Inr e2"
      and e3: "decide opening_draw (CWithdraw 30 ''rent'') ?a2 = Inr e3"
    using sample_decisions(1,2) by blast
  have "produced [e1, e2] ?a2"
    using decided_event [OF e2 e1(1)] by (simp add: opened_account_def zero_Account_def cmd_delta_def)
  from decided_event [OF e3 this] have p: "produced [e1, e2, e3] ?a3"
    by (simp add: opened_account_def zero_Account_def cmd_delta_def)
  have w: "list_all reversal_within [e1, e2, e3]"
    using e1(3) reversal_within_limited [OF e2, of e2] reversal_within_limited [OF e3, of e3] by (simp add: reversal_limited_def)
  have "net [e1, e2, e3] = 70"
    using e1(2) decide_signed_amount [OF e2] decide_signed_amount [OF e3] by (simp add: cmd_delta_def)
  with p w replayed_balance_exact [OF p] show ?thesis
    by (intro exI [of _ "[e1, e2, e3]"] exI [of _ ?a3]) (simp add: history_limit_def)
qed

text \<open>Without the bound on reversals the aggregate can produce a negative balance.\<close>

lemma unlimited_reversals_overflow: "\<exists>es a. produced es a \<and> length es = 3 \<and> sint (Balance a) = - 2"
proof -
  let ?c = "CReverse ''t'' 9223372036854775807 ''r''"
  let ?a2 = "opened_account\<lparr>Balance := 9223372036854775807, Version := 2\<rparr>"
    and ?a3 = "opened_account\<lparr>Balance := 18446744073709551614, Version := 3\<rparr>"
  obtain e1 where e1: "produced [e1] opened_account" using opened_account_produced by blast
  have "opened_account = opened_account\<lparr>Balance := 0, Version := 1\<rparr>" by (simp add: opened_account_def zero_Account_def)
  then obtain e2 e3 where e2: "decide opening_draw ?c opened_account = Inr e2" and e3: "decide opening_draw ?c ?a2 = Inr e3"
    using sample_decisions(3) by metis
  have "produced [e1, e2] ?a2"
    using decided_event [OF e2 e1] by (simp add: opened_account_def zero_Account_def cmd_delta_def)
  from decided_event [OF e3 this] have "produced [e1, e2, e3] ?a3"
    by (simp add: opened_account_def zero_Account_def cmd_delta_def)
  then show ?thesis by (intro exI [of _ "[e1, e2, e3]"] exI [of _ ?a3]) simp
qed

text \<open>
  A command decides on the current state and applying its event has exactly the announced
  effect: the event carries the next version and the type of the command, a debit never
  exceeds the balance, and applying the event adds the signed amount to the balance and
  nothing else.
\<close>

lemma decision_effect:
  assumes "decide d c a = Inr e"
  shows "eAggregateID e = aID a \<and> eVersion e = Version a + 1 \<and> eType e = cmd_type c \<and>
    Apply a e = Inr (a\<lparr>Balance := Balance a + word_of_int (cmd_delta c), Version := Version a + 1\<rparr>) \<and>
    0 < sint (cmd_amount c) \<and> (cmd_delta c < 0 \<longrightarrow> - cmd_delta c \<le> sint (Balance a))"
proof -
  have "- cmd_delta c \<le> sint (Balance a)" if "cmd_delta c < 0"
    using that decide_funds [OF assms] decide_event(7) [OF assms] by (cases c) (auto simp: cmd_delta_def)
  then show ?thesis using decide_event [OF assms] decide_Apply [OF assms] by blast
qed

end
