(* ===== verification/Store.thy ===== *)
theory Store
  imports Account_History
begin

text \<open>
  \<^verbatim>\<open>internal/eventstore/store.go\<close>: the port between the application and persistence. The Go
  interface \<^verbatim>\<open>Store\<close> is a record of functions over a state; a method may change the state even
  when it reads (the Postgres model counts the statements it sends). The locale
  \<open>event_store\<close> states what a client relies on; \<^verbatim>\<open>Memory_Store\<close> and \<^verbatim>\<open>Postgres_Store\<close>
  interpret it on the two implementations.
\<close>

definition SnapshotEvery :: int64 where
  "SnapshotEvery = 50"

record 's Store =
  Append :: "'s \<Rightarrow> string \<Rightarrow> int64 \<Rightarrow> Event list \<Rightarrow> error option \<times> 's"
  Load :: "'s \<Rightarrow> string \<Rightarrow> Account result \<times> 's"
  LoadUnprocessed :: "'s \<Rightarrow> Event list result \<times> 's"
  PendingTransferDebits :: "'s \<Rightarrow> Event list result \<times> 's"
  HasTransferEvent :: "'s \<Rightarrow> EventType \<Rightarrow> string \<Rightarrow> bool result \<times> 's"
  EventsByAggregate :: "'s \<Rightarrow> string \<Rightarrow> Event list result \<times> 's"

section \<open>Batches\<close>

text \<open>A batch that continues a stream at a version, and the batch as the store writes it.\<close>

definition continues :: "string \<Rightarrow> int64 \<Rightarrow> Event list \<Rightarrow> bool" where
  "continues aggID v es \<longleftrightarrow>
     (\<forall>i < length es. eAggregateID (es ! i) = aggID \<and> eVersion (es ! i) = v + of_nat i + 1)"

definition stamped :: "Event list \<Rightarrow> Event list \<Rightarrow> bool" where
  "stamped es fs \<longleftrightarrow> list_all2 stored_as es fs"

text \<open>The \<open>n\<close> consecutive numbers after \<open>v\<close>.\<close>

fun numbered :: "int64 \<Rightarrow> nat \<Rightarrow> int64 list" where
  "numbered v 0 = []"
| "numbered v (Suc n) = (v + 1) # numbered (v + 1) n"

lemma length_numbered [simp]: "length (numbered v n) = n"
  by (induction n arbitrary: v) auto

lemma numbered_add: "numbered v (m + n) = numbered v m @ numbered (v + of_nat m) n"
  by (induction m arbitrary: v) (auto simp: add.assoc)

lemma nth_numbered: "i < n \<Longrightarrow> numbered v n ! i = v + of_nat (Suc i)"
proof (induction n arbitrary: v i)
  case (Suc n)
  then show ?case by (cases i) (auto simp: add.assoc)
qed simp

lemma continues_Nil [simp]: "continues aggID v []"
  by (simp add: continues_def)

lemma continues_Cons:
  "continues aggID v (e # es) \<longleftrightarrow> eAggregateID e = aggID \<and> eVersion e = v + 1 \<and> continues aggID (v + 1) es"
proof -
  have "(\<forall>i < length (e # es). P i) \<longleftrightarrow> P 0 \<and> (\<forall>i < length es. P (Suc i))" for P
    by (auto simp: less_Suc_eq_0_disj)
  then show ?thesis
    unfolding continues_def by (simp add: algebra_simps)
qed

lemma stamped_Nil [simp]: "stamped [] fs \<longleftrightarrow> fs = []"
  by (simp add: stamped_def)

lemma stamped_Cons: "stamped (e # es) fs \<longleftrightarrow> (\<exists>f gs. fs = f # gs \<and> stored_as e f \<and> stamped es gs)"
  by (auto simp: stamped_def list_all2_Cons1)

lemma stamped_length: "stamped es fs \<Longrightarrow> length fs = length es"
  by (auto simp: stamped_def dest: list_all2_lengthD)

lemma stored_as_reset: "stored_as (e\<lparr>eSeq := n\<rparr>) e"
  by (simp add: stored_as_def)

lemma stamped_reset: "stamped (map (\<lambda>e. e\<lparr>eSeq := 0\<rparr>) es) es"
  by (induction es) (auto simp: stamped_Cons stored_as_reset)

lemma of_nat_int64_eq:
  assumes "(of_nat m :: int64) = of_nat n" and "m < 9223372036854775807" and "n < 9223372036854775807"
  shows "m = n"
proof -
  have "unat (of_nat m :: int64) = unat (of_nat n :: int64)" using assms(1) by simp
  moreover have "m mod 2 ^ 64 = m" "n mod 2 ^ 64 = n" using assms(2,3) by simp_all
  ultimately show ?thesis by (simp add: unat_of_nat)
qed

section \<open>Unsettled transfers\<close>

definition settles :: "Event \<Rightarrow> bool" where
  "settles e = (eType e = EventTransferCredited \<or> eType e = EventTransferReversed)"

text \<open>The debits no credit or reversal answers, for a reading \<open>tof\<close> of an event's transfer.\<close>

definition pending_set :: "(Event \<Rightarrow> string) \<Rightarrow> (string \<Rightarrow> Event list) \<Rightarrow> Event set" where
  "pending_set tof str =
     {e. (\<exists>g. e \<in> set (str g)) \<and> eType e = EventTransferDebited \<and>
         \<not> (\<exists>g. \<exists>f \<in> set (str g). settles f \<and> tof f = tof e)}"

section \<open>The contract\<close>

text \<open>
  \<open>stream s aggID\<close> is the stream of an aggregate; \<open>inv\<close> the invariant of the implementation;
  \<open>valid\<close> the aggregate ids the implementation keeps as they are (a database with a UUID column
  may accept other spellings of an id, and then loads the account of the normal one).
  A client appends at a version it has read, so the laws speak of a version that is at
  most the current one. An append may fail for reasons of the implementation's own (the
  database is away), and a failed one may still have been written (a commit whose answer
  was lost); it never writes part of a batch, and it never writes on an outdated version.
\<close>

locale event_store =
  fixes st :: "'s Store"
    and stream :: "'s \<Rightarrow> string \<Rightarrow> Event list"
    and inv :: "'s \<Rightarrow> bool"
    and valid :: "string \<Rightarrow> bool"
  assumes stream_valid: "inv s \<Longrightarrow> stream s g \<noteq> [] \<Longrightarrow> valid g"
    and valid_NewID: "length rb = 16 \<Longrightarrow> valid (NewID rb)"
    and load_frame: "Load st s aggID = (acc, s') \<Longrightarrow> stream s' = stream s"
    and load_inv: "inv s \<Longrightarrow> Load st s aggID = (acc, s') \<Longrightarrow> inv s'"
    and append_only: "Append st s aggID v es = (r, s') \<Longrightarrow> \<exists>fs. stream s' g = stream s g @ fs"
    and load_value: "inv s \<Longrightarrow> Load st s aggID = (Inr a, s') \<Longrightarrow>
      \<exists>g. stream s g \<noteq> [] \<and> Replay zero_Account (stream s g) = Inr a"
    and append_mismatch: "inv s \<Longrightarrow> eAggregateID e \<noteq> aggID \<Longrightarrow> Append st s aggID v [e] = (r, s') \<Longrightarrow>
      r \<noteq> None \<and> inv s' \<and> stream s' = stream s"
    and append_atomic: "inv s \<Longrightarrow> valid aggID \<Longrightarrow> n \<le> length (stream s aggID) \<Longrightarrow> es \<noteq> [] \<Longrightarrow>
      length (stream s aggID) + length es \<le> history_limit \<Longrightarrow> continues aggID (of_nat n) es \<Longrightarrow>
      list_all encoded es \<Longrightarrow> Append st s aggID (of_nat n) es = (r, s') \<Longrightarrow>
      inv s' \<and> (r \<noteq> None \<and> stream s' = stream s \<or>
        n = length (stream s aggID) \<and>
        (\<exists>fs. stamped es fs \<and> stream s' = (stream s)(aggID := stream s aggID @ fs)))"
    and has_transfer_frame: "HasTransferEvent st s typ tid = (found, s') \<Longrightarrow> stream s' = stream s"
    and has_transfer_inv: "inv s \<Longrightarrow> HasTransferEvent st s typ tid = (found, s') \<Longrightarrow> inv s'"

text \<open>A store that does not fail on its own: what the happy path of a client relies on.\<close>

locale reliable_store = event_store +
  fixes transfer_of :: "Event \<Rightarrow> string"
  assumes load_total: "inv s \<Longrightarrow> fst (Load st s aggID) =
      (if stream s aggID = [] then Inl ErrAccountNotFound else Replay zero_Account (stream s aggID))"
    and append_ok: "inv s \<Longrightarrow> es \<noteq> [] \<Longrightarrow> length (stream s aggID) + length es \<le> history_limit \<Longrightarrow>
      continues aggID (of_nat (length (stream s aggID))) es \<Longrightarrow>
      (\<forall>e \<in> set es. \<forall>g. eID e \<notin> eID ` set (stream s g)) \<Longrightarrow> distinct (map eID es) \<Longrightarrow>
      fst (Append st s aggID (of_nat (length (stream s aggID))) es) = None"
    and append_refused: "inv s \<Longrightarrow> n \<le> length (stream s aggID) \<Longrightarrow> es \<noteq> [] \<Longrightarrow>
      length (stream s aggID) + length es \<le> history_limit \<Longrightarrow> continues aggID (of_nat n) es \<Longrightarrow>
      Append st s aggID (of_nat n) es = (Some err, s') \<Longrightarrow> stream s' = stream s"
    and append_ids: "inv s \<Longrightarrow> Append st s aggID v es = (None, s') \<Longrightarrow> stream s' aggID = stream s aggID @ fs \<Longrightarrow>
      map eID fs = map eID es"
    and append_conflict: "inv s \<Longrightarrow> n < length (stream s aggID) \<Longrightarrow> es \<noteq> [] \<Longrightarrow>
      length (stream s aggID) + length es \<le> history_limit \<Longrightarrow> continues aggID (of_nat n) es \<Longrightarrow>
      fst (Append st s aggID (of_nat n) es) = Some ErrConcurrency"
    and transfer_of_decided: "decide d c a = Inr e \<Longrightarrow> stored_as e f \<Longrightarrow> transfer_of f = cmd_transfer c"
    and has_transfer: "inv s \<Longrightarrow> tid \<noteq> [] \<Longrightarrow> fst (HasTransferEvent st s typ tid) =
      Inr (\<exists>g. \<exists>e \<in> set (stream s g). eType e = typ \<and> transfer_of e = tid)"
    and pending_debits: "inv s \<Longrightarrow> \<exists>es s'. PendingTransferDebits st s = (Inr es, s') \<and> inv s' \<and>
      stream s' = stream s \<and> set es = pending_set transfer_of (stream s)"

end
