(* ===== verification/Memory_Store.thy ===== *)
theory Memory_Store
  imports Store
begin

text \<open>
  \<^verbatim>\<open>internal/eventstore/memory.go\<close>: the in-memory store. Every method holds the mutex for its
  whole body (\<^verbatim>\<open>Load\<close> while it copies the stream), so a method is one atomic function on the
  state. A missing map key reads as the nil slice.
\<close>

section \<open>State and operations\<close>

record Memory =
  streams :: "string \<rightharpoonup> Event list"
  mlog :: "Event list"
  mseq :: int64
  marks :: "string \<rightharpoonup> bool"

definition NewMemory :: Memory where
  "NewMemory = \<lparr>streams = Map.empty, mlog = [], mseq = 0, marks = Map.empty\<rparr>"

definition mem_stream :: "Memory \<Rightarrow> string \<Rightarrow> Event list" where
  "mem_stream s aggID = (case streams s aggID of None \<Rightarrow> [] | Some es \<Rightarrow> es)"

text \<open>
  The loop of \<^verbatim>\<open>Append\<close>: \<open>i\<close> is the loop index, \<open>str\<close> the local slice. A failed check returns
  at once, with what the earlier iterations wrote to \<^verbatim>\<open>seq\<close> and \<^verbatim>\<open>log\<close> left in place.
\<close>

fun mem_append_loop ::
    "string \<Rightarrow> int64 \<Rightarrow> nat \<Rightarrow> Event list \<Rightarrow> Event list \<Rightarrow> Memory \<Rightarrow> error option \<times> Event list \<times> Memory" where
  "mem_append_loop aggID expected i [] str s = (None, str, s)"
| "mem_append_loop aggID expected i (e # es) str s =
     (if eAggregateID e \<noteq> aggID then (Some ErrAggregateMismatch, str, s)
      else if eVersion e \<noteq> expected + of_nat i + 1 then (Some ErrConcurrency, str, s)
      else
        (let q = mseq s + 1;
             e' = e\<lparr>eSeq := q\<rparr>
         in mem_append_loop aggID expected (Suc i) es (str @ [e']) (s\<lparr>mseq := q, mlog := mlog s @ [e']\<rparr>)))"

definition mem_Append :: "Memory \<Rightarrow> string \<Rightarrow> int64 \<Rightarrow> Event list \<Rightarrow> error option \<times> Memory" where
  "mem_Append s aggID expected es =
     (let str = mem_stream s aggID;
          current = of_nat (length str)
      in if current \<noteq> expected then (Some ErrConcurrency, s)
         else (case mem_append_loop aggID expected 0 es str s of
                 (Some err, _, s') \<Rightarrow> (Some err, s')
               | (None, str', s') \<Rightarrow> (None, s'\<lparr>streams := (streams s')(aggID \<mapsto> str')\<rparr>)))"

definition mem_Load :: "Memory \<Rightarrow> string \<Rightarrow> Account result \<times> Memory" where
  "mem_Load s aggID =
     (let str = mem_stream s aggID
      in if str = [] then (Inl ErrAccountNotFound, s) else (Replay zero_Account str, s))"

definition marked :: "Memory \<Rightarrow> string \<Rightarrow> bool" where
  "marked s i = (marks s i = Some True)"

definition mem_LoadUnprocessed :: "Memory \<Rightarrow> Event list result \<times> Memory" where
  "mem_LoadUnprocessed s = (Inr (filter (\<lambda>e. \<not> marked s (eID e)) (mlog s)), s)"

definition mem_MarkProcessed :: "Memory \<Rightarrow> string \<Rightarrow> Memory" where
  "mem_MarkProcessed s i = s\<lparr>marks := (marks s)(i \<mapsto> True)\<rparr>"

text \<open>
  \<^verbatim>\<open>transferIDOf\<close> decodes into a struct with the one field \<^verbatim>\<open>transfer_id\<close> and ignores the error,
  so it sees whatever the decoder stored.
\<close>

definition transferIDOf :: "Event \<Rightarrow> string" where
  "transferIDOf e = transfer_field (eData e)"

definition mem_PendingTransferDebits :: "Memory \<Rightarrow> Event list result \<times> Memory" where
  "mem_PendingTransferDebits s =
     (let settled = map transferIDOf (filter settles (mlog s))
      in (Inr (filter (\<lambda>e. eType e = EventTransferDebited \<and> transferIDOf e \<notin> set settled) (mlog s)), s))"

definition mem_HasTransferEvent :: "Memory \<Rightarrow> EventType \<Rightarrow> string \<Rightarrow> bool result \<times> Memory" where
  "mem_HasTransferEvent s typ transferID =
     (Inr (list_ex (\<lambda>e. eType e = typ \<and> transferIDOf e = transferID) (mlog s)), s)"

definition mem_EventsByAggregate :: "Memory \<Rightarrow> string \<Rightarrow> Event list result \<times> Memory" where
  "mem_EventsByAggregate s aggID = (Inr (mem_stream s aggID), s)"

text \<open>\<^verbatim>\<open>*Memory\<close> as a value of the interface \<^verbatim>\<open>Store\<close>.\<close>

definition memory_store :: "Memory Store" where
  "memory_store = \<lparr>Append = mem_Append, Load = mem_Load, LoadUnprocessed = mem_LoadUnprocessed,
     PendingTransferDebits = mem_PendingTransferDebits, HasTransferEvent = mem_HasTransferEvent,
     EventsByAggregate = mem_EventsByAggregate\<rparr>"

section \<open>Invariant\<close>

text \<open>
  The global log and the streams agree: the log restricted to an aggregate is its stream,
  \<^verbatim>\<open>Seq\<close> numbers the log, \<^verbatim>\<open>Version\<close> numbers each stream.
\<close>

definition mem_inv :: "Memory \<Rightarrow> bool" where
  "mem_inv s \<longleftrightarrow>
     (\<forall>g. filter (\<lambda>e. eAggregateID e = g) (mlog s) = mem_stream s g) \<and>
     map eSeq (mlog s) = numbered 0 (length (mlog s)) \<and>
     mseq s = of_nat (length (mlog s)) \<and>
     (\<forall>g. map eVersion (mem_stream s g) = numbered 0 (length (mem_stream s g)))"

section \<open>Append\<close>

text \<open>The events of a batch as the loop stores them, numbered on from \<open>q\<close>.\<close>

fun stamp_from :: "int64 \<Rightarrow> Event list \<Rightarrow> Event list" where
  "stamp_from q [] = []"
| "stamp_from q (e # es) = e\<lparr>eSeq := q + 1\<rparr> # stamp_from (q + 1) es"

lemma length_stamp_from [simp]: "length (stamp_from q es) = length es"
  by (induction es arbitrary: q) auto

lemma stamped_stamp_from [simp]: "stamped es (stamp_from q es)"
  by (induction es arbitrary: q) (auto simp: stamped_Cons)

lemma stamp_from_eq_Nil [simp]: "stamp_from q es = [] \<longleftrightarrow> es = []"
  by (cases es) auto

lemma Replay_stamp_from [simp]: "Replay a (stamp_from q es) = Replay a es"
  by (induction es arbitrary: a q) (auto split: sum.split)

lemma stamp_from_eSeq: "map eSeq (stamp_from q es) = numbered q (length es)"
  by (induction es arbitrary: q) auto

lemma stamp_from_eVersion:
  "continues aggID v es \<Longrightarrow> map eVersion (stamp_from q es) = numbered v (length es)"
  by (induction es arbitrary: q v) (auto simp: continues_Cons)

lemma stamp_from_filter:
  "continues aggID v es \<Longrightarrow>
     filter (\<lambda>e. eAggregateID e = g) (stamp_from q es) = (if g = aggID then stamp_from q es else [])"
  by (induction es arbitrary: q v) (auto simp: continues_Cons)

lemma mem_append_loop_ok:
  "continues aggID (expected + of_nat i) es \<Longrightarrow>
     mem_append_loop aggID expected i es str s =
       (None, str @ stamp_from (mseq s) es,
        s\<lparr>mseq := mseq s + of_nat (length es), mlog := mlog s @ stamp_from (mseq s) es\<rparr>)"
proof (induction es arbitrary: i str s)
  case (Cons e es)
  then have "continues aggID (expected + of_nat (Suc i)) es"
    by (simp add: continues_Cons algebra_simps)
  from Cons.IH [OF this] show ?case
    using Cons.prems by (simp add: continues_Cons Let_def algebra_simps)
qed simp

lemma mem_append_loop_None:
  "mem_append_loop aggID expected i es str s = (None, str', s') \<Longrightarrow> continues aggID (expected + of_nat i) es"
proof (induction es arbitrary: i str s)
  case (Cons e es)
  then have "continues aggID (expected + of_nat (Suc i)) es"
    by (intro Cons.IH [of "Suc i"]) (auto simp: Let_def split: if_splits)
  then show ?case
    using Cons.prems by (auto simp: continues_Cons algebra_simps split: if_splits)
qed simp

text \<open>A batch that does not continue the stream: the loop stops at its first wrong event.\<close>

lemma mem_append_loop_rejects:
  "\<not> continues aggID (expected + of_nat i) es \<Longrightarrow>
     \<exists>es1 e es2. es = es1 @ e # es2 \<and> continues aggID (expected + of_nat i) es1 \<and>
       \<not> continues aggID (expected + of_nat i) (es1 @ [e]) \<and>
       mem_append_loop aggID expected i es str s =
         (Some (if eAggregateID e \<noteq> aggID then ErrAggregateMismatch else ErrConcurrency), str @ stamp_from (mseq s) es1,
          s\<lparr>mseq := mseq s + of_nat (length es1), mlog := mlog s @ stamp_from (mseq s) es1\<rparr>)"
proof (induction es arbitrary: i str s)
  case (Cons e es)
  show ?case
  proof (cases "eAggregateID e = aggID \<and> eVersion e = expected + of_nat i + 1")
    case False
    then show ?thesis
      by (intro exI [of _ "[]"] exI [of _ e] exI [of _ es]) (auto simp: continues_Cons)
  next
    case True
    let ?e = "e\<lparr>eSeq := mseq s + 1\<rparr>"
    let ?s = "s\<lparr>mseq := mseq s + 1, mlog := mlog s @ [?e]\<rparr>"
    have "\<not> continues aggID (expected + of_nat (Suc i)) es"
      using Cons.prems True by (simp add: continues_Cons algebra_simps)
    from Cons.IH [OF this, of "str @ [?e]" ?s] obtain es1 x es2 where
      IH: "es = es1 @ x # es2" "continues aggID (expected + of_nat (Suc i)) es1"
        "\<not> continues aggID (expected + of_nat (Suc i)) (es1 @ [x])"
        "mem_append_loop aggID expected (Suc i) es (str @ [?e]) ?s =
          (Some (if eAggregateID x \<noteq> aggID then ErrAggregateMismatch else ErrConcurrency),
           (str @ [?e]) @ stamp_from (mseq ?s) es1,
           ?s\<lparr>mseq := mseq ?s + of_nat (length es1), mlog := mlog ?s @ stamp_from (mseq ?s) es1\<rparr>)"
      by blast
    then show ?thesis
      using True by (intro exI [of _ "e # es1"] exI [of _ x] exI [of _ es2]) (simp add: continues_Cons Let_def algebra_simps)
  qed
qed (simp add: continues_def)

text \<open>A batch that continues the stream at its current version is written whole.\<close>

lemma mem_Append_ok:
  assumes "continues aggID (of_nat (length (mem_stream s aggID))) es"
  shows "mem_Append s aggID (of_nat (length (mem_stream s aggID))) es =
    (None, s\<lparr>mseq := mseq s + of_nat (length es), mlog := mlog s @ stamp_from (mseq s) es,
             streams := (streams s)(aggID \<mapsto> mem_stream s aggID @ stamp_from (mseq s) es)\<rparr>)"
  using mem_append_loop_ok [of aggID "of_nat (length (mem_stream s aggID))" 0 es] assms
  by (simp add: mem_Append_def Let_def)

lemma mem_Append_outdated:
  "of_nat (length (mem_stream s aggID)) \<noteq> expected \<Longrightarrow> mem_Append s aggID expected es = (Some ErrConcurrency, s)"
  by (simp add: mem_Append_def Let_def)

lemma mem_stream_update:
  "mem_stream (s\<lparr>streams := (streams s)(aggID \<mapsto> es)\<rparr>) = (mem_stream s)(aggID := es)"
  by (auto simp: mem_stream_def fun_eq_iff)

lemma mem_inv_append:
  assumes "mem_inv s" and "continues aggID (of_nat (length (mem_stream s aggID))) es"
  shows "mem_inv (s\<lparr>mseq := mseq s + of_nat (length es), mlog := mlog s @ stamp_from (mseq s) es,
             streams := (streams s)(aggID \<mapsto> mem_stream s aggID @ stamp_from (mseq s) es)\<rparr>)" (is "mem_inv ?s'")
proof -
  have str: "mem_stream ?s' = (mem_stream s)(aggID := mem_stream s aggID @ stamp_from (mseq s) es)"
    by (auto simp: mem_stream_def fun_eq_iff)
  have "filter (\<lambda>e. eAggregateID e = g) (mlog ?s') = mem_stream ?s' g" for g
    unfolding str using assms stamp_from_filter [OF assms(2), of g "mseq s"] by (auto simp: mem_inv_def)
  moreover have "map eSeq (mlog ?s') = numbered 0 (length (mlog ?s'))"
    using assms(1) by (simp add: mem_inv_def numbered_add stamp_from_eSeq)
  moreover have "map eVersion (mem_stream ?s' g) = numbered 0 (length (mem_stream ?s' g))" for g
    unfolding str using assms
    by (auto simp: mem_inv_def numbered_add stamp_from_eVersion)
  ultimately show ?thesis
    using assms(1) by (simp add: mem_inv_def)
qed

lemma mem_inv_New [simp]: "mem_inv NewMemory"
  by (simp add: mem_inv_def NewMemory_def mem_stream_def)

lemma mem_inv_MarkProcessed: "mem_inv s \<Longrightarrow> mem_inv (mem_MarkProcessed s i)"
  by (simp add: mem_inv_def mem_MarkProcessed_def mem_stream_def)

lemma mem_inv_filter: "mem_inv s \<Longrightarrow> filter (\<lambda>e. eAggregateID e = g) (mlog s) = mem_stream s g"
  by (simp add: mem_inv_def)

lemma mem_inv_log: "mem_inv s \<Longrightarrow> e \<in> set (mlog s) \<longleftrightarrow> e \<in> set (mem_stream s (eAggregateID e))"
  by (simp flip: mem_inv_filter)

lemma mem_inv_stream_id: "mem_inv s \<Longrightarrow> e \<in> set (mem_stream s g) \<Longrightarrow> eAggregateID e = g \<and> e \<in> set (mlog s)"
  by (simp flip: mem_inv_filter)

lemma mem_inv_ex: "mem_inv s \<Longrightarrow> (\<exists>e \<in> set (mlog s). P e) \<longleftrightarrow> (\<exists>g. \<exists>e \<in> set (mem_stream s g). P e)"
  using mem_inv_log mem_inv_stream_id by blast

section \<open>The contract holds\<close>

lemma history_limit_int64: "n \<le> history_limit \<Longrightarrow> n < 9223372036854775807"
  by (simp add: history_limit_def)

lemma mem_Append_atomic:
  assumes "mem_inv s" and "n \<le> length (mem_stream s aggID)" and "es \<noteq> []"
    and "length (mem_stream s aggID) + length es \<le> history_limit" and "continues aggID (of_nat n) es"
    and "mem_Append s aggID (of_nat n) es = (r, s')"
  shows "mem_inv s' \<and> (r \<noteq> None \<and> mem_stream s' = mem_stream s \<or>
    n = length (mem_stream s aggID) \<and>
    (\<exists>fs. stamped es fs \<and> mem_stream s' = (mem_stream s)(aggID := mem_stream s aggID @ fs)))"
proof (cases "(of_nat n :: int64) = of_nat (length (mem_stream s aggID))")
  case True
  then have n: "n = length (mem_stream s aggID)"
    using assms(2,4) by (intro of_nat_int64_eq) (auto dest: history_limit_int64)
  from assms(6) mem_Append_ok assms(5) n
  have s': "s' = s\<lparr>mseq := mseq s + of_nat (length es), mlog := mlog s @ stamp_from (mseq s) es,
             streams := (streams s)(aggID \<mapsto> mem_stream s aggID @ stamp_from (mseq s) es)\<rparr>"
    by auto
  have "mem_stream s' = (mem_stream s)(aggID := mem_stream s aggID @ stamp_from (mseq s) es)"
    unfolding s' by (auto simp: mem_stream_def fun_eq_iff)
  moreover have "mem_inv s'"
    unfolding s' using assms(1,5) n by (intro mem_inv_append) auto
  ultimately show ?thesis using n by (auto intro: stamped_stamp_from)
next
  case False
  then show ?thesis using assms(1,6) mem_Append_outdated by auto
qed

lemma mem_append_loop_streams:
  "mem_append_loop aggID expected i es str s = (r, str', s') \<Longrightarrow> streams s' = streams s \<and> (\<exists>fs. str' = str @ fs)"
  by (induction es arbitrary: i str s) (fastforce simp: Let_def split: if_splits)+

text \<open>Whatever the arguments, a stream never loses or changes an event.\<close>

lemma mem_Append_only:
  assumes "mem_Append s aggID v es = (r, s')"
  shows "\<exists>fs. mem_stream s' g = mem_stream s g @ fs"
proof -
  obtain q str' s1 where l: "mem_append_loop aggID v 0 es (mem_stream s aggID) s = (q, str', s1)"
    by (metis prod_cases3)
  from mem_append_loop_streams [OF l] obtain fs
    where fs: "streams s1 = streams s" "str' = mem_stream s aggID @ fs" by blast
  from assms l consider "s' = s" | "s' = s1" | "s' = s1\<lparr>streams := (streams s1)(aggID \<mapsto> str')\<rparr>"
    by (cases q) (auto simp: mem_Append_def Let_def split: if_splits)
  then show ?thesis
    using fs by cases (auto simp: mem_stream_def)
qed

text \<open>Nor does any stream outgrow the log.\<close>

definition mem_short :: "Memory \<Rightarrow> bool" where
  "mem_short s \<longleftrightarrow> (\<forall>g. length (mem_stream s g) \<le> length (mlog s))"

lemma mem_inv_short: "mem_inv s \<Longrightarrow> mem_short s"
  by (simp add: mem_short_def flip: mem_inv_filter)

lemma mem_append_loop_length:
  "mem_append_loop aggID expected i es str s = (r, str', s') \<Longrightarrow>
     length str' + length (mlog s) = length str + length (mlog s')"
  by (induction es arbitrary: i str s) (fastforce simp: Let_def split: if_splits)+

lemma mem_Append_short:
  assumes "mem_short s" and "mem_Append s aggID v es = (r, s')"
  shows "mem_short s'"
proof -
  obtain q str' s1 where l: "mem_append_loop aggID v 0 es (mem_stream s aggID) s = (q, str', s1)"
    by (metis prod_cases3)
  note len = mem_append_loop_length [OF l] mem_append_loop_streams [OF l]
  have "length (mem_stream s aggID) \<le> length str'" using len(2) by auto
  then have grow: "length (mlog s) \<le> length (mlog s1)" "length str' \<le> length (mlog s1)"
    using len(1) assms(1) [unfolded mem_short_def, rule_format, of aggID] by linarith+
  have "length (mem_stream s g) \<le> length (mlog s1)" for g
    using assms(1) [unfolded mem_short_def, rule_format, of g] grow(1) by linarith
  then have s1: "mem_short s1" using len(2) by (simp add: mem_short_def mem_stream_def)
  from assms(2) l consider "s' = s" | "s' = s1" | "s' = s1\<lparr>streams := (streams s1)(aggID \<mapsto> str')\<rparr>"
    by (cases q) (auto simp: mem_Append_def Let_def split: if_splits)
  then show ?thesis using assms(1) s1 grow(2) by cases (auto simp: mem_short_def mem_stream_update)
qed

lemma transferIDOf_seq [simp]: "transferIDOf (e\<lparr>eSeq := k\<rparr>) = transferIDOf e"
  by (simp add: transferIDOf_def)

lemma transferIDOf_decided:
  assumes "decide d c a = Inr e" and "stored_as e f"
  shows "transferIDOf f = cmd_transfer c"
proof -
  have "transferIDOf e = cmd_transfer c"
    using assms(1)
    by (cases c) (auto simp: decide_simps NewEvent_Inr transferIDOf_def transfer_field_def unmarshal_struct_def
        omitempty_def split: if_splits)
  then show ?thesis using assms(2) by (simp add: transferIDOf_def stored_as_def same_payload_def)
qed

lemma mem_Append_mismatch:
  "eAggregateID e \<noteq> aggID \<Longrightarrow> mem_Append s aggID v [e] = (r, s') \<Longrightarrow> r \<noteq> None \<and> s' = s"
  by (auto simp: mem_Append_def Let_def split: if_splits)

lemma map_eID_stamp_from [simp]: "map eID (stamp_from q es) = map eID es"
  by (induction es arbitrary: q) auto

lemma mem_Append_ids:
  assumes "mem_Append s aggID v es = (None, s')" and "mem_stream s' aggID = mem_stream s aggID @ fs"
  shows "map eID fs = map eID es"
proof -
  from assms(1) have v: "v = of_nat (length (mem_stream s aggID))"
    by (auto simp: mem_Append_def Let_def split: if_splits)
  from assms(1) obtain str' s1 where "mem_append_loop aggID v 0 es (mem_stream s aggID) s = (None, str', s1)"
    by (auto simp: mem_Append_def Let_def split: if_splits prod.splits option.splits)
  from mem_append_loop_None [OF this] have "continues aggID (of_nat (length (mem_stream s aggID))) es" using v by simp
  from mem_Append_ok [OF this] assms v have "fs = stamp_from (mseq s) es" by (auto simp: mem_stream_def)
  then show ?thesis by simp
qed

interpretation memory: reliable_store memory_store mem_stream mem_inv "\<lambda>_. True" transferIDOf
proof (unfold_locales, goal_cases)
  case (5 s aggID v es r s' g)
  then show ?case by (auto simp: memory_store_def intro: mem_Append_only)
next
  case (6 s aggID a s')
  then show ?case by (auto simp: memory_store_def mem_Load_def Let_def split: if_splits)
next
  case (7 s e aggID v r s')
  then show ?case using mem_Append_mismatch [of e aggID s v r s'] by (auto simp: memory_store_def)
next
  case (8 s aggID n es r s')
  then show ?case by (intro mem_Append_atomic) (auto simp: memory_store_def)
next
  case (12 s es aggID)
  then show ?case by (auto simp: memory_store_def mem_Append_ok)
next
  case (13 s n aggID es err s')
  then show ?case using mem_Append_atomic [of s n aggID es "Some err" s']
    by (cases "n = length (mem_stream s aggID)") (auto simp: memory_store_def mem_Append_ok)
next
  case (14 s aggID v es s' fs)
  then show ?case by (intro mem_Append_ids) (auto simp: memory_store_def)
next
  case (15 s n aggID es)
  then have "(of_nat n :: int64) \<noteq> of_nat (length (mem_stream s aggID))"
    using of_nat_int64_eq [of n "length (mem_stream s aggID)"] by (auto dest: history_limit_int64)
  then show ?case by (auto simp: memory_store_def mem_Append_outdated)
next
  case (17 s tid ty)
  then show ?case
    by (simp add: memory_store_def mem_HasTransferEvent_def list_ex_iff mem_inv_ex)
next
  case (18 s)
  then show ?case
    by (auto simp: memory_store_def mem_PendingTransferDebits_def pending_set_def mem_inv_ex image_iff
      dest: mem_inv_stream_id; use 18 in \<open>blast dest: mem_inv_log mem_inv_stream_id\<close>)
qed (auto simp: transferIDOf_decided memory_store_def mem_Load_def mem_HasTransferEvent_def Let_def split: if_splits)

section \<open>Properties\<close>

text \<open>
  C10. Optimistic locking of the in-memory store: an append at a version that is not the length of
  the stream is refused with \<open>ErrConcurrency\<close> and changes nothing; a batch that continues the
  stream is written whole, at the end of the stream and of the log, with consecutive
  sequence numbers, and the agreement of log and streams is kept.
\<close>

theorem memory_append_contract:
  assumes "mem_inv s" and "continues aggID expected es"
  shows "if of_nat (length (mem_stream s aggID)) \<noteq> expected
    then mem_Append s aggID expected es = (Some ErrConcurrency, s)
    else \<exists>s' fs. mem_Append s aggID expected es = (None, s') \<and> stamped es fs \<and> mem_inv s' \<and>
      mem_stream s' = (mem_stream s)(aggID := mem_stream s aggID @ fs) \<and> mlog s' = mlog s @ fs \<and>
      map eSeq fs = numbered (mseq s) (length es)"
proof (cases "of_nat (length (mem_stream s aggID)) = expected")
  case False
  then show ?thesis by (simp add: mem_Append_outdated)
next
  case True
  let ?s = "s\<lparr>mseq := mseq s + of_nat (length es), mlog := mlog s @ stamp_from (mseq s) es,
             streams := (streams s)(aggID \<mapsto> mem_stream s aggID @ stamp_from (mseq s) es)\<rparr>"
  have cont: "continues aggID (of_nat (length (mem_stream s aggID))) es" using assms(2) True by simp
  have "mem_stream ?s = (mem_stream s)(aggID := mem_stream s aggID @ stamp_from (mseq s) es)"
    by (auto simp: mem_stream_def fun_eq_iff)
  then show ?thesis
    using True mem_Append_ok [OF cont] mem_inv_append [OF assms(1) cont] stamp_from_eSeq [of "mseq s" es]
    by (auto intro!: exI [of _ ?s] exI [of _ "stamp_from (mseq s) es"])
qed

definition first_event :: Event where
  "first_event = \<lparr>eID = ''e1'', eAggregateID = ''a'', eVersion = 1, eType = EventAccountOpened,
     eData = RawJSON (JObj [(''owner'', JStr ''ana'')]), eOccurredAt = 0, eSeq = 0\<rparr>"

theorem memory_append_contract_witness:
  "\<exists>s' fs. mem_Append NewMemory ''a'' 0 [first_event] = (None, s') \<and> stamped [first_event] fs \<and> mem_inv s' \<and> mlog s' = fs"
proof -
  have "continues ''a'' 0 [first_event]" by (simp add: continues_Cons first_event_def)
  from memory_append_contract [OF mem_inv_New this] show ?thesis
    by (auto simp: NewMemory_def mem_stream_def)
qed

text \<open>
  C18. The in-memory \<open>Append\<close> is not atomic, whatever the store and the batch: at the current version, a
  batch that does not continue the stream is refused with the error of its first wrong event
  (\<open>ErrAggregateMismatch\<close> or \<open>ErrConcurrency\<close>) and leaves every stream as it was, but the events before
  the wrong one stay in the global log, with sequence numbers. Unless the first event is the wrong one
  the log and the streams disagree from then on, and \<open>LoadUnprocessed\<close> hands out events that
  \<open>EventsByAggregate\<close> does not know. (The application itself only appends batches that continue the
  stream.)
\<close>

theorem memory_append_partial_batch:
  assumes "mem_inv s" and "of_nat (length (mem_stream s aggID)) = expected" and "\<not> continues aggID expected es"
  shows "\<exists>es1 e es2 s'. es = es1 @ e # es2 \<and> continues aggID expected es1 \<and> \<not> continues aggID expected (es1 @ [e]) \<and>
    mem_Append s aggID expected es = (Some (if eAggregateID e \<noteq> aggID then ErrAggregateMismatch else ErrConcurrency), s') \<and>
    fst (mem_EventsByAggregate s' g) = Inr (mem_stream s g) \<and>
    fst (mem_LoadUnprocessed s') = Inr (filter (\<lambda>e. \<not> marked s (eID e)) (mlog s @ stamp_from (mseq s) es1)) \<and>
    mseq s' = mseq s + of_nat (length es1) \<and> (mem_inv s' \<longleftrightarrow> es1 = [])"
proof -
  obtain es1 e es2 where b: "es = es1 @ e # es2" "continues aggID expected es1" "\<not> continues aggID expected (es1 @ [e])"
      and l: "mem_append_loop aggID expected 0 es (mem_stream s aggID) s =
        (Some (if eAggregateID e \<noteq> aggID then ErrAggregateMismatch else ErrConcurrency),
         mem_stream s aggID @ stamp_from (mseq s) es1,
         s\<lparr>mseq := mseq s + of_nat (length es1), mlog := mlog s @ stamp_from (mseq s) es1\<rparr>)"
    using mem_append_loop_rejects [of aggID expected 0 es "mem_stream s aggID" s] assms(3) by auto
  let ?s = "s\<lparr>mseq := mseq s + of_nat (length es1), mlog := mlog s @ stamp_from (mseq s) es1\<rparr>"
  have "mem_Append s aggID expected es =
      (Some (if eAggregateID e \<noteq> aggID then ErrAggregateMismatch else ErrConcurrency), ?s)"
    using assms(2) l by (simp add: mem_Append_def Let_def)
  moreover have "mem_inv ?s \<longleftrightarrow> es1 = []"
  proof (cases "es1 = []")
    case True
    have "mem_inv ?s = mem_inv s" by (simp add: True)
    with True assms(1) show ?thesis by simp
  next
    case False
    have "mem_stream ?s = mem_stream s" by (simp add: mem_stream_def fun_eq_iff)
    then show ?thesis
      using False mem_inv_filter [OF assms(1), of aggID] mem_inv_filter [of ?s aggID]
        stamp_from_filter [OF b(2), of aggID "mseq s"] by fastforce
  qed
  ultimately show ?thesis
    using b by (intro exI [of _ es1] exI [of _ e] exI [of _ es2] exI [of _ ?s])
      (simp add: mem_EventsByAggregate_def mem_LoadUnprocessed_def marked_def mem_stream_def)
qed

theorem memory_append_partial_batch_witness:
  "\<exists>s'. mem_Append NewMemory ''a'' 0 [first_event, first_event] = (Some ErrConcurrency, s') \<and> \<not> mem_inv s' \<and>
     fst (mem_EventsByAggregate s' ''a'') = Inr [] \<and> fst (mem_LoadUnprocessed s') = Inr [first_event\<lparr>eSeq := 1\<rparr>]"
proof -
  have c: "\<not> continues ''a'' 0 [first_event, first_event]" "continues ''a'' 0 [first_event]"
    by (simp_all add: continues_Cons first_event_def)
  have new: "of_nat (length (mem_stream NewMemory ''a'')) = (0 :: int64)" "mem_stream NewMemory ''a'' = []" "mseq NewMemory = 0"
      "mlog NewMemory = []" "\<not> marked NewMemory i" for i
    by (simp_all add: NewMemory_def mem_stream_def marked_def)
  from memory_append_partial_batch [OF mem_inv_New new(1) c(1), of "''a''"] obtain es1 e es2 s' where
    b: "[first_event, first_event] = es1 @ e # es2" "\<not> continues ''a'' 0 (es1 @ [e])"
      "mem_Append NewMemory ''a'' 0 [first_event, first_event] =
        (Some (if eAggregateID e \<noteq> ''a'' then ErrAggregateMismatch else ErrConcurrency), s')"
      "fst (mem_EventsByAggregate s' ''a'') = Inr (mem_stream NewMemory ''a'')" "mem_inv s' \<longleftrightarrow> es1 = []"
      "fst (mem_LoadUnprocessed s') =
        Inr (filter (\<lambda>e. \<not> marked NewMemory (eID e)) (mlog NewMemory @ stamp_from (mseq NewMemory) es1))"
    by blast
  have "es1 \<noteq> []" using b(1,2) c(2) by auto
  then have "es1 = [first_event]" "e = first_event" using b(1) by (cases es1; auto simp: Cons_eq_append_conv)+
  with b show ?thesis by (auto simp: new first_event_def)
qed

end
