(* ===== verification/App.thy ===== *)
theory App
  imports Memory_Store
begin

text \<open>
  \<^verbatim>\<open>internal/app/app.go\<close>: the command side. \<^verbatim>\<open>App\<close> holds a \<^verbatim>\<open>Store\<close> and a \<^verbatim>\<open>Bus\<close>, both
  interfaces, so the operations are written over a record of store operations and a
  publish function; a state is the pair of the store's and the bus's state.

  One call of \<^verbatim>\<open>mutate\<close> runs among other goroutines. What they do to the store while this call
  is between two of its own store operations is part of the call's environment:
  \<open>checked\<close> runs after the duplicate check of the saga commands, \<open>between i\<close> after the \<^verbatim>\<open>Load\<close> of
  attempt \<open>i\<close> and \<open>waiting i\<close> during its back-off; \<open>cancelled i\<close> is the context's error if the
  context ends that back-off. Statements about a single caller take them as identities.
\<close>

section \<open>State and environment\<close>

definition maxRetries :: nat where
  "maxRetries = 5"

record ('s, 'b) App =
  appStore :: "'s Store"
  appPublish :: "'b \<Rightarrow> Event \<Rightarrow> 'b"

record 's env =
  draws :: "nat \<Rightarrow> draw"
  checked :: "'s \<Rightarrow> 's"
  between :: "nat \<Rightarrow> 's \<Rightarrow> 's"
  waiting :: "nat \<Rightarrow> 's \<Rightarrow> 's"
  cancelled :: "nat \<Rightarrow> error option"

definition quiet :: "(nat \<Rightarrow> draw) \<Rightarrow> 's env" where
  "quiet dr = \<lparr>draws = dr, checked = (\<lambda>s. s), between = (\<lambda>_ s. s), waiting = (\<lambda>_ s. s), cancelled = (\<lambda>_. None)\<rparr>"

section \<open>publish and mutate\<close>

fun publish :: "('s, 'b) App \<Rightarrow> 'b \<Rightarrow> Event list \<Rightarrow> 'b" where
  "publish app b [] = b"
| "publish app b (e # es) = publish app (appPublish app b e) es"

text \<open>The read half of an attempt: \<^verbatim>\<open>Load\<close>, then the decision on the loaded account.\<close>

definition mutate_read ::
    "'s Store \<Rightarrow> (draw \<Rightarrow> Account \<Rightarrow> Event result) \<Rightarrow> draw \<Rightarrow> 's \<Rightarrow> string \<Rightarrow> (Account \<times> Event) result \<times> 's" where
  "mutate_read st dec d s aggID =
     (case Load st s aggID of
        (Inl err, s1) \<Rightarrow> (Inl err, s1)
      | (Inr acc, s1) \<Rightarrow>
          (case dec d acc of
             Inl err \<Rightarrow> (Inl err, s1)
           | Inr e \<Rightarrow> (Inr (acc, e), s1)))"

text \<open>The write half: \<^verbatim>\<open>Append\<close> at the version that was loaded.\<close>

definition mutate_write :: "'s Store \<Rightarrow> 's \<Rightarrow> string \<Rightarrow> Account \<Rightarrow> Event \<Rightarrow> error option \<times> 's" where
  "mutate_write st s aggID acc e = Append st s aggID (Version acc) [e]"

text \<open>The loop, with the number of attempts left and the index of the current one.\<close>

fun mutate_from ::
    "('s, 'b) App \<Rightarrow> 's env \<Rightarrow> (draw \<Rightarrow> Account \<Rightarrow> Event result) \<Rightarrow> string \<Rightarrow> nat \<Rightarrow> nat \<Rightarrow> 's \<times> 'b
      \<Rightarrow> error option \<times> 's \<times> 'b" where
  "mutate_from app env dec aggID 0 attempt (s, b) = (Some ErrTooManyConflicts, s, b)"
| "mutate_from app env dec aggID (Suc left) attempt (s, b) =
     (case mutate_read (appStore app) dec (draws env attempt) s aggID of
        (Inl err, s1) \<Rightarrow> (Some err, s1, b)
      | (Inr (acc, e), s1) \<Rightarrow>
          (case mutate_write (appStore app) (between env attempt s1) aggID acc e of
             (None, s2) \<Rightarrow> (None, s2, publish app b [e])
           | (Some err, s2) \<Rightarrow>
               if \<not> errors_Is err ErrConcurrency then (Some err, s2, b)
               else (case cancelled env attempt of
                       Some c \<Rightarrow> (Some c, s2, b)
                     | None \<Rightarrow> mutate_from app env dec aggID left (Suc attempt) (waiting env attempt s2, b))))"

definition mutate ::
    "('s, 'b) App \<Rightarrow> 's env \<Rightarrow> string \<Rightarrow> (draw \<Rightarrow> Account \<Rightarrow> Event result) \<Rightarrow> 's \<times> 'b \<Rightarrow> error option \<times> 's \<times> 'b" where
  "mutate app env aggID dec w = mutate_from app env dec aggID maxRetries 0 w"

section \<open>Commands\<close>

text \<open>
  \<open>draws env\<close> supplies, in order, the account id, the opening event and the deposit event.
\<close>

definition opening_events :: "(nat \<Rightarrow> draw) \<Rightarrow> string \<Rightarrow> string \<Rightarrow> int64 \<Rightarrow> Event list result" where
  "opening_events dr accID owner initialDeposit =
     (case OpenAccount (dr 1) accID owner of
        Inl err \<Rightarrow> Inl err
      | Inr opened \<Rightarrow>
          if 0 < sint initialDeposit then
            (case Replay zero_Account [opened] of
               Inl err \<Rightarrow> Inl err
             | Inr acc \<Rightarrow>
                 (case Deposit (dr 2) acc initialDeposit ''initial deposit'' of
                    Inl err \<Rightarrow> Inl err
                  | Inr dep \<Rightarrow> Inr [opened, dep]))
          else Inr [opened])"

definition app_OpenAccount ::
    "('s, 'b) App \<Rightarrow> 's env \<Rightarrow> string \<Rightarrow> int64 \<Rightarrow> 's \<times> 'b \<Rightarrow> string result \<times> 's \<times> 'b" where
  "app_OpenAccount app env owner initialDeposit w =
     (case w of (s, b) \<Rightarrow>
        if sint initialDeposit < 0 then (Inl ErrInvalidAmount, s, b)
        else
          (let accID = NewID (rnd (draws env 0))
           in case opening_events (draws env) accID owner initialDeposit of
                Inl err \<Rightarrow> (Inl err, s, b)
              | Inr events \<Rightarrow>
                  (case Append (appStore app) s accID 0 events of
                     (Some err, s') \<Rightarrow> (Inl (Wrapf ''open account'' err), s', b)
                   | (None, s') \<Rightarrow> (Inr accID, s', publish app b events))))"

definition app_Deposit ::
    "('s, 'b) App \<Rightarrow> 's env \<Rightarrow> string \<Rightarrow> int64 \<Rightarrow> string \<Rightarrow> 's \<times> 'b \<Rightarrow> error option \<times> 's \<times> 'b" where
  "app_Deposit app env accountID amount description w =
     mutate app env accountID (\<lambda>d acc. Deposit d acc amount description) w"

definition app_Withdraw ::
    "('s, 'b) App \<Rightarrow> 's env \<Rightarrow> string \<Rightarrow> int64 \<Rightarrow> string \<Rightarrow> 's \<times> 'b \<Rightarrow> error option \<times> 's \<times> 'b" where
  "app_Withdraw app env accountID amount description w =
     mutate app env accountID (\<lambda>d acc. Withdraw d acc amount description) w"

text \<open>\<open>tb\<close> are the random bytes of the transfer id.\<close>

definition app_StartTransfer ::
    "('s, 'b) App \<Rightarrow> 's env \<Rightarrow> u8 list \<Rightarrow> string \<Rightarrow> string \<Rightarrow> int64 \<Rightarrow> 's \<times> 'b \<Rightarrow> string result \<times> 's \<times> 'b" where
  "app_StartTransfer app env tb from to amount w =
     (let transferID = NewID tb
      in case mutate app env from (\<lambda>d acc. DebitTransfer d acc transferID to amount) w of
           (Some err, w') \<Rightarrow> (Inl err, w')
         | (None, w') \<Rightarrow> (Inr transferID, w'))"

definition app_CreditTransfer ::
    "('s, 'b) App \<Rightarrow> 's env \<Rightarrow> string \<Rightarrow> string \<Rightarrow> string \<Rightarrow> int64 \<Rightarrow> 's \<times> 'b \<Rightarrow> error option \<times> 's \<times> 'b" where
  "app_CreditTransfer app env to transferID from amount w =
     (case w of (s, b) \<Rightarrow>
        (case HasTransferEvent (appStore app) s EventTransferCredited transferID of
           (Inl err, s1) \<Rightarrow> (Some err, s1, b)
         | (Inr True, s1) \<Rightarrow> (None, s1, b)
         | (Inr False, s1) \<Rightarrow>
             mutate app env to (\<lambda>d acc. CreditTransfer d acc transferID from amount) (checked env s1, b)))"

definition app_ReverseTransfer ::
    "('s, 'b) App \<Rightarrow> 's env \<Rightarrow> string \<Rightarrow> string \<Rightarrow> int64 \<Rightarrow> string \<Rightarrow> 's \<times> 'b \<Rightarrow> error option \<times> 's \<times> 'b" where
  "app_ReverseTransfer app env from transferID amount reason w =
     (case w of (s, b) \<Rightarrow>
        (case HasTransferEvent (appStore app) s EventTransferReversed transferID of
           (Inl err, s1) \<Rightarrow> (Some err, s1, b)
         | (Inr True, s1) \<Rightarrow> (None, s1, b)
         | (Inr False, s1) \<Rightarrow>
             mutate app env from (\<lambda>d acc. ReverseTransfer d acc transferID amount reason) (checked env s1, b)))"

section \<open>The ledger\<close>

text \<open>Every stream is empty or the history of the account it is named after.\<close>

definition ledger :: "(string \<Rightarrow> Event list) \<Rightarrow> bool" where
  "ledger str \<longleftrightarrow> (\<forall>g. str g = [] \<or> (\<exists>a. history (str g) a \<and> aID a = g))"

lemma ledgerD: "ledger str \<Longrightarrow> str g \<noteq> [] \<Longrightarrow> \<exists>a. history (str g) a \<and> aID a = g"
  by (auto simp: ledger_def)

lemma ledger_account:
  assumes "ledger str" and "str g \<noteq> []" and "Replay zero_Account (str g) = Inr a"
  shows "history (str g) a" and "aID a = g" and "Version a = of_nat (length (str g))"
  using ledgerD [OF assms(1,2)] assms(3) history_Replay history_Version by fastforce+

lemma ledger_decided:
  assumes "ledger str" and "str g \<noteq> []" and "Replay zero_Account (str g) = Inr a"
    and "decide d c a = Inr e" and "reversal_limited c"
    and "stored_as e f"
  shows "ledger (str(g := str g @ [f]))"
proof -
  obtain b where b: "Apply a e = Inr b" "aID b = aID a"
    using decide_Apply [OF assms(4), of a] by auto
  have "history (str g @ [f]) b"
    using ledger_account(1) [OF assms(1-3)] assms(4,5) b(1) assms(6) by (rule history.decided)
  then show ?thesis
    using assms(1) b(2) ledger_account(2) [OF assms(1-3)] by (auto simp: ledger_def)
qed

lemma decided_continues:
  "decide d c a = Inr e \<Longrightarrow> continues (aID a) (Version a) [e]"
  by (simp add: continues_Cons decide_event)

lemma NewEvent_encoded: "NewEvent d g v typ p = Inr e \<Longrightarrow> encoded e"
  by (auto simp: NewEvent_Inr encoded_def)

lemma decided_encoded: "decide d c a = Inr e \<Longrightarrow> encoded e"
  by (cases c) (auto simp: decide_simps split: option.splits if_splits intro: NewEvent_encoded)

section \<open>Opening an account\<close>

lemma opening_events_cases:
  assumes "opening_events dr accID owner amount = Inr es"
  obtains (plain) opened where "OpenAccount (dr 1) accID owner = Inr opened" "\<not> 0 < sint amount" "es = [opened]"
    | (funded) opened acc dep where "OpenAccount (dr 1) accID owner = Inr opened" "0 < sint amount"
        "Apply zero_Account opened = Inr acc" "Deposit (dr 2) acc amount ''initial deposit'' = Inr dep"
        "es = [opened, dep]"
  using assms by (auto simp: opening_events_def split: sum.splits if_splits)

lemma opening_events_nonempty: "opening_events dr accID owner amount = Inr es \<Longrightarrow> es \<noteq> [] \<and> length es \<le> 2"
  by (erule opening_events_cases) auto

lemma opening_events_encoded:
  assumes "opening_events dr accID owner amount = Inr es"
  shows "list_all encoded es"
proof -
  have op: "OpenAccount d i own = Inr e \<Longrightarrow> encoded e" for d i own e
    by (auto simp: OpenAccount_def Let_def split: if_splits intro: NewEvent_encoded)
  have "Deposit d a n desc = Inr e \<Longrightarrow> encoded e" for d a n desc e
    using decided_encoded [of d "CDeposit n desc"] by simp
  with op show ?thesis by (rule_tac opening_events_cases [OF assms]) auto
qed

lemma opening_events_continue: "opening_events dr accID owner amount = Inr es \<Longrightarrow> continues accID 0 es"
proof (erule opening_events_cases, goal_cases)
  case (1 opened)
  then show ?case by (simp add: continues_Cons OpenAccount_event)
next
  case (2 opened acc dep)
  then have "acc = zero_Account\<lparr>aID := accID, Owner := TrimSpace owner, Open := True, Version := 1\<rparr>"
    by (auto dest: OpenAccount_ApplyD)
  then show ?case
    using 2 decide_event(1,2) [of "dr 2" "CDeposit amount ''initial deposit''" acc dep]
    by (simp add: continues_Cons OpenAccount_event)
qed

lemma opening_events_history:
  assumes "opening_events dr accID owner amount = Inr es" and "accID \<noteq> []" and "stamped es fs"
  shows "\<exists>a. history fs a \<and> aID a = accID"
  using assms(1)
proof (cases rule: opening_events_cases)
  case (plain opened)
  then show ?thesis
    using assms(2,3) history.opened [OF plain(1) assms(2) OpenAccount_event(6) [OF plain(1)]]
    by (fastforce simp: stamped_Cons)
next
  case (funded opened acc dep)
  from assms(3) funded obtain f1 f2 where fs: "fs = [f1] @ [f2]" "stored_as opened f1" "stored_as dep f2"
    by (auto simp: stamped_Cons)
  have h: "history [f1] acc" using funded assms(2) fs(2) by (blast intro: history.opened)
  have dec: "decide (dr 2) (CDeposit amount ''initial deposit'') acc = Inr dep" using funded by simp
  obtain b where b: "Apply acc dep = Inr b" "aID b = aID acc"
    using decide_Apply [OF dec, of acc] by auto
  have "history fs b"
    unfolding fs by (rule history.decided [OF h dec _ b(1) fs(3)]) (simp add: reversal_limited_def)
  moreover have "aID b = accID" using b(2) funded(1,3) by (auto dest: OpenAccount_ApplyD)
  ultimately show ?thesis by blast
qed

section \<open>One attempt against any store\<close>

text \<open>
  A decision a caller holds: it was made on the account some prefix of the stream gives. It
  stays one while the stream grows.
\<close>

definition holds_decision :: "(string \<Rightarrow> Event list) \<Rightarrow> command \<Rightarrow> Account \<Rightarrow> Event \<Rightarrow> bool" where
  "holds_decision str c acc e \<longleftrightarrow>
     (\<exists>n d. n \<le> length (str (aID acc)) \<and> history (take n (str (aID acc))) acc \<and> decide d c acc = Inr e)"

lemma holds_decision_extend:
  assumes "holds_decision str c acc e" and "str' (aID acc) = str (aID acc) @ fs"
  shows "holds_decision str' c acc e"
proof -
  obtain n d where "n \<le> length (str (aID acc))" "history (take n (str (aID acc))) acc" "decide d c acc = Inr e"
    using assms(1) by (auto simp: holds_decision_def)
  then show ?thesis
    unfolding holds_decision_def using assms(2) by (intro exI [of _ n] exI [of _ d]) simp
qed

context event_store
begin

lemma mutate_read_holds:
  assumes "inv s" and "ledger (stream s)"
    and "mutate_read st (\<lambda>d acc. decide d c acc) d s g = (Inr (acc, e), s')"
  shows "inv s' \<and> stream s' = stream s \<and> holds_decision (stream s) c acc e"
proof -
  from assms(3) have l: "Load st s g = (Inr acc, s')" and d: "decide d c acc = Inr e"
    by (auto simp: mutate_read_def split: prod.splits sum.splits)
  from load_value [OF assms(1) l] obtain h where
    v: "stream s h \<noteq> []" "Replay zero_Account (stream s h) = Inr acc" by blast
  have "holds_decision (stream s) c acc e"
    unfolding holds_decision_def using ledger_account [OF assms(2) v] d
    by (intro exI [of _ "length (stream s h)"] exI [of _ d]) simp
  then show ?thesis using load_inv [OF assms(1) l] load_frame [OF l] by simp
qed

lemma mutate_read_frame: "mutate_read st dec d s g = (r, s') \<Longrightarrow> stream s' = stream s"
  using load_frame by (fastforce simp: mutate_read_def split: prod.splits sum.splits)

lemma mutate_read_inv: "inv s \<Longrightarrow> mutate_read st dec d s g = (r, s') \<Longrightarrow> inv s'"
  using load_inv by (fastforce simp: mutate_read_def split: prod.splits sum.splits)

text \<open>A write on an outdated version leaves the streams alone; a write that lands was decided on
  the state it lands on.\<close>

lemma mutate_write_ledger:
  assumes "inv s" and "ledger (stream s)" and "holds_decision (stream s) c acc e"
    and "reversal_limited c" and "length (stream s g) < history_limit"
    and "mutate_write st s g acc e = (r, s')"
  shows "inv s' \<and> ledger (stream s') \<and> (r \<noteq> None \<and> stream s' = stream s \<or>
      (\<exists>f. stored_as e f \<and> stream s' = (stream s)(g := stream s g @ [f])))"
proof (cases "aID acc = g")
  case False
  then have "eAggregateID e \<noteq> g" using assms(3) by (auto simp: holds_decision_def dest: decide_event(1))
  from append_mismatch [OF assms(1) this] assms(2,6) show ?thesis by (auto simp: mutate_write_def)
next
  case True
  obtain n d where n: "n \<le> length (stream s g)" "history (take n (stream s g)) acc" "aID acc = g"
      "decide d c acc = Inr e"
    using assms(3) True by (auto simp: holds_decision_def)
  have val: "valid g" using stream_valid [OF assms(1)] history_nonempty [OF n(2)] by (metis take_Nil)
  have v: "Version acc = of_nat n" using history_Version [OF n(2)] n(1) by simp
  then have app: "Append st s g (of_nat n) [e] = (r, s')"
    using assms(6) by (simp add: mutate_write_def)
  have cont: "continues g (of_nat n) [e]" using decided_continues [OF n(4)] n(3) v by simp
  from append_atomic [OF assms(1) val n(1) _ _ cont _ app] assms(5) decided_encoded [OF n(4)]
  have at: "inv s'" "r \<noteq> None \<and> stream s' = stream s \<or> n = length (stream s g) \<and>
      (\<exists>f. stored_as e f \<and> stream s' = (stream s)(g := stream s g @ [f]))"
    by (auto simp: stamped_Cons)
  have led: "ledger ((stream s)(g := stream s g @ [f]))" if "n = length (stream s g)" "stored_as e f" for f
    using that n history_nonempty [OF n(2)] history_Replay [OF n(2)] assms(2,4)
    by (intro ledger_decided [of _ _ acc d c]) auto
  show ?thesis using at led assms(2) by auto
qed

lemma open_account_ledger:
  assumes "inv s" and "ledger (stream s)" and "length (stream s (NewID (rnd (draws env 0)))) + 2 \<le> history_limit"
    and "length (rnd (draws env 0)) = 16" and "appStore app = st" and "app_OpenAccount app env owner amount (s, b) = (r, s', b')"
  shows "inv s' \<and> ledger (stream s') \<and> (\<forall>g. \<exists>fs. stream s' g = stream s g @ fs)"
    and "stream s g \<noteq> [] \<Longrightarrow> stream s' g = stream s g"
proof -
  let ?g = "NewID (rnd (draws env 0))"
  have *: "inv s' \<and> (stream s' = stream s \<or> (stream s ?g = [] \<and>
      (\<exists>es fs. opening_events (draws env) ?g owner amount = Inr es \<and> stamped es fs \<and>
        stream s' = (stream s)(?g := fs))))"
  proof (cases "opening_events (draws env) ?g owner amount")
    case (Inl err)
    then show ?thesis using assms by (auto simp: app_OpenAccount_def Let_def split: if_splits)
  next
    case (Inr es)
    show ?thesis
    proof (cases "sint amount < 0")
      case True
      then show ?thesis using assms by (auto simp: app_OpenAccount_def)
    next
      case False
      obtain q s1 where q: "Append st s ?g 0 es = (q, s1)" by (metis surj_pair)
      have "s' = s1"
        using assms(5,6) False Inr q by (auto simp: app_OpenAccount_def Let_def split: option.splits)
      moreover have "length (stream s ?g) + length es \<le> history_limit"
        using assms(3) opening_events_nonempty [OF Inr] by simp
      ultimately show ?thesis
        using append_atomic [OF assms(1) valid_NewID [OF assms(4)], of 0 es q s1] q opening_events_nonempty [OF Inr]
          opening_events_continue [OF Inr] opening_events_encoded [OF Inr] Inr by auto
    qed
  qed
  from * show "inv s' \<and> ledger (stream s') \<and> (\<forall>g. \<exists>fs. stream s' g = stream s g @ fs)"
    using assms(2) opening_events_history [OF _ NewID_nonempty] unfolding ledger_def by (auto; blast)
  from * show "stream s g \<noteq> [] \<Longrightarrow> stream s' g = stream s g" by auto
qed

end

section \<open>A single caller\<close>

text \<open>
  What \<^const>\<open>mutate\<close> does when nobody interferes and the store does not fail, as a relation
  between the streams before and after: the account is missing, the decision is refused, or
  the decided event is appended and published.
\<close>

definition mutate_result ::
    "('b \<Rightarrow> Event \<Rightarrow> 'b) \<Rightarrow> draw \<Rightarrow> string \<Rightarrow> command \<Rightarrow> (string \<Rightarrow> Event list) \<Rightarrow> 'b
      \<Rightarrow> error option \<Rightarrow> (string \<Rightarrow> Event list) \<Rightarrow> 'b \<Rightarrow> bool" where
  "mutate_result pub d g c str b r str' b' \<longleftrightarrow>
     str g = [] \<and> r = Some ErrAccountNotFound \<and> str' = str \<and> b' = b \<or>
     (\<exists>acc. history (str g) acc \<and> aID acc = g \<and>
        (case decide d c acc of
           Inl err \<Rightarrow> r = Some err \<and> str' = str \<and> b' = b
         | Inr e \<Rightarrow> r = None \<and> (\<exists>f. stored_as e f \<and> eID f = eID e \<and> str' = str(g := str g @ [f])) \<and> b' = pub b e))"

text \<open>An event id that no stored event has.\<close>

definition fresh_draw :: "(string \<Rightarrow> Event list) \<Rightarrow> draw \<Rightarrow> bool" where
  "fresh_draw str d \<longleftrightarrow> (\<forall>g. NewID (rnd d) \<notin> eID ` set (str g))"

lemma mutate_unfold:
  "mutate app (quiet dr) g dec (s, b) =
     (case mutate_read (appStore app) dec (dr 0) s g of
        (Inl err, s1) \<Rightarrow> (Some err, s1, b)
      | (Inr (acc, e), s1) \<Rightarrow>
          (case mutate_write (appStore app) s1 g acc e of
             (None, s2) \<Rightarrow> (None, s2, appPublish app b e)
           | (Some err, s2) \<Rightarrow>
               if \<not> errors_Is err ErrConcurrency then (Some err, s2, b)
               else mutate_from app (quiet dr) dec g 4 1 (s2, b)))"
  by (simp add: mutate_def maxRetries_def quiet_def eval_nat_numeral split: prod.splits sum.splits option.splits)

context reliable_store
begin

lemma mutate_write_reliable:
  assumes "inv s" and "holds_decision (stream s) c acc e" and "length (stream s g) < history_limit"
    and "mutate_write st s g acc e = (r, s')"
  shows "(r = None \<longrightarrow> (\<exists>f. stored_as e f \<and> stream s' = (stream s)(g := stream s g @ [f]))) \<and>
    (r \<noteq> None \<longrightarrow> stream s' = stream s)"
proof (cases "aID acc = g")
  case False
  then have "eAggregateID e \<noteq> g" using assms(2) by (auto simp: holds_decision_def dest: decide_event(1))
  from append_mismatch [OF assms(1) this] assms(4) show ?thesis by (auto simp: mutate_write_def)
next
  case True
  obtain n d where n: "n \<le> length (stream s g)" "history (take n (stream s g)) acc" "aID acc = g"
      "decide d c acc = Inr e"
    using assms(2) True by (auto simp: holds_decision_def)
  have val: "valid g" using stream_valid [OF assms(1)] history_nonempty [OF n(2)] by (metis take_Nil)
  have v: "Version acc = of_nat n" using history_Version [OF n(2)] n(1) by simp
  have app: "Append st s g (of_nat n) [e] = (r, s')" using assms(4) v by (simp add: mutate_write_def)
  have cont: "continues g (of_nat n) [e]" using decided_continues [OF n(4)] n(3) v by simp
  show ?thesis
  proof (cases r)
    case None
    then show ?thesis
      using append_atomic [OF assms(1) val n(1) _ _ cont _ app] assms(3) decided_encoded [OF n(4)] by (auto simp: stamped_Cons)
  next
    case (Some err)
    then show ?thesis using append_refused [OF assms(1) n(1) _ _ cont] app assms(3) by simp
  qed
qed

lemma mutate_quiet:
  assumes "inv s" and "ledger (stream s)" and "length (stream s g) < history_limit"
    and "fresh_draw (stream s) (dr 0)" and "appStore app = st"
    and "mutate app (quiet dr) g (\<lambda>d acc. decide d c acc) (s, b) = (r, s', b')"
  shows "inv s'" and "mutate_result (appPublish app) (dr 0) g c (stream s) b r (stream s') b'"
    and "reversal_limited c \<Longrightarrow> ledger (stream s')"
proof -
  obtain l s1 where l: "Load st s g = (l, s1)" by (metis surj_pair)
  have s1: "inv s1" "stream s1 = stream s" using load_inv [OF assms(1) l] load_frame [OF l] .
  have lv: "l = (if stream s g = [] then Inl ErrAccountNotFound else Replay zero_Account (stream s g))"
    using load_total [OF assms(1), of g] l by simp
  note unf = assms(6) [unfolded mutate_unfold mutate_read_def assms(5) l]
  have all: "inv s' \<and> mutate_result (appPublish app) (dr 0) g c (stream s) b r (stream s') b' \<and>
      (reversal_limited c \<longrightarrow> ledger (stream s'))"
  proof (cases "stream s g = []")
    case True
    then show ?thesis using unf lv s1 assms(2) by (auto simp: mutate_result_def)
  next
    case False
    with assms(2) obtain acc where acc: "history (stream s g) acc" "aID acc = g" by (auto simp: ledger_def)
    have la: "l = Inr acc" using lv False history_Replay [OF acc(1)] by simp
    show ?thesis
    proof (cases "decide (dr 0) c acc")
      case (Inl err)
      then show ?thesis using unf la s1 acc assms(2) by (auto simp: mutate_result_def)
    next
      case (Inr e)
      have v: "Version acc = of_nat (length (stream s1 g))" using history_Version [OF acc(1)] s1 by simp
      have cont: "continues g (of_nat (length (stream s1 g))) [e]"
        using decided_continues [OF Inr] acc(2) v by simp
      have "fst (Append st s1 g (Version acc) [e]) = None"
        unfolding v using s1 assms(3,4) cont decide_event(4) [OF Inr]
        by (intro append_ok) (auto simp: fresh_draw_def)
      then obtain s2 where s2: "Append st s1 g (Version acc) [e] = (None, s2)" by (metis prod.collapse)
      then have "r = None" "s' = s2" "b' = appPublish app b e"
        using unf la Inr by (auto simp: mutate_write_def)
      moreover obtain f where f: "inv s2" "stored_as e f" "stream s2 = (stream s)(g := stream s g @ [f])"
        using append_atomic [OF s1(1) stream_valid [OF assms(1) False] _ _ _ cont, of None s2] s2 v s1(2) assms(3) decided_encoded [OF Inr]
        by (auto simp: stamped_Cons)
      moreover have "eID f = eID e" using append_ids [OF s1(1) s2, of "[f]"] f(3) s1(2) by simp
      moreover have "reversal_limited c \<Longrightarrow> ledger ((stream s)(g := stream s g @ [f]))"
        using ledger_decided [OF assms(2) False history_Replay [OF acc(1)] Inr _ f(2)] .
      ultimately show ?thesis
        using acc Inr f(2) unfolding mutate_result_def by (intro conjI disjI2 exI [of _ acc]) auto
    qed
  qed
  then show "inv s'" and "mutate_result (appPublish app) (dr 0) g c (stream s) b r (stream s') b'"
    and "reversal_limited c \<Longrightarrow> ledger (stream s')" by blast+
qed

text \<open>The duplicate check of the saga commands, then the mutation.\<close>

definition seen :: "(string \<Rightarrow> Event list) \<Rightarrow> EventType \<Rightarrow> string \<Rightarrow> bool" where
  "seen str ty tid \<longleftrightarrow> (\<exists>g. \<exists>e \<in> set (str g). eType e = ty \<and> transfer_of e = tid)"

lemma seen_upd: "seen (str(g := str g @ [e])) ty tid \<longleftrightarrow> seen str ty tid \<or> eType e = ty \<and> transfer_of e = tid"
  by (auto simp: seen_def split: if_splits; metis)

lemma checked_quiet:
  assumes "inv s" and "ledger (stream s)" and "length (stream s g) < history_limit" and "tid \<noteq> []"
    and "fresh_draw (stream s) (dr 0)" and "appStore app = st"
    and "(case HasTransferEvent (appStore app) s ty tid of
           (Inl err, s1) \<Rightarrow> (Some err, s1, b)
         | (Inr True, s1) \<Rightarrow> (None, s1, b)
         | (Inr False, s1) \<Rightarrow> mutate app (quiet dr) g (\<lambda>d acc. decide d c acc) (s1, b)) = (r, s', b')"
  shows "inv s'" and "reversal_limited c \<Longrightarrow> ledger (stream s')"
    and "seen (stream s) ty tid \<Longrightarrow> r = None \<and> stream s' = stream s \<and> b' = b"
    and "\<not> seen (stream s) ty tid \<Longrightarrow>
      mutate_result (appPublish app) (dr 0) g c (stream s) b r (stream s') b'"
proof -
  obtain h s1 where h: "HasTransferEvent st s ty tid = (h, s1)" by (metis surj_pair)
  have s1: "inv s1" "stream s1 = stream s"
    using has_transfer_inv [OF assms(1) h] has_transfer_frame [OF h] .
  have hv: "h = Inr (seen (stream s) ty tid)"
    using has_transfer [OF assms(1,4), of ty] h by (simp add: seen_def)
  have s1': "ledger (stream s1)" "length (stream s1 g) < history_limit" "fresh_draw (stream s1) (dr 0)"
    using s1(2) assms(2,3,5) by auto
  note run = assms(7) [unfolded assms(6) h hv]
  have fin: "r = None \<and> s' = s1 \<and> b' = b" if "seen (stream s) ty tid"
    using run that by auto
  have mut: "mutate app (quiet dr) g (\<lambda>d acc. decide d c acc) (s1, b) = (r, s', b')" if "\<not> seen (stream s) ty tid"
    using run that by simp
  note mq = mutate_quiet [OF s1(1) s1' assms(6) mut]
  show "inv s'" using fin mq(1) s1(1) by (cases "seen (stream s) ty tid") auto
  show "ledger (stream s')" if "reversal_limited c"
    using fin mq(3) s1'(1) that by (cases "seen (stream s) ty tid") auto
  show "r = None \<and> stream s' = stream s \<and> b' = b" if "seen (stream s) ty tid"
    using fin that s1(2) by auto
  show "mutate_result (appPublish app) (dr 0) g c (stream s) b r (stream s') b'" if "\<not> seen (stream s) ty tid"
    using mq(2) that s1(2) by auto
qed

end

lemma decide_closures:
  "(\<lambda>d. decide d (CDeposit n desc)) = (\<lambda>d a. Deposit d a n desc)"
  "(\<lambda>d. decide d (CWithdraw n desc)) = (\<lambda>d a. Withdraw d a n desc)"
  "(\<lambda>d. decide d (CDebit tid to n)) = (\<lambda>d a. DebitTransfer d a tid to n)"
  "(\<lambda>d. decide d (CCredit tid from n)) = (\<lambda>d a. CreditTransfer d a tid from n)"
  "(\<lambda>d. decide d (CReverse tid n reason)) = (\<lambda>d a. ReverseTransfer d a tid n reason)"
  by (simp_all add: fun_eq_iff)

lemma quiet_checked [simp]: "checked (quiet dr) s = s"
  by (simp add: quiet_def)

lemma app_CreditTransfer_checked:
  "app_CreditTransfer app (quiet dr) to tid from amount (s, b) =
     (case HasTransferEvent (appStore app) s EventTransferCredited tid of
        (Inl err, s1) \<Rightarrow> (Some err, s1, b)
      | (Inr True, s1) \<Rightarrow> (None, s1, b)
      | (Inr False, s1) \<Rightarrow> mutate app (quiet dr) to (\<lambda>d acc. decide d (CCredit tid from amount) acc) (s1, b))"
  by (simp add: app_CreditTransfer_def decide_closures split: prod.split sum.split bool.split)

lemma app_ReverseTransfer_checked:
  "app_ReverseTransfer app (quiet dr) from tid amount reason (s, b) =
     (case HasTransferEvent (appStore app) s EventTransferReversed tid of
        (Inl err, s1) \<Rightarrow> (Some err, s1, b)
      | (Inr True, s1) \<Rightarrow> (None, s1, b)
      | (Inr False, s1) \<Rightarrow> mutate app (quiet dr) from (\<lambda>d acc. decide d (CReverse tid amount reason) acc) (s1, b))"
  by (simp add: app_ReverseTransfer_def decide_closures split: prod.split sum.split bool.split)

section \<open>Publication\<close>

text \<open>The event \<open>e\<close> was decided in some attempt, its append succeeded and left the store in state \<open>s'\<close>.\<close>

definition written_by ::
    "('s, 'b) App \<Rightarrow> 's env \<Rightarrow> string \<Rightarrow> (draw \<Rightarrow> Account \<Rightarrow> Event result) \<Rightarrow> Event \<Rightarrow> 's \<Rightarrow> bool" where
  "written_by app env g dec e s' \<longleftrightarrow>
     (\<exists>i acc s1. dec (draws env i) acc = Inr e \<and> Append (appStore app) s1 g (Version acc) [e] = (None, s'))"

lemma mutate_from_publishes:
  "mutate_from app env dec g left i (s, b) = (r, s', b') \<Longrightarrow>
     (if r = None then \<exists>e. b' = appPublish app b e \<and> written_by app env g dec e s' else b' = b)"
proof (induction left arbitrary: i s)
  case (Suc left)
  show ?case
  proof (cases "mutate_read (appStore app) dec (draws env i) s g")
    case (Pair x s1)
    show ?thesis
    proof (cases x)
      case (Inl err)
      then show ?thesis using Suc.prems Pair by auto
    next
      case (Inr y)
      obtain acc e where y: "y = (acc, e)" by force
      have dec: "dec (draws env i) acc = Inr e"
        using Pair Inr y by (auto simp: mutate_read_def split: prod.splits sum.splits)
      obtain w s2 where w: "mutate_write (appStore app) (between env i s1) g acc e = (w, s2)" by (metis surj_pair)
      have ok: "written_by app env g dec e s2" if "w = None"
        unfolding written_by_def using dec w that by (auto simp: mutate_write_def)
      show ?thesis
        using Suc.prems Suc.IH [of "Suc i" "waiting env i s2"] Pair Inr y w ok
        by (auto split: option.splits if_splits)
    qed
  qed
qed auto

text \<open>
  C11. Whatever the store does and whoever interferes, a command that reports success has
  published exactly one event, the one it decided and whose append succeeded, and a command
  that reports an error has published nothing.
\<close>

theorem mutate_publishes_iff_success:
  "case mutate app env g dec (s, b) of
     (None, s', b') \<Rightarrow> \<exists>e. b' = appPublish app b e \<and> written_by app env g dec e s'
   | (Some err, s', b') \<Rightarrow> b' = b"
  using mutate_from_publishes [of app env dec g maxRetries 0 s b]
  by (auto simp: mutate_def split: prod.split option.split)

end
