(* ===== verification/Samples.thy ===== *)
theory Samples
  imports App
begin

text \<open>
  Concrete inputs the examples of the development evaluate: draws whose bytes are all equal, an
  application over the in-memory store whose bus is a list of events, and a store with the
  two accounts \<open>ana\<close> (balance 100) and \<open>bea\<close> (balance 50).
\<close>

definition sample_draw :: "nat \<Rightarrow> draw" where
  "sample_draw n = \<lparr>rnd = replicate 16 (of_nat n), now = int n\<rparr>"

definition sample_env :: "nat \<Rightarrow> 's env" where
  "sample_env k = quiet (\<lambda>i. sample_draw (k + i))"

definition sample_app :: "(Memory, Event list) App" where
  "sample_app = \<lparr>appStore = memory_store, appPublish = (\<lambda>b e. b @ [e])\<rparr>"

definition ana :: string where "ana = ''01010101-0101-4101-8101-010101010101''"
definition bea :: string where "bea = ''04040404-0404-4404-8404-040404040404''"

definition ana_opened :: Event where
  "ana_opened = \<lparr>eID = ''02020202-0202-4202-8202-020202020202'', eAggregateID = ana, eVersion = 1,
     eType = ''account.opened'', eData = RawJSON (JObj [(''owner'', JStr ''ana'')]), eOccurredAt = 2, eSeq = 1\<rparr>"

definition ana_deposit :: Event where
  "ana_deposit = \<lparr>eID = ''03030303-0303-4303-8303-030303030303'', eAggregateID = ana, eVersion = 2,
     eType = ''money.deposited'',
     eData = RawJSON (JObj [(''amount'', JInt 100), (''description'', JStr ''initial deposit'')]),
     eOccurredAt = 3, eSeq = 2\<rparr>"

definition bea_opened :: Event where
  "bea_opened = \<lparr>eID = ''05050505-0505-4505-8505-050505050505'', eAggregateID = bea, eVersion = 1,
     eType = ''account.opened'', eData = RawJSON (JObj [(''owner'', JStr ''bea'')]), eOccurredAt = 5, eSeq = 3\<rparr>"

definition bea_deposit :: Event where
  "bea_deposit = \<lparr>eID = ''06060606-0606-4606-8606-060606060606'', eAggregateID = bea, eVersion = 2,
     eType = ''money.deposited'',
     eData = RawJSON (JObj [(''amount'', JInt 50), (''description'', JStr ''initial deposit'')]),
     eOccurredAt = 6, eSeq = 4\<rparr>"

definition two_accounts :: Memory where
  "two_accounts =
     \<lparr>streams = [ana \<mapsto> [ana_opened, ana_deposit], bea \<mapsto> [bea_opened, bea_deposit]],
      mlog = [ana_opened, ana_deposit, bea_opened, bea_deposit], mseq = 4, marks = Map.empty\<rparr>"

lemma NewID_sample: "NewID (rnd (sample_draw 1)) = ana" "NewID (rnd (sample_draw 4)) = bea"
  by code_simp+

lemma ana_bea [simp]: "ana \<noteq> bea" "bea \<noteq> ana" "ana \<noteq> []" "bea \<noteq> []"
  by (simp_all add: ana_def bea_def)

lemma opening_sample:
  "opening_events (\<lambda>i. sample_draw (1 + i)) ana ''ana'' 100 = Inr [ana_opened\<lparr>eSeq := 0\<rparr>, ana_deposit\<lparr>eSeq := 0\<rparr>]"
  "opening_events (\<lambda>i. sample_draw (4 + i)) bea ''bea'' 50 = Inr [bea_opened\<lparr>eSeq := 0\<rparr>, bea_deposit\<lparr>eSeq := 0\<rparr>]"
  by code_simp+

lemma two_accounts_stream:
  "mem_stream two_accounts = (\<lambda>_. [])(ana := [ana_opened, ana_deposit], bea := [bea_opened, bea_deposit])"
  by (simp add: fun_eq_iff mem_stream_def two_accounts_def)

lemma two_accounts_ok: "mem_inv two_accounts" "ledger (mem_stream two_accounts)"
proof -
  show "mem_inv two_accounts"
    unfolding mem_inv_def two_accounts_stream
    by (simp add: two_accounts_def ana_opened_def ana_deposit_def bea_opened_def bea_deposit_def)
  have "stamped [ana_opened\<lparr>eSeq := 0\<rparr>, ana_deposit\<lparr>eSeq := 0\<rparr>] [ana_opened, ana_deposit]"
    "stamped [bea_opened\<lparr>eSeq := 0\<rparr>, bea_deposit\<lparr>eSeq := 0\<rparr>] [bea_opened, bea_deposit]"
    using stamped_reset [of "[ana_opened, ana_deposit]"] stamped_reset [of "[bea_opened, bea_deposit]"] by simp_all
  with opening_events_history [OF opening_sample(1)] opening_events_history [OF opening_sample(2)]
  show "ledger (mem_stream two_accounts)"
    by (simp add: ledger_def two_accounts_stream)
qed

lemma two_accounts_length: "length (mem_stream two_accounts g) \<le> 2"
  by (simp add: two_accounts_stream)

text \<open>The same store after \<open>ana\<close> has started a transfer of 30 to \<open>bea\<close>.\<close>

definition sample_tid :: string where "sample_tid = ''07070707-0707-4707-8707-070707070707''"

definition ana_debit :: Event where
  "ana_debit = \<lparr>eID = ''08080808-0808-4808-8808-080808080808'', eAggregateID = ana, eVersion = 3,
     eType = ''transfer.debited'',
     eData = RawJSON (JObj [(''transfer_id'', JStr sample_tid), (''to'', JStr bea), (''amount'', JInt 30)]),
     eOccurredAt = 8, eSeq = 5\<rparr>"

definition transfer_started :: Memory where
  "transfer_started =
     \<lparr>streams = [ana \<mapsto> [ana_opened, ana_deposit, ana_debit], bea \<mapsto> [bea_opened, bea_deposit]],
      mlog = [ana_opened, ana_deposit, bea_opened, bea_deposit, ana_debit], mseq = 5, marks = Map.empty\<rparr>"

lemma transfer_started_stream:
  "mem_stream transfer_started = (mem_stream two_accounts)(ana := mem_stream two_accounts ana @ [(ana_debit\<lparr>eSeq := 0\<rparr>)\<lparr>eSeq := 5\<rparr>])"
  by (auto simp: fun_eq_iff mem_stream_def two_accounts_def transfer_started_def ana_debit_def)

lemma ana_replay:
  "Replay zero_Account [ana_opened, ana_deposit] =
     Inr \<lparr>aID = ana, Owner = ''ana'', Balance = 100, Open = True, Version = 2\<rparr>"
  by code_simp

lemma ana_debit_decided:
  "decide (sample_draw 8) (CDebit sample_tid bea 30)
     \<lparr>aID = ana, Owner = ''ana'', Balance = 100, Open = True, Version = 2\<rparr> = Inr (ana_debit\<lparr>eSeq := 0\<rparr>)"
  by code_simp

lemma transfer_started_ok: "mem_inv transfer_started" "ledger (mem_stream transfer_started)"
proof -
  show "mem_inv transfer_started"
    unfolding mem_inv_def transfer_started_stream two_accounts_stream
    by (simp add: transfer_started_def ana_opened_def ana_deposit_def bea_opened_def bea_deposit_def ana_debit_def)
  show "ledger (mem_stream transfer_started)"
    unfolding transfer_started_stream
    by (rule ledger_decided [OF two_accounts_ok(2) _ _ ana_debit_decided])
      (simp_all add: two_accounts_stream ana_replay reversal_limited_def stored_as_def del: Replay.simps)
qed

lemma fresh_in_log:
  "mem_inv s \<Longrightarrow> list_all (\<lambda>e. eID e \<noteq> NewID (rnd d)) (mlog s) \<Longrightarrow> fresh_draw (mem_stream s) d"
  by (auto simp: fresh_draw_def list_all_iff dest: mem_inv_stream_id)

lemma two_accounts_fresh:
  "fresh_draw (mem_stream two_accounts) (sample_draw 20)"
  by (rule fresh_in_log [OF two_accounts_ok(1)]) code_simp

lemma transfer_started_fresh:
  "fresh_draw (mem_stream transfer_started) (sample_draw 20)" "fresh_draw (mem_stream transfer_started) (sample_draw 21)"
  by (rule fresh_in_log [OF transfer_started_ok(1)], code_simp)+

lemma two_accounts_Load:
  "mem_Load two_accounts ana =
     (Inr \<lparr>aID = ana, Owner = ''ana'', Balance = 100, Open = True, Version = 2\<rparr>, two_accounts)"
  by (simp add: mem_Load_def Let_def two_accounts_stream ana_replay del: Replay.simps)

end
