(* ===== verification/App_Memory.thy ===== *)
theory App_Memory
  imports Samples
begin

text \<open>
  The commands of \<^verbatim>\<open>internal/app/app.go\<close> on the in-memory store, seen from a single caller: what
  each returns on every branch and what the next \<^verbatim>\<open>Load\<close> sees. The facts come from the
  interpretation of the store contract on \<^const>\<open>memory_store\<close>.
\<close>

section \<open>A mutation and the next load\<close>

text \<open>A store in a good state, with room for one more event in the stream of \<open>g\<close>, and an event id not used yet.\<close>

definition healthy :: "Memory \<Rightarrow> string \<Rightarrow> draw \<Rightarrow> bool" where
  "healthy s g d \<longleftrightarrow> mem_inv s \<and> ledger (mem_stream s) \<and> length (mem_stream s g) < history_limit \<and>
     fresh_draw (mem_stream s) d"

lemma healthy_mutate:
  assumes "healthy s g (dr 0)" and "mem_Load s g = (Inr a, s)" and "appStore app = memory_store"
    and "mutate app (quiet dr) g (\<lambda>d acc. decide d c acc) (s, b) = (r, s', b')"
  shows "mem_inv s'" and "aID a = g" and "Open a"
    and "decide (dr 0) c a = Inl err \<Longrightarrow> r = Some err \<and> mem_stream s' = mem_stream s \<and> b' = b"
    and "decide (dr 0) c a = Inr e \<Longrightarrow> r = None \<and> b' = appPublish app b e \<and>
      fst (mem_Load s' g) = Inr (a\<lparr>Balance := Balance a + word_of_int (cmd_delta c), Version := Version a + 1\<rparr>) \<and>
      (\<forall>h. h \<noteq> g \<longrightarrow> mem_stream s' h = mem_stream s h)"
proof -
  have h: "mem_inv s" "ledger (mem_stream s)" "length (mem_stream s g) < history_limit" "fresh_draw (mem_stream s) (dr 0)"
    using assms(1) by (auto simp: healthy_def)
  note mq = memory.mutate_quiet [OF h assms(3,4)]
  have a: "mem_stream s g \<noteq> []" "Replay zero_Account (mem_stream s g) = Inr a"
    using assms(2) by (auto simp: mem_Load_def Let_def split: if_splits)
  note la = ledger_account [OF h(2) a]
  show "mem_inv s'" "aID a = g" "Open a" using mq(1) la(2) history_open [OF la(1)] by simp_all
  have res: "case decide (dr 0) c a of
      Inl err \<Rightarrow> r = Some err \<and> mem_stream s' = mem_stream s \<and> b' = b
    | Inr e \<Rightarrow> r = None \<and> (\<exists>f. stored_as e f \<and> mem_stream s' = (mem_stream s)(g := mem_stream s g @ [f])) \<and> b' = appPublish app b e"
    using mq(2) a history_Replay unfolding mutate_result_def by (fastforce simp del: decide.simps split: sum.splits)
  show "r = Some err \<and> mem_stream s' = mem_stream s \<and> b' = b" if "decide (dr 0) c a = Inl err"
    using res that by simp
  show "r = None \<and> b' = appPublish app b e \<and>
      fst (mem_Load s' g) = Inr (a\<lparr>Balance := Balance a + word_of_int (cmd_delta c), Version := Version a + 1\<rparr>) \<and>
      (\<forall>h. h \<noteq> g \<longrightarrow> mem_stream s' h = mem_stream s h)" if "decide (dr 0) c a = Inr e"
    using res that a by (auto simp: mem_Load_def Let_def Replay_snoc Apply_stored decide_Apply [OF that])
qed

lemma healthy_append:
  assumes "healthy s g d" and "mem_Load s g = (Inr a, s)" and "decide d c a = Inr e"
  shows "fst (Append memory_store s g (Version a) [e]) = None"
proof -
  have h: "mem_inv s" "ledger (mem_stream s)" using assms(1) by (auto simp: healthy_def)
  have a: "mem_stream s g \<noteq> []" "Replay zero_Account (mem_stream s g) = Inr a"
    using assms(2) by (auto simp: mem_Load_def Let_def split: if_splits)
  note la = ledger_account [OF h(2) a]
  have "continues g (of_nat (length (mem_stream s g))) [e]"
    using decided_continues [OF assms(3)] la(2,3) by simp
  then show ?thesis unfolding la(3) by (simp add: memory_store_def mem_Append_ok)
qed

section \<open>Withdraw\<close>

definition withdraw_error :: "Account \<Rightarrow> int64 \<Rightarrow> error option" where
  "withdraw_error a n =
     (if sint n \<le> 0 then Some ErrInvalidAmount
      else if 100000000 < sint n then Some ErrAmountTooLarge
      else if sint (Balance a) < sint n then Some ErrInsufficientFunds
      else None)"

text \<open>
  C8. A withdrawal by a single caller, on every branch: it is refused for a non-positive
  amount, an amount above the limit, or an amount above the balance, in this order, and then
  no stream changes and nothing is published; otherwise the next load sees the balance
  reduced by the amount and the version raised by one, no other account changes, and one
  event is published.
\<close>

theorem withdraw_outcome:
  assumes "healthy s g (dr 0)" and "mem_Load s g = (Inr a, s)" and "appStore app = memory_store"
    and "app_Withdraw app (quiet dr) g n desc (s, b) = (r, s', b')"
  shows "r = withdraw_error a n \<and>
    (if r = None then (\<exists>e. b' = appPublish app b e \<and> eType e = EventMoneyWithdrawn) \<and>
        fst (mem_Load s' g) = Inr (a\<lparr>Balance := Balance a - n, Version := Version a + 1\<rparr>) \<and>
        (\<forall>h. h = g \<or> mem_stream s' h = mem_stream s h)
     else mem_stream s' = mem_stream s \<and> b' = b)"
proof -
  have run: "mutate app (quiet dr) g (\<lambda>d acc. decide d (CWithdraw n desc) acc) (s, b) = (r, s', b')"
    using assms(4) by (simp add: app_Withdraw_def decide_closures)
  note hm = healthy_mutate [OF assms(1-3) run]
  have ne: "aID a \<noteq> []" "Open a"
    using hm(3) ledger_account(1) assms(1,2) history_open
    by (fastforce simp: healthy_def mem_Load_def Let_def split: if_splits)+
  show ?thesis
  proof (cases "withdraw_error a n")
    case None
    then obtain e where e: "decide (dr 0) (CWithdraw n desc) a = Inr e"
      using ne by (auto simp: withdraw_error_def decide_simps NewEvent_def split: if_splits)
    with hm(5) [OF e] None decide_event(3) [OF e] show ?thesis
      by (auto simp: cmd_delta_def wi_hom_syms simp del: decide.simps)
  next
    case (Some err)
    then have "decide (dr 0) (CWithdraw n desc) a = Inl err"
      using ne by (auto simp: withdraw_error_def decide_simps split: if_splits)
    with hm(4) Some show ?thesis by auto
  qed
qed

lemma two_accounts_healthy: "healthy two_accounts ana (sample_draw 20)"
  using two_accounts_length [of ana]
  by (simp add: healthy_def two_accounts_ok two_accounts_fresh history_limit_def)

theorem withdraw_outcome_witness:
  "\<exists>r s' b'. app_Withdraw sample_app (quiet (\<lambda>i. sample_draw (20 + i))) ana 80 [] (two_accounts, []) = (r, s', b') \<and>
     r = None \<and> fst (mem_Load s' ana) = Inr \<lparr>aID = ana, Owner = ''ana'', Balance = 20, Open = True, Version = 3\<rparr>"
proof -
  obtain r s' b' where
    run: "app_Withdraw sample_app (quiet (\<lambda>i. sample_draw (20 + i))) ana 80 [] (two_accounts, []) = (r, s', b')"
    by (metis prod_cases3)
  show ?thesis
    using withdraw_outcome [OF _ two_accounts_Load _ run] two_accounts_healthy run
    by (auto simp: withdraw_error_def sample_app_def)
qed

section \<open>OpenAccount\<close>

definition open_error :: "string \<Rightarrow> int64 \<Rightarrow> error option" where
  "open_error owner n =
     (if sint n < 0 then Some ErrInvalidAmount
      else if TrimSpace owner = [] then Some ErrOwnerRequired
      else if 100000000 < sint n then Some ErrAmountTooLarge
      else None)"

definition opened_account :: "string \<Rightarrow> string \<Rightarrow> int64 \<Rightarrow> Account" where
  "opened_account i owner n =
     \<lparr>aID = i, Owner = TrimSpace owner, Balance = n, Open = True, Version = (if n = 0 then 1 else 2)\<rparr>"

lemma OpenAccount_ok: "TrimSpace owner \<noteq> [] \<Longrightarrow> \<exists>e. OpenAccount d i owner = Inr e"
  by (simp add: OpenAccount_def NewEvent_def)

lemma opening_events_result:
  assumes "0 \<le> sint n" and "i \<noteq> []"
  shows "(case open_error owner n of
      Some err \<Rightarrow> opening_events dr i owner n = Inl err
    | None \<Rightarrow> \<exists>es. opening_events dr i owner n = Inr es \<and> Replay zero_Account es = Inr (opened_account i owner n) \<and>
        length es = (if n = 0 then 1 else 2))"
proof (cases "TrimSpace owner = []")
  case True
  then show ?thesis using assms by (simp add: open_error_def opening_events_def OpenAccount_def)
next
  case False
  from OpenAccount_ok [OF False] obtain e where e: "OpenAccount (dr 1) i owner = Inr e" by blast
  let ?a = "zero_Account\<lparr>aID := i, Owner := TrimSpace owner, Open := True, Version := 1\<rparr>"
  have a: "Apply zero_Account e = Inr ?a" by (rule OpenAccount_event(6) [OF e])
  have z: "sint n = 0 \<longleftrightarrow> n = 0" by (rule signed_eq_0_iff)
  show ?thesis
  proof (cases "0 < sint n \<and> sint n \<le> 100000000")
    case True
    then obtain f where f: "decide (dr 2) (CDeposit n ''initial deposit'') ?a = Inr f"
      using assms(2) by (auto simp: decide_simps NewEvent_def zero_Account_def)
    then show ?thesis
      using True False e a z decide_Apply [OF f, of ?a]
      by (simp add: open_error_def opening_events_def opened_account_def zero_Account_def cmd_delta_def)
  next
    case out: False
    then show ?thesis
      using False assms e a z
      by (auto simp: open_error_def opening_events_def opened_account_def zero_Account_def decide_simps)
  qed
qed

text \<open>
  C9. Opening an account, on every branch: a negative initial deposit, a blank owner and an
  initial deposit above the limit are refused, in this order, and nothing is written or
  published. Otherwise the new account loads under the returned id with the trimmed owner,
  the initial deposit as balance, and version 1 or 2; no other stream changes.
\<close>

theorem open_account_outcome:
  assumes "mem_stream s (NewID (rnd (dr 0))) = []" and "appStore app = memory_store"
    and "app_OpenAccount app (quiet dr) owner n (s, b) = (r, s', b')"
  shows "case open_error owner n of
      Some err \<Rightarrow> r = Inl err \<and> s' = s \<and> b' = b
    | None \<Rightarrow> (let i = NewID (rnd (dr 0)) in r = Inr i \<and> fst (mem_Load s' i) = Inr (opened_account i owner n) \<and>
        (\<forall>h. h = i \<or> mem_stream s' h = mem_stream s h))"
proof (cases "sint n < 0")
  case True
  then show ?thesis using assms(3) by (simp add: open_error_def app_OpenAccount_def)
next
  case neg: False
  let ?i = "NewID (rnd (dr 0))"
  note oe = opening_events_result [where n = n and i = ?i and owner = owner and dr = dr]
  show ?thesis
  proof (cases "open_error owner n")
    case (Some err)
    then show ?thesis using assms(3) neg oe by (auto simp: app_OpenAccount_def Let_def quiet_def)
  next
    case None
    with oe neg obtain es where es: "opening_events dr ?i owner n = Inr es"
        "Replay zero_Account es = Inr (opened_account ?i owner n)" by auto
    have st: "Replay zero_Account (stamp_from q es) = Inr (opened_account ?i owner n)" for q
      using es(2) by (simp add: Replay_stamp_from)
    have "es \<noteq> []" using opening_events_nonempty [OF es(1)] by simp
    then show ?thesis
      using assms neg None es(1) st mem_Append_ok [of ?i s es] opening_events_continue [OF es(1)]
      by (auto simp: app_OpenAccount_def Let_def quiet_def memory_store_def mem_Load_def mem_stream_def
        split: if_splits)
  qed
qed

theorem open_account_outcome_witness:
  "\<exists>r s' b'. app_OpenAccount sample_app (quiet (\<lambda>i. sample_draw (20 + i))) ''carla'' 70 (two_accounts, []) = (r, s', b') \<and>
     (\<exists>i. r = Inr i \<and> fst (mem_Load s' i) = Inr (opened_account i ''carla'' 70))"
proof -
  obtain r s' b' where
    run: "app_OpenAccount sample_app (quiet (\<lambda>i. sample_draw (20 + i))) ''carla'' 70 (two_accounts, []) = (r, s', b')"
    by (metis prod_cases3)
  have "mem_stream two_accounts (NewID (rnd (sample_draw 20))) = []" "open_error ''carla'' 70 = None" by code_simp+
  then show ?thesis
    using open_account_outcome [OF _ _ run] run by (auto simp: sample_app_def Let_def)
qed

section \<open>Credits and reversals of a transfer\<close>

lemma memory_seen:
  "mem_inv s \<Longrightarrow> memory.seen (mem_stream s) ty tid \<longleftrightarrow> (\<exists>e \<in> set (mlog s). eType e = ty \<and> transferIDOf e = tid)"
  by (simp add: memory.seen_def mem_inv_ex)

text \<open>
  The duplicate check of calls that follow one another: once the log holds a credit (a reversal) of a
  transfer, another \<open>CreditTransfer\<close> (\<open>ReverseTransfer\<close>) of it succeeds without writing or publishing
  anything, whatever the other arguments.
\<close>

lemma repeated_call_is_noop:
  assumes "f \<in> set (mlog s)" and "appStore app = memory_store"
  shows "(eType f = EventTransferCredited \<longrightarrow>
      app_CreditTransfer app env to (transferIDOf f) from n (s, b) = (None, s, b)) \<and>
    (eType f = EventTransferReversed \<longrightarrow>
      app_ReverseTransfer app env from (transferIDOf f) n reason (s, b) = (None, s, b))"
proof -
  have "list_ex (\<lambda>e. eType e = eType f \<and> transferIDOf e = transferIDOf f) (mlog s)"
    using assms(1) by (auto simp: list_ex_iff)
  then show ?thesis
    using assms(2)
    by (auto simp: app_CreditTransfer_def app_ReverseTransfer_def memory_store_def mem_HasTransferEvent_def)
qed

definition bea_credit :: Event where
  "bea_credit = \<lparr>eID = ''09090909-0909-4909-8909-090909090909'', eAggregateID = bea, eVersion = 3,
     eType = ''transfer.credited'',
     eData = RawJSON (JObj [(''transfer_id'', JStr sample_tid), (''from'', JStr ana), (''amount'', JInt 30)]),
     eOccurredAt = 9, eSeq = 6\<rparr>"

definition transfer_done :: Memory where
  "transfer_done = transfer_started\<lparr>streams := (streams transfer_started)(bea \<mapsto> [bea_opened, bea_deposit, bea_credit]),
     mlog := mlog transfer_started @ [bea_credit], mseq := 6\<rparr>"

definition rival_credit :: "Memory \<Rightarrow> Memory" where
  "rival_credit s = fst (snd (app_CreditTransfer sample_app (sample_env 30) bea sample_tid ana 30 (s, [])))"

definition double_credit :: "error option \<times> Memory \<times> Event list" where
  "double_credit = app_CreditTransfer sample_app ((sample_env 40)\<lparr>checked := rival_credit\<rparr>) bea sample_tid ana 30
     (transfer_started, [])"

text \<open>
  C17. The check does not hold for deliveries that overlap: between the duplicate check of one
  \<open>CreditTransfer\<close> and its append, a second delivery of the same transfer passes the same check
  and credits the account. Both calls return success, the log then holds two credits of one
  transfer, and the balance of the destination has grown by twice the amount.
\<close>

theorem overlapping_credits_pay_twice:
  "fst double_credit = None \<and>
   fst (mem_Load transfer_started bea) = Inr \<lparr>aID = bea, Owner = ''bea'', Balance = 50, Open = True, Version = 2\<rparr> \<and>
   fst (mem_Load (fst (snd double_credit)) bea) = Inr \<lparr>aID = bea, Owner = ''bea'', Balance = 110, Open = True, Version = 4\<rparr> \<and>
   map transferIDOf (filter (\<lambda>e. eType e = EventTransferCredited) (mlog (fst (snd double_credit)))) = [sample_tid, sample_tid]"
proof (intro conjI)
  show "fst double_credit = None" by code_simp
  show "fst (mem_Load transfer_started bea) = Inr \<lparr>aID = bea, Owner = ''bea'', Balance = 50, Open = True, Version = 2\<rparr>"
    by code_simp
  show "fst (mem_Load (fst (snd double_credit)) bea) = Inr \<lparr>aID = bea, Owner = ''bea'', Balance = 110, Open = True, Version = 4\<rparr>"
    by code_simp
  show "map transferIDOf (filter (\<lambda>e. eType e = EventTransferCredited) (mlog (fst (snd double_credit)))) = [sample_tid, sample_tid]"
    by code_simp
qed

section \<open>Retries\<close>

text \<open>What the other goroutines do to the store during \<open>n\<close> failed attempts, from attempt \<open>i\<close> on.\<close>

fun rivals :: "'s env \<Rightarrow> nat \<Rightarrow> nat \<Rightarrow> 's \<Rightarrow> 's" where
  "rivals env 0 i s = s"
| "rivals env (Suc n) i s = rivals env n (Suc i) (waiting env i (between env i s))"

text \<open>Attempt \<open>i\<close> decides on the state \<open>s\<close>, but the stream has changed its length before the append.\<close>

definition overtaken :: "Memory env \<Rightarrow> (draw \<Rightarrow> Account \<Rightarrow> Event result) \<Rightarrow> string \<Rightarrow> nat \<Rightarrow> Memory \<Rightarrow> bool" where
  "overtaken env dec g i s \<longleftrightarrow> cancelled env i = None \<and>
     (case mutate_read memory_store dec (draws env i) s g of
        (Inl err, _) \<Rightarrow> False
      | (Inr (acc, e), s1) \<Rightarrow> of_nat (length (mem_stream (between env i s1) g)) \<noteq> Version acc)"

lemma mem_mutate_read: "mutate_read memory_store dec d s g = (r, s1) \<Longrightarrow> s1 = s"
  by (auto simp: mutate_read_def memory_store_def mem_Load_def Let_def split: prod.splits sum.splits if_splits)

lemma mutate_from_overtaken:
  assumes "overtaken env dec g i s" and "appStore app = memory_store"
  shows "mutate_from app env dec g (Suc left) i (s, b) =
    mutate_from app env dec g left (Suc i) (waiting env i (between env i s), b)"
proof -
  from assms(1) obtain acc e where r: "mutate_read memory_store dec (draws env i) s g = (Inr (acc, e), s)"
      "of_nat (length (mem_stream (between env i s) g)) \<noteq> Version acc" "cancelled env i = None"
    using mem_mutate_read by (auto simp: overtaken_def split: prod.splits sum.splits; metis)
  then have "mutate_write memory_store (between env i s) g acc e = (Some ErrConcurrency, between env i s)"
    by (simp add: mutate_write_def memory_store_def mem_Append_outdated)
  then show ?thesis using r assms(2) by simp
qed

lemma mutate_from_skip:
  "(\<And>k. k < n \<Longrightarrow> overtaken env dec g (i + k) (rivals env k i s)) \<Longrightarrow> appStore app = memory_store \<Longrightarrow>
     mutate_from app env dec g (n + left) i (s, b) = mutate_from app env dec g left (i + n) (rivals env n i s, b)"
proof (induction n arbitrary: i s)
  case (Suc n)
  let ?s = "waiting env i (between env i s)"
  have "overtaken env dec g i s" using Suc.prems(1) [of 0] by simp
  moreover have "overtaken env dec g (Suc i + k) (rivals env k (Suc i) ?s)" if "k < n" for k
    using Suc.prems(1) [of "Suc k"] that by simp
  ultimately show ?case
    using Suc.IH [of "Suc i" ?s] Suc.prems(2) mutate_from_overtaken [OF _ Suc.prems(2)] by simp
qed simp

text \<open>
  C14. Bounded retries: a command whose stream is overtaken at each of the five attempts gives up
  with \<open>ErrTooManyConflicts\<close>; it has written and published nothing, so the store is as
  the other goroutines left it.
\<close>

theorem mutate_gives_up:
  assumes "\<And>k. k < maxRetries \<Longrightarrow> overtaken env dec g k (rivals env k 0 s)" and "appStore app = memory_store"
  shows "mutate app env g dec (s, b) = (Some ErrTooManyConflicts, rivals env maxRetries 0 s, b)"
proof -
  have "mutate_from app env dec g (maxRetries + 0) 0 (s, b) =
      mutate_from app env dec g 0 (0 + maxRetries) (rivals env maxRetries 0 s, b)"
    using assms(1) by (intro mutate_from_skip [OF _ assms(2)]) simp
  then show ?thesis by (simp add: mutate_def)
qed

text \<open>A rival that appends a deposit to \<open>ana\<close> before every append of the caller.\<close>

definition rival_deposit :: "nat \<Rightarrow> Memory \<Rightarrow> Memory" where
  "rival_deposit i s = (let v = of_nat (length (mem_stream s ana))
     in snd (mem_Append s ana v [ana_deposit\<lparr>eVersion := v + 1\<rparr>]))"

definition contended :: "Memory env" where
  "contended = (sample_env 20)\<lparr>between := rival_deposit\<rparr>"

definition withdraw10 :: "draw \<Rightarrow> Account \<Rightarrow> Event result" where
  "withdraw10 d acc = Withdraw d acc 10 []"

lemma contended_overtaken:
  "overtaken contended withdraw10 ana 0 (rivals contended 0 0 two_accounts)"
  "overtaken contended withdraw10 ana 1 (rivals contended 1 0 two_accounts)"
  "overtaken contended withdraw10 ana 2 (rivals contended 2 0 two_accounts)"
  "overtaken contended withdraw10 ana 3 (rivals contended 3 0 two_accounts)"
  "overtaken contended withdraw10 ana 4 (rivals contended 4 0 two_accounts)"
  by code_simp+

theorem mutate_gives_up_witness:
  "mutate sample_app contended ana withdraw10 (two_accounts, []) =
     (Some ErrTooManyConflicts, rivals contended 5 0 two_accounts, [])"
proof -
  have "overtaken contended withdraw10 ana k (rivals contended k 0 two_accounts)" if "k < maxRetries" for k
  proof -
    have "k = 0 \<or> k = 1 \<or> k = 2 \<or> k = 3 \<or> k = 4" using that by (auto simp: maxRetries_def)
    then show ?thesis using contended_overtaken by auto
  qed
  from mutate_gives_up [OF this, where app = sample_app and b = "[]"] show ?thesis
    by (simp add: sample_app_def maxRetries_def)
qed

text \<open>
  C6. A retry decides on the refreshed state: a command overtaken at its first \<open>n\<close> attempts,
  fewer than five, and left alone at the next one behaves there as a command of a single
  caller; it decides on the account the rivals have left, so a withdrawal that no longer
  has funds is refused and one that has is written once.
\<close>

theorem mutate_retries:
  assumes "n < maxRetries" and "\<And>k. k < n \<Longrightarrow> overtaken env (\<lambda>d acc. decide d c acc) g k (rivals env k 0 s)"
    and "appStore app = memory_store" and "between env n = (\<lambda>s. s)" and "s1 = rivals env n 0 s"
    and "healthy s1 g (draws env n)" and "mem_Load s1 g = (Inr a, s1)"
    and "mutate app env g (\<lambda>d acc. decide d c acc) (s, b) = (r, s', b')"
  shows "case decide (draws env n) c a of
      Inl err \<Rightarrow> r = Some err \<and> mem_stream s' = mem_stream s1 \<and> b' = b
    | Inr e \<Rightarrow> r = None \<and> b' = appPublish app b e \<and>
        fst (mem_Load s' g) = Inr (a\<lparr>Balance := Balance a + word_of_int (cmd_delta c), Version := Version a + 1\<rparr>)"
proof -
  let ?dec = "\<lambda>d acc. decide d c acc"
  obtain left where left: "maxRetries = n + Suc left" using assms(1) less_imp_Suc_add by auto
  obtain r2 s2 b2 where q: "mutate app (quiet (\<lambda>_. draws env n)) g ?dec (s1, b) = (r2, s2, b2)" by (metis prod_cases3)
  note hm = healthy_mutate [OF assms(6,7,3) q]
  have step: "mutate app env g ?dec (s, b) = mutate_from app env ?dec g (Suc left) n (s1, b)"
    using mutate_from_skip [where i = 0 and n = n, OF _ assms(3), of env ?dec g s "Suc left" b] assms(2,5)
    by (simp add: mutate_def left)
  have rd: "mutate_read memory_store ?dec (draws env n) s1 g =
      (case decide (draws env n) c a of Inl err \<Rightarrow> (Inl err, s1) | Inr e \<Rightarrow> (Inr (a, e), s1))"
    using assms(7) by (simp add: mutate_read_def memory_store_def)
  show ?thesis
  proof (cases "decide (draws env n) c a")
    case (Inl err)
    then show ?thesis using assms(3,8) step rd by (auto split: sum.splits)
  next
    case (Inr e)
    obtain w s3 where w: "mutate_write memory_store s1 g a e = (w, s3)" by (metis surj_pair)
    have "mutate app (quiet (\<lambda>_. draws env n)) g ?dec (s1, b) = (None, s3, appPublish app b e)" if "w = None"
      using that w rd Inr assms(3) by (simp add: mutate_unfold)
    moreover have "w = None"
      using hm(5) [OF Inr] q w rd Inr assms(3) healthy_append [OF assms(6,7) Inr] by (simp add: mutate_write_def)
    ultimately show ?thesis
      using hm(5) [OF Inr] q w rd Inr assms(3,4,8) step by auto
  qed
qed

text \<open>A rival that withdraws 60 from \<open>ana\<close> before the first append of the caller only.\<close>

definition rival_once :: "nat \<Rightarrow> Memory \<Rightarrow> Memory" where
  "rival_once i s = (if i = 0 then fst (snd (app_Withdraw sample_app (sample_env 50) ana 60 [] (s, []))) else s)"

definition raced :: "Memory env" where
  "raced = (sample_env 20)\<lparr>between := rival_once\<rparr>"

definition after_rival :: Memory where
  "after_rival = fst (snd (app_Withdraw sample_app (sample_env 50) ana 60 [] (two_accounts, [])))"

lemma after_rival_rivals: "rivals raced 1 0 two_accounts = after_rival"
  by (simp add: raced_def rival_once_def after_rival_def sample_env_def quiet_def)

lemma after_rival_values:
  "length (mem_stream after_rival ana) = 3"
  "fst (mem_Load after_rival ana) = Inr \<lparr>aID = ana, Owner = ''ana'', Balance = 40, Open = True, Version = 3\<rparr>"
  "overtaken raced (\<lambda>d acc. decide d (CWithdraw 80 []) acc) ana 0 two_accounts"
  "list_all (\<lambda>e. eID e \<noteq> NewID (rnd (sample_draw 21))) (mlog after_rival)"
  "fresh_draw (mem_stream two_accounts) (sample_draw 50)"
  "decide (sample_draw 21) (CWithdraw 80 []) \<lparr>aID = ana, Owner = ''ana'', Balance = 40, Open = True, Version = 3\<rparr>
     = Inl ErrInsufficientFunds"
proof -
  show "fresh_draw (mem_stream two_accounts) (sample_draw 50)"
    by (rule fresh_in_log [OF two_accounts_ok(1)]) code_simp
qed code_simp+

lemma after_rival_healthy: "healthy after_rival ana (sample_draw 21)"
proof -
  obtain r s' b' where run: "app_Withdraw sample_app (sample_env 50) ana 60 [] (two_accounts, []) = (r, s', b')"
    by (metis prod_cases3)
  then have s': "s' = after_rival" by (simp add: after_rival_def)
  have len: "length (mem_stream two_accounts ana) < history_limit" by (simp add: two_accounts_stream history_limit_def)
  have "mutate sample_app (quiet (\<lambda>i. sample_draw (50 + i))) ana (\<lambda>d acc. decide d (CWithdraw 60 []) acc) (two_accounts, []) = (r, s', b')"
    using run by (simp add: app_Withdraw_def decide_closures sample_env_def)
  from memory.mutate_quiet [OF two_accounts_ok len _ _ this] after_rival_values(5)
  have "mem_inv after_rival" "ledger (mem_stream after_rival)"
    by (simp_all add: s' sample_app_def reversal_limited_def)
  then show ?thesis
    using fresh_in_log after_rival_values(1,4) by (simp add: healthy_def history_limit_def)
qed

theorem mutate_retries_witness:
  "fst (mutate sample_app raced ana (\<lambda>d acc. decide d (CWithdraw 80 []) acc) (two_accounts, [])) = Some ErrInsufficientFunds"
proof -
  let ?a = "\<lparr>aID = ana, Owner = ''ana'', Balance = 40, Open = True, Version = 3\<rparr>"
  obtain r s' b' where
    run: "mutate sample_app raced ana (\<lambda>d acc. decide d (CWithdraw 80 []) acc) (two_accounts, []) = (r, s', b')"
    by (metis prod_cases3)
  have env: "between raced 1 = (\<lambda>s. s)" "draws raced 1 = sample_draw 21" "appStore sample_app = memory_store"
    by (auto simp: raced_def rival_once_def sample_env_def quiet_def sample_app_def)
  then have env2: "draws raced (Suc 0) = sample_draw 21" by simp
  have ld: "mem_Load after_rival ana = (Inr ?a, after_rival)"
    using after_rival_values(2) by (simp add: mem_Load_def Let_def split: if_splits)
  have "case decide (draws raced 1) (CWithdraw 80 []) ?a of
      Inl err \<Rightarrow> r = Some err \<and> mem_stream s' = mem_stream after_rival \<and> b' = []
    | Inr e \<Rightarrow> r = None \<and> b' = appPublish sample_app [] e \<and>
        fst (mem_Load s' ana) = Inr (?a\<lparr>Balance := Balance ?a + word_of_int (cmd_delta (CWithdraw 80 [])), Version := Version ?a + 1\<rparr>)"
    using after_rival_values(3) after_rival_healthy
    by (intro mutate_retries [OF _ _ env(3,1) after_rival_rivals [symmetric] _ ld run])
      (simp_all add: env2 maxRetries_def)
  then show ?thesis unfolding env(2) after_rival_values(6) run by simp
qed

end
