(* ===== verification/Database.thy ===== *)
theory Database
  imports Payload_Order
begin

text \<open>
  The database behind \<^verbatim>\<open>internal/eventstore/postgres.go\<close>, \<^verbatim>\<open>internal/projection\<close>,
  \<^verbatim>\<open>internal/query\<close> and \<^verbatim>\<open>internal/api/idempotency.go\<close>: the tables of
  \<^verbatim>\<open>migrations/001_schema.sql\<close>, and what sending a statement to a server means. The statements
  themselves are written in the components, next to the code that sends them.

  The server and its driver are not part of the repository. The record \<open>server\<close> holds what
  the statements use of them: the input conversions of the column types, the operator \<^verbatim>\<open>->>\<close>,
  the clock, and, for each statement in the order they are sent, whether it works. The
  locale \<open>postgres_server\<close> names the documented behaviour the code relies on. A transaction is
  one step of the database; what a concurrent transaction can do to it (a serialization
  failure, a deadlock, a lost connection, a cancelled context) is among the faults.
\<close>

section \<open>Tables\<close>

record EventRow =
  evSeq :: int64
  evEventID :: string
  evAggregateID :: string
  evVersion :: int64
  evType :: string
  evData :: json
  evOccurredAt :: int

record SnapshotRow =
  snVersion :: int64
  snState :: json

record BalanceRow =
  brOwner :: string
  brBalance :: int64
  brOpen :: bool
  brLastVersion :: int64
  brUpdatedAt :: int

record StatementRow =
  srEventID :: string
  srAccountID :: string
  srKind :: string
  srAmount :: int64
  srCounterparty :: "string option"
  srTransferID :: "string option"
  srDescription :: string
  srOccurredAt :: int

record TransferRow =
  tfFromID :: string
  tfToID :: string
  tfAmount :: int64
  tfStatus :: string
  tfReason :: string
  tfCreatedAt :: int
  tfUpdatedAt :: int

record KeyRow =
  ikRequestHash :: string
  ikStatusCode :: int
  ikResponseBody :: string
  ikCreatedAt :: int

text \<open>
  A table with a primary key that is only looked up by it is a map; \<^verbatim>\<open>events\<close> and
  \<^verbatim>\<open>statement_entries\<close> are the lists of their rows in the order of insertion. \<open>sequence\<close> is the
  sequence behind \<^verbatim>\<open>seq\<close>; like every sequence it is not rolled back. \<open>ticks\<close> counts the
  statements sent. The columns \<^verbatim>\<open>snapshots.updated_at\<close> and \<^verbatim>\<open>processed_events.processed_at\<close>,
  which nothing reads, are left out.
\<close>

record DB =
  events :: "EventRow list"
  sequence :: int64
  snapshots :: "string \<rightharpoonup> SnapshotRow"
  processed :: "string set"
  balances :: "string \<rightharpoonup> BalanceRow"
  statements :: "StatementRow list"
  transfers :: "string \<rightharpoonup> TransferRow"
  idem_keys :: "string \<rightharpoonup> KeyRow"
  ticks :: nat

definition empty_DB :: DB where
  "empty_DB = \<lparr>events = [], sequence = 0, snapshots = Map.empty, processed = {}, balances = Map.empty,
     statements = [], transfers = Map.empty, idem_keys = Map.empty, ticks = 0\<rparr>"

section \<open>The server\<close>

text \<open>\<open>Fails\<close>: the statement has no effect. \<open>Lost\<close>: it had its effect, but the answer is an error.\<close>

datatype fault = Works | Fails error | Lost error

record server =
  uuid_in :: "string \<Rightarrow> string option"
  jsonb_in :: "RawMessage \<Rightarrow> json result"
  arrow_text :: "json \<Rightarrow> string \<Rightarrow> string option"
  timestamp_in :: "int \<Rightarrow> int"
  clock :: "nat \<Rightarrow> int"
  faults :: "nat \<Rightarrow> fault"

definition unique_violation :: "string \<Rightarrow> error" where
  "unique_violation constraint =
     PqError ''23505'' (''duplicate key value violates unique constraint '' @ quote constraint)"

definition check_violation :: "string \<Rightarrow> string \<Rightarrow> error" where
  "check_violation table constraint =
     PqError ''23514'' (''new row for relation '' @ quote table @ '' violates check constraint '' @ quote constraint)"

definition out_of_range :: error where
  "out_of_range = PqError ''22003'' ''bigint out of range''"

text \<open>A parameter of type \<^verbatim>\<open>uuid\<close>.\<close>

definition uuid_param :: "server \<Rightarrow> string \<Rightarrow> string result" where
  "uuid_param srv s = (case uuid_in srv s of
       Some u \<Rightarrow> Inr u
     | None \<Rightarrow> Inl (PqError ''22P02'' (''invalid input syntax for type uuid: '' @ quote s)))"

section \<open>Sending a statement\<close>

type_synonym 'a stmt = "DB \<Rightarrow> 'a result \<times> DB"

definition tick :: "DB \<Rightarrow> DB" where
  "tick db = db\<lparr>ticks := Suc (ticks db)\<rparr>"

definition exec :: "server \<Rightarrow> 'a stmt \<Rightarrow> 'a stmt" where
  "exec srv stmt db = (case faults srv (ticks db) of
       Works \<Rightarrow> stmt (tick db)
     | Fails err \<Rightarrow> (Inl err, tick db)
     | Lost err \<Rightarrow> (Inl err, snd (stmt (tick db))))"

text \<open>
  \<^verbatim>\<open>BeginTx\<close>, \<^verbatim>\<open>Rollback\<close> and \<^verbatim>\<open>Commit\<close>: \<open>old\<close> is the database as the transaction found it. A rollback
  that does not reach the server happens there when the connection is gone.
\<close>

definition BeginTx :: "server \<Rightarrow> unit stmt" where
  "BeginTx srv = exec srv (\<lambda>db. (Inr (), db))"

definition Rollback :: "DB \<Rightarrow> DB \<Rightarrow> DB" where
  "Rollback old db = old\<lparr>ticks := ticks db, sequence := sequence db\<rparr>"

definition Commit :: "server \<Rightarrow> DB \<Rightarrow> DB \<Rightarrow> error option \<times> DB" where
  "Commit srv old db = (case faults srv (ticks db) of
       Works \<Rightarrow> (None, tick db)
     | Fails err \<Rightarrow> (Some err, tick (Rollback old db))
     | Lost err \<Rightarrow> (Some err, tick db))"

section \<open>What the code relies on\<close>

text \<open>
  The conversion of a UUID gives its normal form (lower case, with hyphens), which is the form
  \<^const>\<open>NewID\<close> prints. A JSONB column keeps the members of an object that has no duplicate keys,
  in an order of its own. \<^verbatim>\<open>->>\<close> on such an object gives a member that is a string as it is, and
  no value for a missing key.
\<close>

locale postgres_server =
  fixes srv :: server
  assumes uuid_normal: "uuid_in srv s = Some u \<Longrightarrow> uuid_in srv u = Some u \<and> u \<noteq> []"
    and uuid_printed: "length rb = 16 \<Longrightarrow> uuid_in srv (NewID rb) = Some (NewID rb)"
    and jsonb_members: "jsonb_in srv (RawJSON (JObj kvs)) = Inr v \<Longrightarrow> distinct (map fst kvs) \<Longrightarrow>
      (\<And>k w. (k, w) \<in> set kvs \<Longrightarrow> (\<exists>s. w = JStr s) \<or> (\<exists>n. w = JInt n) \<or> (\<exists>b. w = JBool b)) \<Longrightarrow>
      \<exists>kvs'. v = JObj kvs' \<and> mset kvs' = mset kvs"
    and arrow_member: "distinct (map fst kvs) \<Longrightarrow> (k, JStr s) \<in> set kvs \<Longrightarrow> arrow_text srv (JObj kvs) k = Some s"
    and arrow_missing: "k \<notin> fst ` set kvs \<Longrightarrow> arrow_text srv (JObj kvs) k = None"

section \<open>Facts\<close>

lemma tick_simps [simp]:
  "events (tick db) = events db" "sequence (tick db) = sequence db" "snapshots (tick db) = snapshots db"
  "processed (tick db) = processed db" "balances (tick db) = balances db" "statements (tick db) = statements db"
  "transfers (tick db) = transfers db" "idem_keys (tick db) = idem_keys db" "ticks (tick db) = Suc (ticks db)"
  by (simp_all add: tick_def)

lemma Rollback_simps [simp]:
  "events (Rollback old db) = events old" "sequence (Rollback old db) = sequence db"
  "snapshots (Rollback old db) = snapshots old" "processed (Rollback old db) = processed old"
  "balances (Rollback old db) = balances old" "statements (Rollback old db) = statements old"
  "transfers (Rollback old db) = transfers old" "idem_keys (Rollback old db) = idem_keys old"
  "ticks (Rollback old db) = ticks db"
  by (simp_all add: Rollback_def)

lemma exec_cases:
  assumes "exec srv stmt db = (r, db')"
  obtains (run) "r = fst (stmt (tick db)) \<or> (\<exists>err. r = Inl err)" "db' = snd (stmt (tick db))"
    | (failed) err where "r = Inl err" "db' = tick db"
proof (cases "faults srv (ticks db)")
  case Works
  then show thesis using assms by (intro run) (simp_all add: exec_def)
next
  case (Fails err)
  then show thesis using assms by (intro failed [of err]) (simp_all add: exec_def)
next
  case (Lost err)
  then show thesis using assms by (intro run) (auto simp: exec_def)
qed

text \<open>A statement that reads leaves the tables as they are.\<close>

definition reads :: "'a stmt \<Rightarrow> bool" where
  "reads stmt \<longleftrightarrow> (\<forall>db. snd (stmt db) = db)"

lemma exec_reads: "reads stmt \<Longrightarrow> exec srv stmt db = (r, db') \<Longrightarrow> db' = tick db"
  by (auto simp: reads_def exec_def split: fault.splits) (metis snd_conv)

lemma exec_reads_value: "reads stmt \<Longrightarrow> exec srv stmt db = (Inr x, db') \<Longrightarrow> fst (stmt (tick db)) = Inr x"
  by (auto simp: exec_def split: fault.splits)

lemma BeginTx_db: "BeginTx srv db = (r, db') \<Longrightarrow> db' = tick db"
  by (auto simp: BeginTx_def exec_def split: fault.splits)

lemma Commit_cases:
  assumes "Commit srv old db = (r, db')"
  obtains (committed) "db' = tick db" | (rolled_back) err where "r = Some err" "db' = tick (Rollback old db)"
  using assms by (auto simp: Commit_def split: fault.splits)

lemma Commit_None: "Commit srv old db = (None, db') \<Longrightarrow> db' = tick db"
  by (auto simp: Commit_def split: fault.splits)

lemma uuid_param_Inr [simp]: "uuid_param srv s = Inr u \<longleftrightarrow> uuid_in srv s = Some u"
  by (auto simp: uuid_param_def split: option.splits)

context postgres_server
begin

lemma jsonb_payload:
  assumes "marshal p = Inr d" and "jsonb_in srv d = Inr v"
  shows "same_payload d (RawJSON v)"
proof -
  obtain kvs where d: "d = RawJSON (JObj kvs)" using marshal_object [OF assms(1)] by blast
  note m = marshal_tagged [OF assms(1) [unfolded d]]
  have "(\<exists>s. w = JStr s) \<or> (\<exists>n. w = JInt n) \<or> (\<exists>b. w = JBool b)" if "(k, w) \<in> set kvs" for k w
  proof -
    from m that have "tagged (k, w)" by blast
    then show ?thesis by (cases rule: tagged_cases) simp_all
  qed
  then obtain kvs' where "v = JObj kvs'" "mset kvs' = mset kvs"
    using jsonb_members [OF assms(2) [unfolded d]] m by blast
  with same_payload_perm [OF assms(1) [unfolded d]] show ?thesis by (simp add: d)
qed

end

end
