(* ===== verification/Sha256.thy ===== *)
theory Sha256
  imports Events
begin

text \<open>
  \<^verbatim>\<open>crypto/sha256\<close> of the standard library, which \<^verbatim>\<open>hashRequest\<close> of
  \<^verbatim>\<open>internal/api/idempotency.go\<close> uses: the function of FIPS 180-4 on strings of bytes.
\<close>

unbundle bit_operations_syntax

section \<open>Constants\<close>

text \<open>
  The words the standard takes from square and cube roots: the first 32 bits of the fractional part
  of \<open>n\<close>-th roots of the first primes. \<open>root_floor n m\<close> is the greatest \<open>r < 2\<^sup>3\<^sup>6\<close> with \<open>r\<^sup>n \<le> m\<close>.
\<close>

definition root_floor :: "nat \<Rightarrow> int \<Rightarrow> int" where
  "root_floor n m = fold (\<lambda>b r. if (r + 2 ^ b) ^ n \<le> m then r + 2 ^ b else r) (rev [0..<36]) 0"

definition first_primes :: "int list" where
  "first_primes = filter (\<lambda>p. list_all (\<lambda>d. p mod d \<noteq> 0) [2..p - 1]) [2..311]"

definition root_bits :: "nat \<Rightarrow> int \<Rightarrow> u32" where
  "root_bits n p = of_int (root_floor n (p * 2 ^ (32 * n)))"

definition sha_init :: "u32 list" where
  "sha_init = map (root_bits 2) [2, 3, 5, 7, 11, 13, 17, 19]"

definition sha_k :: "u32 list" where
  "sha_k = map (root_bits 3) first_primes"

definition rotr :: "nat \<Rightarrow> u32 \<Rightarrow> u32" where
  "rotr n w = drop_bit n w OR push_bit (32 - n) w"

section \<open>Blocks\<close>

definition big_endian :: "nat \<Rightarrow> int \<Rightarrow> u8 list" where
  "big_endian n x = map (\<lambda>i. of_int (x div 256 ^ (n - 1 - i))) [0..<n]"

definition pad :: "string \<Rightarrow> u8 list" where
  "pad s = map of_char s @ [0x80] @ replicate ((119 - length s mod 64) mod 64) 0 @ big_endian 8 (8 * int (length s))"

fun words32 :: "u8 list \<Rightarrow> u32 list" where
  "words32 (a # b # c # d # bs) =
     (push_bit 24 (ucast a) OR push_bit 16 (ucast b) OR push_bit 8 (ucast c) OR ucast d) # words32 bs"
| "words32 _ = []"

function chunks :: "nat \<Rightarrow> 'a list \<Rightarrow> 'a list list" where
  "chunks n xs = (if n = 0 \<or> xs = [] then [] else take n xs # chunks n (drop n xs))"
  by pat_completeness auto
termination
  by (relation "measure (length \<circ> snd)") auto

text \<open>The message schedule, kept newest word first.\<close>

fun schedule :: "nat \<Rightarrow> u32 list \<Rightarrow> u32 list" where
  "schedule 0 ws = ws"
| "schedule (Suc n) ws =
     (let w15 = ws ! 14; w2 = ws ! 1;
          s0 = rotr 7 w15 XOR rotr 18 w15 XOR drop_bit 3 w15;
          s1 = rotr 17 w2 XOR rotr 19 w2 XOR drop_bit 10 w2
      in schedule n ((ws ! 15 + s0 + ws ! 6 + s1) # ws))"

fun sha_round :: "u32 list \<Rightarrow> u32 \<times> u32 \<Rightarrow> u32 list" where
  "sha_round [a, b, c, d, e, f, g, h] (k, w) =
     (let s1 = rotr 6 e XOR rotr 11 e XOR rotr 25 e;
          ch = (e AND f) XOR (NOT e AND g);
          t1 = h + s1 + ch + k + w;
          s0 = rotr 2 a XOR rotr 13 a XOR rotr 22 a;
          maj = (a AND b) XOR (a AND c) XOR (b AND c)
      in [t1 + s0 + maj, a, b, c, d + t1, e, f, g])"
| "sha_round st _ = st"

definition compress :: "u32 list \<Rightarrow> u32 list \<Rightarrow> u32 list" where
  "compress st ws = map2 (+) st (foldl sha_round st (zip sha_k (rev (schedule 48 (rev ws)))))"

definition sha256 :: "string \<Rightarrow> u8 list" where
  "sha256 s = concat (map (\<lambda>w. big_endian 4 (uint w)) (foldl compress sha_init (chunks 16 (words32 (pad s)))))"

section \<open>The digest has 32 bytes\<close>

lemma length_big_endian [simp]: "length (big_endian n x) = n"
  by (simp add: big_endian_def)

lemma length_sha_round [simp]: "length (sha_round st kw) = length st"
  by (cases "(st, kw)" rule: sha_round.cases) (simp_all add: Let_def)

lemma length_sha_rounds [simp]: "length (foldl sha_round st kws) = length st"
  by (induction kws arbitrary: st) simp_all

lemma length_compress [simp]: "length (compress st ws) = length st"
  by (simp add: compress_def)

lemma length_compressed [simp]: "length (foldl compress st wss) = length st"
  by (induction wss arbitrary: st) simp_all

lemma length_sha256: "length (sha256 s) = 32"
proof -
  have "length (concat (map (\<lambda>w. big_endian 4 (uint w)) ws)) = 4 * length ws" for ws :: "u32 list"
    by (induction ws) simp_all
  then show ?thesis by (simp add: sha256_def sha_init_def)
qed

end
