(* ===== verification/Http.thy ===== *)
theory Http
  imports Json
begin

text \<open>
  The responses of \<^verbatim>\<open>internal/api/server.go\<close>: the text \<^verbatim>\<open>json.Encoder\<close> writes, \<^verbatim>\<open>writeJSON\<close>, \<^verbatim>\<open>errBody\<close>
  and the mapping of errors to status codes in \<^verbatim>\<open>writeError\<close>. Every handler writes one response: its
  status, its headers in the order they were set, and its body.
\<close>

section \<open>JSON text\<close>

text \<open>
  \<^verbatim>\<open>Encode\<close> escapes quotes, backslashes, control characters, the characters of HTML markup, and the
  line separators U+2028 and U+2029.
\<close>

definition escape_char :: "char \<Rightarrow> string" where
  "escape_char c =
     (let n = of_char c :: nat
      in if c = CHR 0x22 then [CHR 0x5C, CHR 0x22]
         else if c = CHR 0x5C then [CHR 0x5C, CHR 0x5C]
         else if n = 8 then [CHR 0x5C, CHR ''b'']
         else if n = 9 then [CHR 0x5C, CHR ''t'']
         else if n = 10 then [CHR 0x5C, CHR ''n'']
         else if n = 12 then [CHR 0x5C, CHR ''f'']
         else if n = 13 then [CHR 0x5C, CHR ''r'']
         else if n < 32 \<or> c \<in> set ''<>&'' then [CHR 0x5C] @ ''u00'' @ hex_byte n
         else [c])"

function escape :: "string \<Rightarrow> string" where
  "escape [] = []"
| "escape (c # cs) =
     (if c = CHR 0xE2 \<and> take 2 cs = [CHR 0x80, CHR 0xA8] then [CHR 0x5C] @ ''u2028'' @ escape (drop 2 cs)
      else if c = CHR 0xE2 \<and> take 2 cs = [CHR 0x80, CHR 0xA9] then [CHR 0x5C] @ ''u2029'' @ escape (drop 2 cs)
      else escape_char c @ escape cs)"
  by pat_completeness auto
termination
  by (relation "measure length") auto

definition json_string :: "string \<Rightarrow> string" where
  "json_string s = [CHR 0x22] @ escape s @ [CHR 0x22]"

fun separated :: "string list \<Rightarrow> string" where
  "separated [] = []"
| "separated [x] = x"
| "separated (x # y # xs) = x @ '','' @ separated (y # xs)"

fun json_text :: "json \<Rightarrow> string" where
  "json_text JNull = ''null''"
| "json_text (JBool b) = (if b then ''true'' else ''false'')"
| "json_text (JInt n) = show_int n"
| "json_text (JReal t) = t"
| "json_text (JStr s) = json_string s"
| "json_text (JArr vs) = ''['' @ separated (map json_text vs) @ '']''"
| "json_text (JObj kvs) = [CHR 0x7B] @ separated (map (\<lambda>(k, v). json_string k @ '':'' @ json_text v) kvs) @ [CHR 0x7D]"

section \<open>Responses\<close>

record Response =
  Status :: int
  Headers :: "(string \<times> string) list"
  RespBody :: string

definition content_json :: "string \<times> string" where
  "content_json = (''Content-Type'', ''application/json'')"

definition retry_after :: "string \<times> string" where
  "retry_after = (''Retry-After'', ''1'')"

text \<open>\<^verbatim>\<open>writeJSON\<close> after the headers \<open>hs\<close> have been set; \<^verbatim>\<open>Encode\<close> ends the text with a line feed.\<close>

definition writeJSON :: "(string \<times> string) list \<Rightarrow> int \<Rightarrow> json \<Rightarrow> Response" where
  "writeJSON hs status v = \<lparr>Status = status, Headers = hs @ [content_json], RespBody = json_text v @ [CHR 0x0A]\<rparr>"

definition errBody :: "string \<Rightarrow> json" where
  "errBody msg = JObj [(''error'', JStr msg)]"

definition writeError :: "error \<Rightarrow> Response" where
  "writeError err =
     (if errors_Is err ErrAccountNotFound then writeJSON [] 404 (errBody (error_text err))
      else if errors_Is err ErrInsufficientFunds then writeJSON [] 422 (errBody (error_text err))
      else if errors_Is err ErrInvalidAmount \<or> errors_Is err ErrOwnerRequired \<or> errors_Is err ErrSameAccount \<or>
        errors_Is err ErrAmountTooLarge then writeJSON [] 400 (errBody (error_text err))
      else if errors_Is err ErrAccountClosed then writeJSON [] 409 (errBody (error_text err))
      else if errors_Is err ErrTooManyConflicts then writeJSON [retry_after] 409 (errBody (error_text err))
      else if errors_Is err DeadlineExceeded then writeJSON [] 504 (errBody ''operation timed out'')
      else writeJSON [] 500 (errBody ''internal error''))"

lemma writeJSON_simps [simp]:
  "Status (writeJSON hs c v) = c" "Headers (writeJSON hs c v) = hs @ [content_json]"
  by (simp_all add: writeJSON_def)

lemma writeError_status: "400 \<le> Status (writeError err)" "Status (writeError err) < 600"
  by (simp_all add: writeError_def)

lemma json_text_sample:
  "json_text (JObj [(''a'', JStr [CHR ''x'', CHR ''<'', CHR 0x22]), (''b'', JArr [JInt (- 5), JBool True])]) =
     [CHR 0x7B, CHR 0x22, CHR ''a'', CHR 0x22, CHR '':'', CHR 0x22, CHR ''x'', CHR 0x5C] @ ''u003c'' @
     [CHR 0x5C, CHR 0x22, CHR 0x22, CHR '','', CHR 0x22, CHR ''b'', CHR 0x22] @ '':[-5,true]'' @ [CHR 0x7D]"
  by code_simp

end
