(* ===== verification/Idempotency.thy ===== *)
theory Idempotency
  imports Database Sha256 Http
begin

text \<open>
  \<^verbatim>\<open>internal/api/idempotency.go\<close>: what is kept for each \<^verbatim>\<open>Idempotency-Key\<close>, in memory and in the
  table \<^verbatim>\<open>idempotency_keys\<close>. A server shares one such store among all its requests, so \<^verbatim>\<open>Reserve\<close> is
  split at the point where another request can come in between: the store in Postgres sends an
  \<^verbatim>\<open>INSERT\<close> and, when the key is taken, a \<^verbatim>\<open>SELECT\<close>; the one in memory answers at once, under its
  mutex.
\<close>

section \<open>The interface\<close>

record IdempotencyRecord =
  RequestHash :: string
  StatusCode :: int
  RecBody :: string

definition zero_record :: IdempotencyRecord where
  "zero_record = \<lparr>RequestHash = [], StatusCode = 0, RecBody = []\<rparr>"

text \<open>What the first part of \<^verbatim>\<open>Reserve\<close> finds; after \<open>Taken\<close> the record has yet to be read.\<close>

datatype reservation = Inserted | Found IdempotencyRecord | Taken | Failed error

record 's IdempotencyStore =
  ReserveInsert :: "'s \<Rightarrow> string \<Rightarrow> string \<Rightarrow> reservation \<times> 's"
  ReserveSelect :: "'s \<Rightarrow> string \<Rightarrow> IdempotencyRecord result \<times> 's"
  Complete :: "'s \<Rightarrow> string \<Rightarrow> int \<Rightarrow> string \<Rightarrow> error option \<times> 's"

text \<open>\<^verbatim>\<open>Reserve\<close> as its caller sees it; \<open>meanwhile\<close> is what other requests do between its two parts.\<close>

definition Reserve ::
    "'s IdempotencyStore \<Rightarrow> ('s \<Rightarrow> 's) \<Rightarrow> 's \<Rightarrow> string \<Rightarrow> string \<Rightarrow> (bool \<times> IdempotencyRecord) result \<times> 's" where
  "Reserve st meanwhile s key requestHash =
     (case ReserveInsert st s key requestHash of
        (Inserted, s1) \<Rightarrow> (Inr (True, zero_record), s1)
      | (Found rec, s1) \<Rightarrow> (Inr (False, rec), s1)
      | (Failed err, s1) \<Rightarrow> (Inl err, s1)
      | (Taken, s1) \<Rightarrow>
          (case ReserveSelect st (meanwhile s1) key of
             (Inl err, s2) \<Rightarrow> (Inl err, s2)
           | (Inr rec, s2) \<Rightarrow> (Inr (False, rec), s2)))"

definition hashRequest :: "string \<Rightarrow> string \<Rightarrow> string \<Rightarrow> string" where
  "hashRequest method path body = hex_bytes (sha256 (method @ [CHR 0x00] @ path @ [CHR 0x00] @ body))"

section \<open>Postgres\<close>

definition insert_key :: "server \<Rightarrow> string \<Rightarrow> string \<Rightarrow> nat stmt" where
  "insert_key srv key requestHash db =
     (case idem_keys db key of
        Some _ \<Rightarrow> (Inr 0, db)
      | None \<Rightarrow> (Inr 1, db\<lparr>idem_keys := (idem_keys db)(key \<mapsto>
          \<lparr>ikRequestHash = requestHash, ikStatusCode = 0, ikResponseBody = [], ikCreatedAt = clock srv (ticks db)\<rparr>)\<rparr>))"

definition select_key :: "string \<Rightarrow> IdempotencyRecord stmt" where
  "select_key key db =
     (case idem_keys db key of
        None \<Rightarrow> (Inl ErrNoRows, db)
      | Some r \<Rightarrow> (Inr \<lparr>RequestHash = ikRequestHash r, StatusCode = ikStatusCode r, RecBody = ikResponseBody r\<rparr>, db))"

definition update_key :: "string \<Rightarrow> int \<Rightarrow> string \<Rightarrow> unit stmt" where
  "update_key key statusCode body db =
     (Inr (), db\<lparr>idem_keys := (idem_keys db)(key :=
        map_option (\<lambda>r. r\<lparr>ikStatusCode := statusCode, ikResponseBody := body\<rparr>) (idem_keys db key))\<rparr>)"

definition pg_ReserveInsert :: "server \<Rightarrow> DB \<Rightarrow> string \<Rightarrow> string \<Rightarrow> reservation \<times> DB" where
  "pg_ReserveInsert srv db key requestHash =
     (case exec srv (insert_key srv key requestHash) db of
        (Inl err, db') \<Rightarrow> (Failed err, db')
      | (Inr n, db') \<Rightarrow> (if n = 1 then Inserted else Taken, db'))"

definition pg_ReserveSelect :: "server \<Rightarrow> DB \<Rightarrow> string \<Rightarrow> IdempotencyRecord result \<times> DB" where
  "pg_ReserveSelect srv db key =
     (case exec srv (select_key key) db of
        (Inl err, db') \<Rightarrow> if errors_Is err ErrNoRows then (Inr zero_record, db') else (Inl err, db')
      | (Inr rec, db') \<Rightarrow> (Inr rec, db'))"

definition pg_Complete :: "server \<Rightarrow> DB \<Rightarrow> string \<Rightarrow> int \<Rightarrow> string \<Rightarrow> error option \<times> DB" where
  "pg_Complete srv db key statusCode body =
     (case exec srv (update_key key statusCode body) db of
        (Inl err, db') \<Rightarrow> (Some err, db')
      | (Inr _, db') \<Rightarrow> (None, db'))"

definition PGIdempotency :: "server \<Rightarrow> DB IdempotencyStore" where
  "PGIdempotency srv =
     \<lparr>ReserveInsert = pg_ReserveInsert srv, ReserveSelect = pg_ReserveSelect srv, Complete = pg_Complete srv\<rparr>"

section \<open>Memory\<close>

type_synonym MemRecs = "string \<rightharpoonup> IdempotencyRecord"

definition NewMemIdempotency :: MemRecs where
  "NewMemIdempotency = Map.empty"

definition mem_Reserve :: "MemRecs \<Rightarrow> string \<Rightarrow> string \<Rightarrow> reservation \<times> MemRecs" where
  "mem_Reserve recs key requestHash =
     (case recs key of
        Some rec \<Rightarrow> (Found rec, recs)
      | None \<Rightarrow> (Inserted, recs(key \<mapsto> \<lparr>RequestHash = requestHash, StatusCode = 0, RecBody = []\<rparr>)))"

definition mem_Complete :: "MemRecs \<Rightarrow> string \<Rightarrow> int \<Rightarrow> string \<Rightarrow> error option \<times> MemRecs" where
  "mem_Complete recs key statusCode body =
     (case recs key of
        Some rec \<Rightarrow> (None, recs(key \<mapsto> rec\<lparr>StatusCode := statusCode, RecBody := body\<rparr>))
      | None \<Rightarrow> (None, recs))"

text \<open>This store never answers \<open>Taken\<close>, so nothing reads a record after it.\<close>

definition MemIdempotency :: "MemRecs IdempotencyStore" where
  "MemIdempotency =
     \<lparr>ReserveInsert = mem_Reserve, ReserveSelect = (\<lambda>recs key. (Inr zero_record, recs)), Complete = mem_Complete\<rparr>"

text \<open>A store as the first component of a larger state.\<close>

definition on_fst :: "'s IdempotencyStore \<Rightarrow> ('s \<times> 'b) IdempotencyStore" where
  "on_fst st =
     \<lparr>ReserveInsert = (\<lambda>(s, b) k h. map_prod id (\<lambda>s'. (s', b)) (ReserveInsert st s k h)),
      ReserveSelect = (\<lambda>(s, b) k. map_prod id (\<lambda>s'. (s', b)) (ReserveSelect st s k)),
      Complete = (\<lambda>(s, b) k c body. map_prod id (\<lambda>s'. (s', b)) (Complete st s k c body))\<rparr>"

section \<open>What a store of keys promises\<close>

text \<open>
  \<open>keys\<close> are the records of a state. Only an absent key is inserted; nothing removes a key; an error
  may hide an effect that took place.
\<close>

definition reserved :: "string \<Rightarrow> IdempotencyRecord" where
  "reserved h = \<lparr>RequestHash = h, StatusCode = 0, RecBody = []\<rparr>"

definition completed :: "int \<Rightarrow> string \<Rightarrow> IdempotencyRecord \<Rightarrow> IdempotencyRecord" where
  "completed c b rec = rec\<lparr>StatusCode := c, RecBody := b\<rparr>"

locale idempotency_store =
  fixes st :: "'s IdempotencyStore" and keys :: "'s \<Rightarrow> string \<rightharpoonup> IdempotencyRecord"
  assumes reserve_inserted: "ReserveInsert st s k h = (Inserted, s') \<Longrightarrow>
      keys s k = None \<and> keys s' = (keys s)(k \<mapsto> reserved h)"
    and reserve_found: "ReserveInsert st s k h = (Found rec, s') \<Longrightarrow> keys s k = Some rec \<and> keys s' = keys s"
    and reserve_taken: "ReserveInsert st s k h = (Taken, s') \<Longrightarrow> keys s k \<noteq> None \<and> keys s' = keys s"
    and reserve_failed: "ReserveInsert st s k h = (Failed err, s') \<Longrightarrow>
      keys s' = keys s \<or> keys s k = None \<and> keys s' = (keys s)(k \<mapsto> reserved h)"
    and select_frame: "ReserveSelect st s k = (got, s') \<Longrightarrow> keys s' = keys s"
    and select_value: "ReserveSelect st s k = (Inr rec, s') \<Longrightarrow> keys s k = Some rec \<or> rec = zero_record"
    and complete_effect: "Complete st s k c b = (r, s') \<Longrightarrow>
      r \<noteq> None \<and> keys s' = keys s \<or> keys s' = (keys s)(k := map_option (completed c b) (keys s k))"

definition pg_keys :: "DB \<Rightarrow> string \<rightharpoonup> IdempotencyRecord" where
  "pg_keys db k = map_option (\<lambda>r. \<lparr>RequestHash = ikRequestHash r, StatusCode = ikStatusCode r, RecBody = ikResponseBody r\<rparr>)
     (idem_keys db k)"

lemma pg_keys_same: "idem_keys db' = idem_keys db \<Longrightarrow> pg_keys db' = pg_keys db"
  by (simp add: pg_keys_def fun_eq_iff)

lemma pg_keys_tick [simp]: "pg_keys (tick db) = pg_keys db"
  by (rule pg_keys_same) simp

interpretation mem_idem: idempotency_store MemIdempotency "\<lambda>recs. recs"
  by unfold_locales
    (auto simp: MemIdempotency_def mem_Reserve_def mem_Complete_def reserved_def completed_def split: option.splits)

lemma insert_key_effect:
  "fst (insert_key srv k h db) = Inr n \<Longrightarrow> (n = 1 \<and> pg_keys db k = None \<and> pg_keys (snd (insert_key srv k h db)) = (pg_keys db)(k \<mapsto> reserved h))
     \<or> (n = 0 \<and> pg_keys db k \<noteq> None \<and> pg_keys (snd (insert_key srv k h db)) = pg_keys db)"
  by (auto simp: insert_key_def pg_keys_def reserved_def fun_eq_iff split: option.splits)

lemma insert_key_Inr: "\<exists>n. fst (insert_key srv k h db) = Inr n"
  by (simp add: insert_key_def split: option.split)

lemma update_key_effect: "pg_keys (snd (update_key k c b db)) = (pg_keys db)(k := map_option (completed c b) (pg_keys db k))"
  by (auto simp: update_key_def pg_keys_def completed_def fun_eq_iff option.map_comp comp_def intro: option.map_cong)

interpretation pg_idem: idempotency_store "PGIdempotency srv" pg_keys
proof (unfold_locales, goal_cases)
  case (1 s k h s')
  then show ?case using insert_key_effect [of srv k h "tick s"]
    by (auto simp: PGIdempotency_def pg_ReserveInsert_def exec_def split: fault.splits prod.splits sum.splits if_splits)
next
  case (2 s k h rec s')
  then show ?case by (auto simp: PGIdempotency_def pg_ReserveInsert_def split: prod.splits sum.splits if_splits)
next
  case (3 s k h s')
  then show ?case using insert_key_effect [of srv k h "tick s"]
    by (auto simp: PGIdempotency_def pg_ReserveInsert_def exec_def split: fault.splits prod.splits sum.splits if_splits)
next
  case (4 s k h err s')
  obtain n where n: "fst (insert_key srv k h (tick s)) = Inr n" using insert_key_Inr by blast
  from 4 insert_key_effect [OF n] n show ?case
    by (auto simp: PGIdempotency_def pg_ReserveInsert_def exec_def split: fault.splits prod.splits sum.splits if_splits)
next
  case (5 s k r s')
  then show ?case
    by (auto simp: PGIdempotency_def pg_ReserveSelect_def exec_def select_key_def split: fault.splits option.splits if_splits)
next
  case (6 s k rec s')
  then show ?case
    by (auto simp: PGIdempotency_def pg_ReserveSelect_def exec_def select_key_def pg_keys_def split: fault.splits option.splits if_splits)
next
  case (7 s k c b r s')
  then show ?case using update_key_effect [of k c b "tick s"]
    by (auto simp: PGIdempotency_def pg_Complete_def exec_def update_key_def [of k c b "tick s"] split: fault.splits)
qed

text \<open>The laws carry over to a state that holds the store and something else.\<close>

context idempotency_store
begin

lemma on_fst_laws: "idempotency_store (on_fst st) (\<lambda>w. keys (fst w))"
proof (unfold_locales, goal_cases)
  case (1 s k h s')
  then show ?case by (cases s) (auto simp: on_fst_def map_prod_def dest: reserve_inserted split: prod.splits)
next
  case (2 s k h rec s')
  then show ?case by (cases s) (auto simp: on_fst_def map_prod_def dest: reserve_found split: prod.splits)
next
  case (3 s k h s')
  then show ?case by (cases s) (auto simp: on_fst_def map_prod_def dest: reserve_taken split: prod.splits)
next
  case (4 s k h err s')
  then show ?case by (cases s) (auto simp: on_fst_def map_prod_def dest: reserve_failed split: prod.splits)
next
  case (5 s k got s')
  then show ?case by (cases s) (auto simp: on_fst_def map_prod_def dest: select_frame split: prod.splits)
next
  case (6 s k rec s')
  then show ?case by (cases s) (auto simp: on_fst_def map_prod_def dest: select_value split: prod.splits)
next
  case (7 s k c b r s')
  then show ?case by (cases s) (auto simp: on_fst_def map_prod_def dest: complete_effect split: prod.splits)
qed

end

interpretation mem_api: idempotency_store "on_fst MemIdempotency" "\<lambda>w. fst w"
  by (rule mem_idem.on_fst_laws)

interpretation pg_api: idempotency_store "on_fst (PGIdempotency srv)" "\<lambda>w. pg_keys (fst w)"
  by (rule pg_idem.on_fst_laws)

end
