(* ===== verification/Idempotent.thy ===== *)
theory Idempotent
  imports Idempotency Account
begin

text \<open>
  The middleware \<^verbatim>\<open>idempotent\<close> of \<^verbatim>\<open>internal/api/server.go\<close>, which every command goes through: it
  reserves the key, runs the command, and keeps the response for later requests with the same
  key. \<open>idempotent\<close> is the handler as one caller sees it; \<open>idem_step\<close> lets any number of requests
  advance one access to the store at a time, in any order.
\<close>

section \<open>The key\<close>

definition validateIdempotencyKey :: "string \<Rightarrow> error option" where
  "validateIdempotencyKey key =
     (let k = TrimSpace key
      in if k = [] then Some (Errorf ''Idempotency-Key header is required'')
         else if 128 < length k then Some (Errorf ''Idempotency-Key header is too long'')
         else None)"

section \<open>The handler\<close>

definition replay_mark :: "string \<times> string" where
  "replay_mark = (''Idempotency-Replay'', ''true'')"

text \<open>The answer to a request whose key exists.\<close>

definition answer_existing :: "string \<Rightarrow> IdempotencyRecord \<Rightarrow> Response" where
  "answer_existing reqHash rec =
     (if RequestHash rec \<noteq> [] \<and> RequestHash rec \<noteq> reqHash
      then writeJSON [] 422 (errBody ''Idempotency-Key already used with a different request'')
      else if StatusCode rec = 0
      then writeJSON [retry_after] 409 (errBody ''original request still processing'')
      else \<lparr>Status = StatusCode rec, Headers = [content_json, replay_mark], RespBody = RecBody rec\<rparr>)"

text \<open>
  A request to a command: the header, the path, and the body up to the limit of one megabyte, or
  \<^const>\<open>None\<close> when it could not be read or is longer. \<open>cNext\<close> is the handler of the command, on the
  state the server works on; it runs on the request, whose body the middleware has put back.
\<close>

record 'w call =
  cMethod :: string
  cPath :: string
  cKey :: string
  cBody :: "string option"
  cNext :: "'w \<Rightarrow> Response \<times> 'w"

definition call_hash :: "'w call \<Rightarrow> string" where
  "call_hash c = (case cBody c of None \<Rightarrow> [] | Some body \<Rightarrow> hashRequest (cMethod c) (cPath c) body)"

definition refused :: "'w call \<Rightarrow> Response option" where
  "refused c =
     (case validateIdempotencyKey (cKey c) of
        Some err \<Rightarrow> Some (writeJSON [] 400 (errBody (error_text err)))
      | None \<Rightarrow>
          (case cBody c of
             None \<Rightarrow> Some (writeJSON [] 400 (errBody ''cannot read body''))
           | Some _ \<Rightarrow> None))"

definition idempotent :: "'w IdempotencyStore \<Rightarrow> ('w \<Rightarrow> 'w) \<Rightarrow> 'w call \<Rightarrow> 'w \<Rightarrow> Response \<times> 'w" where
  "idempotent st meanwhile c w =
     (case refused c of
        Some resp \<Rightarrow> (resp, w)
      | None \<Rightarrow>
          (case Reserve st meanwhile w (cKey c) (call_hash c) of
             (Inl err, w1) \<Rightarrow> (writeError err, w1)
           | (Inr (False, rec), w1) \<Rightarrow> (answer_existing (call_hash c) rec, w1)
           | (Inr (True, _), w1) \<Rightarrow>
               (case cNext c w1 of (resp, w2) \<Rightarrow>
                 (case Complete st w2 (cKey c) (Status resp) (RespBody resp) of (_, w3) \<Rightarrow> (resp, w3)))))"

section \<open>Requests at the same time\<close>

text \<open>
  Where a request stands. The flag of \<open>Answered\<close> says whether it own its command. Running the
  command is one step here; how commands interleave on the event store is the subject of the theory
  of the command side.
\<close>

datatype phase =
    Arrived
  | Reading
  | Running
  | Finishing Response
  | Answered bool Response

fun idem_advance :: "'w IdempotencyStore \<Rightarrow> 'w call \<Rightarrow> phase \<Rightarrow> 'w \<Rightarrow> (phase \<times> 'w) option" where
  "idem_advance st c Arrived w =
     (case refused c of
        Some resp \<Rightarrow> Some (Answered False resp, w)
      | None \<Rightarrow>
          (case ReserveInsert st w (cKey c) (call_hash c) of
             (Inserted, w') \<Rightarrow> Some (Running, w')
           | (Found rec, w') \<Rightarrow> Some (Answered False (answer_existing (call_hash c) rec), w')
           | (Taken, w') \<Rightarrow> Some (Reading, w')
           | (Failed err, w') \<Rightarrow> Some (Answered False (writeError err), w')))"
| "idem_advance st c Reading w =
     (case ReserveSelect st w (cKey c) of
        (Inl err, w') \<Rightarrow> Some (Answered False (writeError err), w')
      | (Inr rec, w') \<Rightarrow> Some (Answered False (answer_existing (call_hash c) rec), w'))"
| "idem_advance st c Running w = (case cNext c w of (resp, w') \<Rightarrow> Some (Finishing resp, w'))"
| "idem_advance st c (Finishing resp) w =
     (case Complete st w (cKey c) (Status resp) (RespBody resp) of (_, w') \<Rightarrow> Some (Answered True resp, w'))"
| "idem_advance st c (Answered own resp) w = None"

inductive idem_step :: "'w IdempotencyStore \<Rightarrow> 'w call list \<Rightarrow> 'w \<times> phase list \<Rightarrow> 'w \<times> phase list \<Rightarrow> bool"
  for st calls where
  advance: "i < length calls \<Longrightarrow> i < length ps \<Longrightarrow> idem_advance st (calls ! i) (ps ! i) w = Some (p, w') \<Longrightarrow>
    idem_step st calls (w, ps) (w', ps[i := p])"

inductive_cases idem_stepE: "idem_step st calls (w, ps) x"

abbreviation idem_run :: "'w IdempotencyStore \<Rightarrow> 'w call list \<Rightarrow> 'w \<times> phase list \<Rightarrow> 'w \<times> phase list \<Rightarrow> bool" where
  "idem_run st calls \<equiv> (idem_step st calls)\<^sup>*\<^sup>*"

text \<open>A request that has the server to itself goes through the handler.\<close>

lemma idem_one_step:
  "idem_advance st c p w = Some (p', w') \<Longrightarrow> idem_step st [c] (w, [p]) (w', [p'])"
  using advance [of 0 "[c]" "[p]" st w p' w'] by simp

lemma idempotent_alone:
  "\<exists>own. idem_run st [c] (w, [Arrived])
     (snd (idempotent st (\<lambda>s. s) c w), [Answered own (fst (idempotent st (\<lambda>s. s) c w))])"
proof (cases "refused c")
  case (Some resp)
  then show ?thesis using idem_one_step [of st c Arrived w] by (auto simp: idempotent_def)
next
  case None
  obtain r w1 where R: "ReserveInsert st w (cKey c) (call_hash c) = (r, w1)" by fastforce
  show ?thesis
  proof (cases r)
    case Inserted
    obtain resp w2 where n: "cNext c w1 = (resp, w2)" by fastforce
    obtain x w3 where C: "Complete st w2 (cKey c) (Status resp) (RespBody resp) = (x, w3)" by fastforce
    have "idem_step st [c] (w, [Arrived]) (w1, [Running])"
      by (rule idem_one_step) (simp add: None R Inserted)
    moreover have "idem_step st [c] (w1, [Running]) (w2, [Finishing resp])"
      by (rule idem_one_step) (simp add: n)
    moreover have "idem_step st [c] (w2, [Finishing resp]) (w3, [Answered True resp])"
      by (rule idem_one_step) (simp add: C)
    moreover have "idempotent st (\<lambda>s. s) c w = (resp, w3)"
      by (simp add: idempotent_def Reserve_def None R Inserted n C)
    ultimately show ?thesis
      by (intro exI [of _ True]) (simp add: converse_rtranclp_into_rtranclp)
  next
    case (Found rec)
    with None R idem_one_step [of st c Arrived w] show ?thesis by (auto simp: idempotent_def Reserve_def)
  next
    case (Failed err)
    with None R idem_one_step [of st c Arrived w] show ?thesis by (auto simp: idempotent_def Reserve_def)
  next
    case Taken
    obtain v w2 where S: "ReserveSelect st w1 (cKey c) = (v, w2)" by fastforce
    have "idem_step st [c] (w, [Arrived]) (w1, [Reading])"
      by (rule idem_one_step) (simp add: None R Taken)
    moreover have "idem_step st [c] (w1, [Reading])
        (snd (idempotent st (\<lambda>s. s) c w), [Answered False (fst (idempotent st (\<lambda>s. s) c w))])"
      by (rule idem_one_step) (simp add: None R Taken S idempotent_def Reserve_def split: sum.split)
    ultimately show ?thesis by (blast intro: rtranclp.rtrancl_into_rtrancl)
  qed
qed

section \<open>One execution for each key\<close>

fun response_of :: "phase \<Rightarrow> Response option" where
  "response_of (Finishing resp) = Some resp"
| "response_of (Answered True resp) = Some resp"
| "response_of _ = None"

definition executed :: "phase \<Rightarrow> bool" where
  "executed p \<longleftrightarrow> response_of p \<noteq> None"

definition owner :: "phase \<Rightarrow> bool" where
  "owner p \<longleftrightarrow> p = Running \<or> executed p"

definition replayed :: "Response \<Rightarrow> bool" where
  "replayed resp \<longleftrightarrow> replay_mark \<in> set (Headers resp)"

lemma owner_simps [simp]:
  "\<not> owner Arrived" "\<not> owner Reading" "owner Running" "owner (Finishing resp)" "owner (Answered own resp) = own"
  "executed (Finishing resp)" "executed (Answered own resp) = own" "\<not> executed Arrived" "\<not> executed Reading" "\<not> executed Running"
  by (cases own; simp add: owner_def executed_def)+

lemma call_hash_nonempty: "cBody c = Some body \<Longrightarrow> call_hash c \<noteq> []"
proof
  assume "cBody c = Some body" and "call_hash c = []"
  then have "hex_bytes (sha256 (cMethod c @ [CHR 0x00] @ cPath c @ [CHR 0x00] @ body)) = []"
    by (simp add: call_hash_def hashRequest_def)
  then show False using length_sha256 [of "cMethod c @ [CHR 0x00] @ cPath c @ [CHR 0x00] @ body"]
    by (cases "sha256 (cMethod c @ [CHR 0x00] @ cPath c @ [CHR 0x00] @ body)") (auto simp: hex_bytes_def hex_byte_def)
qed

lemma not_replayed [simp]:
  "\<not> replayed (writeError err)" "refused c = Some resp \<Longrightarrow> \<not> replayed resp"
  by (auto simp: replayed_def replay_mark_def writeError_def writeJSON_def content_json_def retry_after_def refused_def
      split: option.splits)

lemma answer_existing_replay:
  assumes "replayed (answer_existing h rec)"
  shows "StatusCode rec \<noteq> 0" and "RequestHash rec = [] \<or> RequestHash rec = h"
    and "Status (answer_existing h rec) = StatusCode rec" and "RespBody (answer_existing h rec) = RecBody rec"
  using assms
  by (auto simp: answer_existing_def replayed_def replay_mark_def writeJSON_def content_json_def retry_after_def split: if_splits)

text \<open>
  The invariant of a key \<open>k\<close> that was new at the start: whoever reserved it is the only one to run, and
  a record with a status was written from the response of that run.
\<close>

definition made :: "'w call list \<Rightarrow> phase list \<Rightarrow> string \<Rightarrow> nat \<Rightarrow> string \<Rightarrow> int \<Rightarrow> string \<Rightarrow> bool" where
  "made calls ps k j h c b \<longleftrightarrow> j < length calls \<and> cKey (calls ! j) = k \<and> call_hash (calls ! j) = h \<and> h \<noteq> [] \<and>
     (\<exists>resp. response_of (ps ! j) = Some resp \<and> Status resp = c \<and> RespBody resp = b)"

definition key_inv :: "('w \<Rightarrow> string \<rightharpoonup> IdempotencyRecord) \<Rightarrow> 'w call list \<Rightarrow> string \<Rightarrow> 'w \<times> phase list \<Rightarrow> bool" where
  "key_inv keys calls k x \<longleftrightarrow> (case x of (w, ps) \<Rightarrow>
     length ps = length calls \<and>
     (\<forall>i < length calls. cKey (calls ! i) = k \<longrightarrow> owner (ps ! i) \<longrightarrow>
        refused (calls ! i) = None \<and> (\<exists>rec. keys w k = Some rec \<and> RequestHash rec = call_hash (calls ! i))) \<and>
     (\<forall>i < length calls. \<forall>j < length calls. cKey (calls ! i) = k \<longrightarrow> cKey (calls ! j) = k \<longrightarrow>
        owner (ps ! i) \<longrightarrow> owner (ps ! j) \<longrightarrow> i = j) \<and>
     (\<forall>rec. keys w k = Some rec \<longrightarrow> StatusCode rec \<noteq> 0 \<longrightarrow>
        (\<exists>j. made calls ps k j (RequestHash rec) (StatusCode rec) (RecBody rec))) \<and>
     (\<forall>i < length calls. \<forall>resp. cKey (calls ! i) = k \<longrightarrow> ps ! i = Answered False resp \<longrightarrow> replayed resp \<longrightarrow>
        (\<exists>j. made calls ps k j (call_hash (calls ! i)) (Status resp) (RespBody resp))))"

lemma key_invI:
  assumes "length ps = length calls"
    and "\<And>i. i < length calls \<Longrightarrow> cKey (calls ! i) = k \<Longrightarrow> owner (ps ! i) \<Longrightarrow>
      refused (calls ! i) = None \<and> (\<exists>rec. keys w k = Some rec \<and> RequestHash rec = call_hash (calls ! i))"
    and "\<And>i j. i < length calls \<Longrightarrow> j < length calls \<Longrightarrow> cKey (calls ! i) = k \<Longrightarrow> cKey (calls ! j) = k \<Longrightarrow>
      owner (ps ! i) \<Longrightarrow> owner (ps ! j) \<Longrightarrow> i = j"
    and "\<And>rec. keys w k = Some rec \<Longrightarrow> StatusCode rec \<noteq> 0 \<Longrightarrow>
      \<exists>j. made calls ps k j (RequestHash rec) (StatusCode rec) (RecBody rec)"
    and "\<And>i resp. i < length calls \<Longrightarrow> cKey (calls ! i) = k \<Longrightarrow> ps ! i = Answered False resp \<Longrightarrow> replayed resp \<Longrightarrow>
      \<exists>j. made calls ps k j (call_hash (calls ! i)) (Status resp) (RespBody resp)"
  shows "key_inv keys calls k (w, ps)"
  using assms unfolding key_inv_def by blast

lemma key_invD:
  assumes "key_inv keys calls k (w, ps)"
  shows "length ps = length calls"
    and "i < length calls \<Longrightarrow> cKey (calls ! i) = k \<Longrightarrow> owner (ps ! i) \<Longrightarrow>
      refused (calls ! i) = None \<and> (\<exists>rec. keys w k = Some rec \<and> RequestHash rec = call_hash (calls ! i))"
    and "i < length calls \<Longrightarrow> j < length calls \<Longrightarrow> cKey (calls ! i) = k \<Longrightarrow> cKey (calls ! j) = k \<Longrightarrow>
      owner (ps ! i) \<Longrightarrow> owner (ps ! j) \<Longrightarrow> i = j"
    and "keys w k = Some rec \<Longrightarrow> StatusCode rec \<noteq> 0 \<Longrightarrow>
      \<exists>j. made calls ps k j (RequestHash rec) (StatusCode rec) (RecBody rec)"
    and "i < length calls \<Longrightarrow> cKey (calls ! i) = k \<Longrightarrow> ps ! i = Answered False resp \<Longrightarrow> replayed resp \<Longrightarrow>
      \<exists>j. made calls ps k j (call_hash (calls ! i)) (Status resp) (RespBody resp)"
  using assms unfolding key_inv_def by blast+

lemma made_upd:
  "made calls ps k j h c b \<Longrightarrow> i < length ps \<Longrightarrow>
     (i = j \<Longrightarrow> \<forall>resp. response_of (ps ! i) = Some resp \<longrightarrow> response_of p = Some resp) \<Longrightarrow> made calls (ps[i := p]) k j h c b"
  unfolding made_def by (cases "i = j") auto

text \<open>A step that neither touches the record of \<open>k\<close> nor makes anyone its owner.\<close>

lemma key_inv_bystander:
  assumes inv: "key_inv keys calls k (w, ps)" and i: "i < length calls" and same: "keys w' k = keys w k"
    and p: "cKey (calls ! i) = k \<Longrightarrow> \<not> owner (ps ! i) \<and> \<not> owner p"
    and r: "\<And>resp. cKey (calls ! i) = k \<Longrightarrow> p = Answered False resp \<Longrightarrow> replayed resp \<Longrightarrow>
      \<exists>j. made calls ps k j (call_hash (calls ! i)) (Status resp) (RespBody resp)"
  shows "key_inv keys calls k (w', ps[i := p])"
proof -
  note D = key_invD [OF inv]
  have m: "made calls (ps[i := p]) k j h c b" if "made calls ps k j h c b" for j h c b
    using that i p D(1) by (intro made_upd [OF that]) (auto simp: made_def owner_def executed_def)
  show ?thesis
  proof (rule key_invI)
    fix i' assume i': "i' < length calls" "cKey (calls ! i') = k" "owner (ps[i := p] ! i')"
    then show "refused (calls ! i') = None \<and> (\<exists>rec. keys w' k = Some rec \<and> RequestHash rec = call_hash (calls ! i'))"
      using D(1) D(2) [of i'] p i same by (cases "i' = i") auto
  next
    fix i' j assume "i' < length calls" "j < length calls" "cKey (calls ! i') = k" "cKey (calls ! j) = k"
      "owner (ps[i := p] ! i')" "owner (ps[i := p] ! j)"
    then show "i' = j" using D(1) D(3) [of i' j] p i by (cases "i' = i"; cases "j = i") auto
  next
    fix rec assume "keys w' k = Some rec" "StatusCode rec \<noteq> 0"
    then show "\<exists>j. made calls (ps[i := p]) k j (RequestHash rec) (StatusCode rec) (RecBody rec)"
      using D(4) [of rec] same m by metis
  next
    fix i' resp
    assume "i' < length calls" "cKey (calls ! i') = k" "ps[i := p] ! i' = Answered False resp" "replayed resp"
    then show "\<exists>j. made calls (ps[i := p]) k j (call_hash (calls ! i')) (Status resp) (RespBody resp)"
      using D(1) D(5) [of i' resp] r [of resp] i m by (cases "i' = i") (simp, blast, simp, blast)
  qed (simp add: D(1))
qed

context idempotency_store
begin

lemma key_inv_reserved:
  assumes inv: "key_inv keys calls k (w, ps)" and i: "i < length calls" "cKey (calls ! i) = k" "refused (calls ! i) = None"
    and new: "keys w k = None" "keys w' k = Some (reserved (call_hash (calls ! i)))"
  shows "key_inv keys calls k (w', ps[i := Running])"
proof -
  note D = key_invD [OF inv]
  have no: "\<not> owner (ps ! j)" if "j < length calls" "cKey (calls ! j) = k" for j using D(2) [OF that] new(1) by auto
  have m: "\<not> made calls ps k j h c b" for j h c b using no [of j] by (auto simp: made_def owner_def executed_def)
  have o: "j = i" if "j < length calls" "cKey (calls ! j) = k" "owner (ps[i := Running] ! j)" for j
    using that no [of j] by (cases "j = i") auto
  show ?thesis
  proof (rule key_invI)
    fix i' resp
    assume "i' < length calls" "cKey (calls ! i') = k" "ps[i := Running] ! i' = Answered False resp" "replayed resp"
    then show "\<exists>j. made calls (ps[i := Running]) k j (call_hash (calls ! i')) (Status resp) (RespBody resp)"
      using D(1) D(5) [of i' resp] i m by (cases "i' = i") auto
  qed (use new i o D(1) in \<open>auto simp: reserved_def\<close>)
qed

lemma key_inv_failed:
  assumes inv: "key_inv keys calls k (w, ps)" and i: "i < length calls" "cKey (calls ! i) = k" "\<not> owner (ps ! i)"
    and new: "keys w k = None" "keys w' k = Some (reserved h)"
  shows "key_inv keys calls k (w', ps[i := Answered False (writeError err)])"
proof -
  note D = key_invD [OF inv]
  have no: "\<not> owner (ps ! j)" if "j < length calls" "cKey (calls ! j) = k" for j using D(2) [OF that] new(1) by auto
  have m: "\<not> made calls ps k j h c b" for j h c b using no [of j] by (auto simp: made_def owner_def executed_def)
  have o: "\<not> owner (ps[i := Answered False (writeError err)] ! j)" if "j < length calls" "cKey (calls ! j) = k" for j
    using that no [of j] D(1) by (cases "j = i") auto
  show ?thesis
  proof (rule key_invI)
    fix i' resp
    assume "i' < length calls" "cKey (calls ! i') = k" "ps[i := Answered False (writeError err)] ! i' = Answered False resp"
      "replayed resp"
    then show "\<exists>j. made calls (ps[i := Answered False (writeError err)]) k j (call_hash (calls ! i')) (Status resp) (RespBody resp)"
      using D(1) D(5) [of i' resp] i m by (cases "i' = i") auto
  qed (use new o D(1) in \<open>auto simp: reserved_def\<close>)
qed

text \<open>The owner goes on: it has run, or it has written its response.\<close>

lemma key_inv_owner:
  assumes inv: "key_inv keys calls k (w, ps)" and i: "i < length calls" "cKey (calls ! i) = k" "owner (ps ! i)"
    and p: "response_of p = Some resp" "ps ! i = Running \<or> response_of (ps ! i) = Some resp"
    and same: "keys w' k = keys w k \<or>
      ps ! i \<noteq> Running \<and> keys w' k = map_option (completed (Status resp) (RespBody resp)) (keys w k)"
  shows "key_inv keys calls k (w', ps[i := p])"
proof -
  note D = key_invD [OF inv]
  obtain rec where rec: "refused (calls ! i) = None" "keys w k = Some rec" "RequestHash rec = call_hash (calls ! i)"
    using D(2) [OF i] by blast
  have own: "owner p" using p by (auto simp: owner_def executed_def)
  have m: "made calls (ps[i := p]) k j h c b" if "made calls ps k j h c b" for j h c b
    using that i p D(1) by (intro made_upd [OF that]) auto
  have ne: "call_hash (calls ! i) \<noteq> []"
    using rec(1) call_hash_nonempty by (auto simp: refused_def split: option.splits)
  have mi: "made calls (ps[i := p]) k i (call_hash (calls ! i)) (Status resp) (RespBody resp)"
    using i p(1) D(1) ne by (simp add: made_def)
  have o: "owner (ps ! j)" if "j < length calls" "owner (ps[i := p] ! j)" for j
    using that i by (cases "j = i") auto
  show ?thesis
  proof (rule key_invI)
    fix i' assume i': "i' < length calls" "cKey (calls ! i') = k" "owner (ps[i := p] ! i')"
    then have "i' = i" using D(3) [of i' i] o i by blast
    then show "refused (calls ! i') = None \<and> (\<exists>rec. keys w' k = Some rec \<and> RequestHash rec = call_hash (calls ! i'))"
      using same rec by (auto simp: completed_def)
  next
    fix i' j assume "i' < length calls" "j < length calls" "cKey (calls ! i') = k" "cKey (calls ! j) = k"
      "owner (ps[i := p] ! i')" "owner (ps[i := p] ! j)"
    then show "i' = j" using D(3) [of i' j] o by blast
  next
    fix rec' assume r: "keys w' k = Some rec'" "StatusCode rec' \<noteq> 0"
    show "\<exists>j. made calls (ps[i := p]) k j (RequestHash rec') (StatusCode rec') (RecBody rec')"
    proof (cases "keys w' k = keys w k")
      case True
      then show ?thesis using D(4) [of rec'] r m by metis
    next
      case False
      then have "rec' = completed (Status resp) (RespBody resp) rec" using same rec r by auto
      then show ?thesis using mi rec by (auto simp: completed_def)
    qed
  next
    fix i' resp'
    assume a: "i' < length calls" "cKey (calls ! i') = k" "ps[i := p] ! i' = Answered False resp'" "replayed resp'"
    then have "i' \<noteq> i" using own i D(1) by auto
    with a show "\<exists>j. made calls (ps[i := p]) k j (call_hash (calls ! i')) (Status resp') (RespBody resp')"
      using D(5) [of i' resp'] m by (simp, blast)
  qed (simp add: D(1))
qed

lemma existing_made:
  assumes "key_inv keys calls k (w, ps)" and "keys w k = Some rec" and "replayed (answer_existing h rec)"
  shows "\<exists>j. made calls ps k j h (Status (answer_existing h rec)) (RespBody (answer_existing h rec))"
proof -
  note A = answer_existing_replay [OF assms(3)]
  obtain j where j: "made calls ps k j (RequestHash rec) (StatusCode rec) (RecBody rec)"
    using key_invD(4) [OF assms(1,2) A(1)] by blast
  then have "RequestHash rec = h" using A(2) by (auto simp: made_def)
  with j A(3,4) show ?thesis by metis
qed

lemma key_inv_arrived:
  assumes inv: "key_inv keys calls k (w, ps)" and i: "i < length calls" "ps ! i = Arrived"
    and step: "idem_advance st (calls ! i) Arrived w = Some (p, w')"
  shows "key_inv keys calls k (w', ps[i := p])"
proof (cases "refused (calls ! i)")
  case (Some resp)
  with step have "p = Answered False resp" "w' = w" by auto
  with Some inv i show ?thesis by (intro key_inv_bystander) auto
next
  case None
  let ?h = "call_hash (calls ! i)" and ?k = "cKey (calls ! i)"
  obtain r w1 where R: "ReserveInsert st w ?k ?h = (r, w1)" by fastforce
  show ?thesis
  proof (cases r)
    case Inserted
    with step None R have p: "p = Running" "w' = w1" by auto
    note r = reserve_inserted [OF R [unfolded Inserted]]
    show ?thesis
    proof (cases "?k = k")
      case True
      with key_inv_reserved [OF inv i(1) True None] r p show ?thesis by simp
    next
      case False
      with inv i r p show ?thesis by (intro key_inv_bystander) auto
    qed
  next
    case (Found rec)
    with step None R have p: "p = Answered False (answer_existing ?h rec)" "w' = w1" by auto
    from inv i reserve_found [OF R [unfolded Found]] existing_made [OF inv] p show ?thesis
      by (intro key_inv_bystander) auto
  next
    case Taken
    with step None R have p: "p = Reading" "w' = w1" by auto
    with inv i reserve_taken [OF R [unfolded Taken]] show ?thesis by (intro key_inv_bystander) auto
  next
    case (Failed err)
    with step None R have p: "p = Answered False (writeError err)" "w' = w1" by auto
    consider (same) "keys w1 k = keys w k" | (new) "?k = k" "keys w k = None" "keys w1 k = Some (reserved ?h)"
      using reserve_failed [OF R [unfolded Failed]] by (cases "?k = k") auto
    then show ?thesis
    proof cases
      case same
      with inv i p show ?thesis by (intro key_inv_bystander) auto
    next
      case new
      with key_inv_failed [OF inv i(1) new(1) _ new(2), of w1 ?h err] i p show ?thesis by simp
    qed
  qed
qed

lemma key_inv_reading:
  assumes inv: "key_inv keys calls k (w, ps)" and i: "i < length calls" and rd: "ps ! i = Reading"
    and step: "idem_advance st (calls ! i) Reading w = Some (p, w')"
  shows "key_inv keys calls k (w', ps[i := p])"
proof -
  obtain r w1 where S: "ReserveSelect st w (cKey (calls ! i)) = (r, w1)" by fastforce
  have same: "keys w' = keys w" using step rd S select_frame [OF S] by (auto split: sum.splits)
  show ?thesis
  proof (cases r)
    case (Inl err)
    with step rd S have "p = Answered False (writeError err)" by simp
    with inv i rd same show ?thesis by (intro key_inv_bystander) auto
  next
    case (Inr rec)
    with step rd S have p: "p = Answered False (answer_existing (call_hash (calls ! i)) rec)" by simp
    have z: "\<not> replayed (answer_existing h zero_record)" for h using answer_existing_replay(1) [of h zero_record] by (auto simp: zero_record_def)
    have "keys w k = Some rec \<or> rec = zero_record" if "cKey (calls ! i) = k" using select_value [OF S [unfolded Inr]] that by simp
    with inv i rd same p z existing_made [OF inv] show ?thesis by (intro key_inv_bystander) auto
  qed
qed

lemma key_inv_step:
  assumes inv: "key_inv keys calls k (w, ps)" and i: "i < length calls"
    and nx: "\<And>c v. c \<in> set calls \<Longrightarrow> keys (snd (cNext c v)) = keys v"
    and step: "idem_advance st (calls ! i) (ps ! i) w = Some (p, w')"
  shows "key_inv keys calls k (w', ps[i := p])"
proof (cases "ps ! i")
  case Arrived
  with key_inv_arrived [OF inv i Arrived] step show ?thesis by simp
next
  case Reading
  with key_inv_reading [OF inv i Reading] step show ?thesis by simp
next
  case Running
  obtain resp w1 where n: "cNext (calls ! i) w = (resp, w1)" by fastforce
  with step Running have p: "p = Finishing resp" "w' = w1" by auto
  have same: "keys w' = keys w" using nx [of "calls ! i" w] i n p by simp
  show ?thesis
  proof (cases "cKey (calls ! i) = k")
    case True
    with key_inv_owner [OF inv i True, of p resp w'] Running p same show ?thesis by simp
  next
    case False
    with inv i same show ?thesis by (intro key_inv_bystander) auto
  qed
next
  case (Finishing resp)
  obtain r w1 where C: "Complete st w (cKey (calls ! i)) (Status resp) (RespBody resp) = (r, w1)" by fastforce
  with step Finishing have p: "p = Answered True resp" "w' = w1" by auto
  show ?thesis
  proof (cases "cKey (calls ! i) = k")
    case True
    with key_inv_owner [OF inv i True, of p resp w'] Finishing p complete_effect [OF C] show ?thesis by auto
  next
    case False
    then have "keys w' k = keys w k" using complete_effect [OF C] p by auto
    with False show ?thesis by (intro key_inv_bystander [OF inv i]) auto
  qed
next
  case (Answered own resp)
  with step show ?thesis by simp
qed

lemma key_inv_run:
  assumes "idem_run st calls x y" and "key_inv keys calls k x"
    and "\<And>c v. c \<in> set calls \<Longrightarrow> keys (snd (cNext c v)) = keys v"
  shows "key_inv keys calls k y"
  using assms(1,2)
proof (induction rule: rtranclp_induct)
  case (step y z)
  then show ?case by (cases y) (auto elim!: idem_stepE intro: key_inv_step assms(3))
qed

lemma key_inv_start: "keys w k = None \<Longrightarrow> key_inv keys calls k (w, replicate (length calls) Arrived)"
  by (rule key_invI) auto

text \<open>One execution, and replays of nothing but its response.\<close>

lemma one_execution:
  assumes "idem_run st calls (w0, replicate (length calls) Arrived) (w, ps)" and "keys w0 k = None"
    and "\<And>c v. c \<in> set calls \<Longrightarrow> keys (snd (cNext c v)) = keys v"
  shows "card {i. i < length calls \<and> cKey (calls ! i) = k \<and> executed (ps ! i)} \<le> 1"
    and "i < length calls \<Longrightarrow> cKey (calls ! i) = k \<Longrightarrow> ps ! i = Answered False resp \<Longrightarrow> replayed resp \<Longrightarrow>
      \<exists>j. made calls ps k j (call_hash (calls ! i)) (Status resp) (RespBody resp)"
proof -
  note D = key_invD [OF key_inv_run [OF assms(1) key_inv_start [OF assms(2)] assms(3)]]
  let ?E = "{i. i < length calls \<and> cKey (calls ! i) = k \<and> executed (ps ! i)}"
  have "finite ?E" by simp
  moreover have "\<forall>i \<in> ?E. \<forall>j \<in> ?E. i = j" using D(3) by (auto simp: owner_def)
  ultimately show "card ?E \<le> 1" unfolding One_nat_def by (rule card_le_Suc0_iff_eq [THEN iffD2])
  show "i < length calls \<Longrightarrow> cKey (calls ! i) = k \<Longrightarrow> ps ! i = Answered False resp \<Longrightarrow> replayed resp \<Longrightarrow>
      \<exists>j. made calls ps k j (call_hash (calls ! i)) (Status resp) (RespBody resp)"
    by (rule D(5))
qed

end

end
