(* ===== verification/Requests.thy ===== *)
theory Requests
  imports Http
begin

text \<open>
  What the handlers of \<^verbatim>\<open>internal/api/server.go\<close> read from a request: the body decoded by \<^verbatim>\<open>decode\<close>
  into the struct of the handler, the parameters of the query string, and the address of the
  client.
\<close>

section \<open>Bodies\<close>

text \<open>
  The text of a body enters as what a \<^verbatim>\<open>json.Decoder\<close> reads from it, one value after the other; the
  list ends where the text ends, or with the value that does not parse.
\<close>

type_synonym body_values = "RawMessage list"

text \<open>
  \<^verbatim>\<open>Decode\<close> into a struct, with \<^verbatim>\<open>DisallowUnknownFields\<close>: \<open>assign\<close> refuses a key that is no field. An
  empty body gives \<^verbatim>\<open>io.EOF\<close>.
\<close>

definition unknown_field :: "string \<Rightarrow> error" where
  "unknown_field k = JSONError (''json: unknown field '' @ quote k)"

definition decode :: "string \<Rightarrow> (string \<Rightarrow> json \<Rightarrow> 'r \<Rightarrow> 'r result) \<Rightarrow> 'r \<Rightarrow> body_values \<Rightarrow> Response + 'r" where
  "decode typ assign zero vs =
     (case vs of
        [] \<Rightarrow> Inl (writeJSON [] 400 (errBody ''invalid JSON body: EOF''))
      | v # rest \<Rightarrow>
          (case unmarshal typ assign zero v of
             Inl err \<Rightarrow> Inl (writeJSON [] 400 (errBody (''invalid JSON body: '' @ error_text err)))
           | Inr req \<Rightarrow>
               if rest \<noteq> [] then Inl (writeJSON [] 400 (errBody ''invalid JSON body: multiple JSON values''))
               else Inr req))"

record OpenAccountReq =
  oaOwner :: string
  oaInitialDeposit :: int64

record MovementReq =
  mvAmount :: int64
  mvDescription :: string

record TransferReq =
  tqFrom :: string
  tqTo :: string
  tqAmount :: int64

definition put :: "('v \<Rightarrow> 'r) \<Rightarrow> 'v result \<Rightarrow> 'r result" where
  "put f x = (case x of Inl err \<Rightarrow> Inl err | Inr v \<Rightarrow> Inr (f v))"

definition assign_OpenAccountReq :: "string \<Rightarrow> json \<Rightarrow> OpenAccountReq \<Rightarrow> OpenAccountReq result" where
  "assign_OpenAccountReq k v r =
     (if key_matches ''owner'' k then put (\<lambda>x. r\<lparr>oaOwner := x\<rparr>) (decode_string ''.owner'' v (oaOwner r))
      else if key_matches ''initial_deposit_cents'' k
        then put (\<lambda>x. r\<lparr>oaInitialDeposit := x\<rparr>) (decode_int64 ''.initial_deposit_cents'' v (oaInitialDeposit r))
      else Inl (unknown_field k))"

definition assign_MovementReq :: "string \<Rightarrow> json \<Rightarrow> MovementReq \<Rightarrow> MovementReq result" where
  "assign_MovementReq k v r =
     (if key_matches ''amount_cents'' k then put (\<lambda>x. r\<lparr>mvAmount := x\<rparr>) (decode_int64 ''.amount_cents'' v (mvAmount r))
      else if key_matches ''description'' k
        then put (\<lambda>x. r\<lparr>mvDescription := x\<rparr>) (decode_string ''.description'' v (mvDescription r))
      else Inl (unknown_field k))"

definition assign_TransferReq :: "string \<Rightarrow> json \<Rightarrow> TransferReq \<Rightarrow> TransferReq result" where
  "assign_TransferReq k v r =
     (if key_matches ''from_account_id'' k then put (\<lambda>x. r\<lparr>tqFrom := x\<rparr>) (decode_string ''.from_account_id'' v (tqFrom r))
      else if key_matches ''to_account_id'' k then put (\<lambda>x. r\<lparr>tqTo := x\<rparr>) (decode_string ''.to_account_id'' v (tqTo r))
      else if key_matches ''amount_cents'' k
        then put (\<lambda>x. r\<lparr>tqAmount := x\<rparr>) (decode_int64 ''.amount_cents'' v (tqAmount r))
      else Inl (unknown_field k))"

text \<open>The names of the anonymous structs, as the decoder prints them when the body is no object.\<close>

definition field_text :: "string \<Rightarrow> string \<Rightarrow> string" where
  "field_text decl tag = decl @ '' '' @ quote (''json:'' @ quote tag)"

definition decode_OpenAccountReq :: "body_values \<Rightarrow> Response + OpenAccountReq" where
  "decode_OpenAccountReq =
     decode (''struct { '' @ field_text ''Owner string'' ''owner'' @ ''; '' @
         field_text ''InitialDeposit int64'' ''initial_deposit_cents'' @ '' }'')
       assign_OpenAccountReq \<lparr>oaOwner = [], oaInitialDeposit = 0\<rparr>"

definition decode_MovementReq :: "body_values \<Rightarrow> Response + MovementReq" where
  "decode_MovementReq =
     decode (''struct { '' @ field_text ''Amount int64'' ''amount_cents'' @ ''; '' @
         field_text ''Description string'' ''description'' @ '' }'')
       assign_MovementReq \<lparr>mvAmount = 0, mvDescription = []\<rparr>"

definition decode_TransferReq :: "body_values \<Rightarrow> Response + TransferReq" where
  "decode_TransferReq =
     decode (''struct { '' @ field_text ''From string'' ''from_account_id'' @ ''; '' @
         field_text ''To string'' ''to_account_id'' @ ''; '' @ field_text ''Amount int64'' ''amount_cents'' @ '' }'')
       assign_TransferReq \<lparr>tqFrom = [], tqTo = [], tqAmount = 0\<rparr>"

lemma decode_status: "decode typ assign zero vs = Inl resp \<Longrightarrow> Status resp = 400"
  by (auto simp: decode_def split: list.splits sum.splits if_splits)

section \<open>Query parameters\<close>

text \<open>\<^verbatim>\<open>URL.Query().Get\<close>: the first value, or the empty string.\<close>

definition query_Get :: "(string \<times> string) list \<Rightarrow> string \<Rightarrow> string" where
  "query_Get q name = (case map_of q name of Some v \<Rightarrow> v | None \<Rightarrow> [])"

text \<open>\<^verbatim>\<open>strconv.Atoi\<close>: an optional sign and decimal digits, within 64 bits.\<close>

definition digit_value :: "char \<Rightarrow> int option" where
  "digit_value c = (let n = of_char c :: int in if 48 \<le> n \<and> n \<le> 57 then Some (n - 48) else None)"

fun decimal :: "int \<Rightarrow> string \<Rightarrow> int option" where
  "decimal acc [] = Some acc"
| "decimal acc (c # cs) = (case digit_value c of None \<Rightarrow> None | Some d \<Rightarrow> decimal (10 * acc + d) cs)"

definition Atoi :: "string \<Rightarrow> int option" where
  "Atoi s =
     (let (sign, ds) = (case s of
          [] \<Rightarrow> (1, [])
        | c # cs \<Rightarrow> if c = CHR ''-'' then (- 1, cs) else if c = CHR ''+'' then (1, cs) else (1, s))
      in if ds = [] then None
         else case decimal 0 ds of
            None \<Rightarrow> None
          | Some n \<Rightarrow> if - 9223372036854775808 \<le> sign * n \<and> sign * n \<le> 9223372036854775807 then Some (sign * n) else None)"

text \<open>The limit of a statement, or \<^const>\<open>None\<close> for a bad request.\<close>

definition statement_limit :: "string \<Rightarrow> int option" where
  "statement_limit v =
     (if v = [] then Some 20
      else case Atoi v of
        None \<Rightarrow> None
      | Some n \<Rightarrow> if n \<le> 0 \<or> 100 < n then None else Some n)"

lemma statement_limit_range: "statement_limit v = Some n \<Longrightarrow> 0 < n \<and> n \<le> 100"
  by (auto simp: statement_limit_def split: if_splits option.splits)

lemma Atoi_samples:
  "Atoi ''42'' = Some 42" "Atoi ''-7'' = Some (- 7)" "Atoi ''+5'' = Some 5" "Atoi ''1x'' = None" "Atoi ''-'' = None"
  "Atoi ''9223372036854775808'' = None"
  by code_simp+

section \<open>The address of the client\<close>

text \<open>\<^verbatim>\<open>net.SplitHostPort\<close>: the host of \<^verbatim>\<open>host:port\<close> or \<^verbatim>\<open>[host]:port\<close>, or \<^const>\<open>None\<close> for its errors.\<close>

definition index_of :: "char \<Rightarrow> string \<Rightarrow> nat option" where
  "index_of c s = (let n = length (takeWhile (\<lambda>x. x \<noteq> c) s) in if n < length s then Some n else None)"

definition last_index_of :: "char \<Rightarrow> string \<Rightarrow> nat option" where
  "last_index_of c s = map_option (\<lambda>n. length s - 1 - n) (index_of c (rev s))"

definition SplitHostPort :: "string \<Rightarrow> string option" where
  "SplitHostPort s =
     (case last_index_of CHR '':'' s of
        None \<Rightarrow> None
      | Some i \<Rightarrow>
          if take 1 s = ''[''
          then (case index_of CHR '']'' s of
              None \<Rightarrow> None
            | Some e \<Rightarrow>
                if e + 1 \<noteq> i then None
                else if CHR ''['' \<in> set (drop 1 s) \<or> CHR '']'' \<in> set (drop (e + 1) s) then None
                else Some (drop 1 (take e s)))
          else if CHR '':'' \<in> set (take i s) then None
          else if CHR ''['' \<in> set s \<or> CHR '']'' \<in> set s then None
          else Some (take i s))"

definition clientIP :: "string \<Rightarrow> string" where
  "clientIP remoteAddr = (case SplitHostPort remoteAddr of Some host \<Rightarrow> host | None \<Rightarrow> remoteAddr)"

lemma clientIP_samples:
  "clientIP ''10.0.0.1:51234'' = ''10.0.0.1''" "clientIP ''[::1]:80'' = ''::1''" "clientIP ''::1'' = ''::1''"
  "clientIP ''10.0.0.1'' = ''10.0.0.1''" "clientIP ''[::1]'' = ''[::1]''"
  by code_simp+

text \<open>The port of a client does not matter for its address.\<close>

lemma clientIP_port:
  assumes "CHR '':'' \<notin> set host" "CHR ''['' \<notin> set host" "CHR '']'' \<notin> set host"
    and "CHR '':'' \<notin> set port" "CHR ''['' \<notin> set port" "CHR '']'' \<notin> set port"
  shows "clientIP (host @ '':'' @ port) = host"
proof -
  have "takeWhile (\<lambda>x. x \<noteq> CHR '':'') (rev port @ CHR '':'' # rev host) = rev port"
    using assms(4) by (auto simp: takeWhile_append)
  then have "last_index_of CHR '':'' (host @ '':'' @ port) = Some (length host)"
    by (simp add: last_index_of_def index_of_def)
  moreover have "take 1 (host @ '':'' @ port) \<noteq> ''[''" using assms(2) by (cases host) auto
  ultimately show ?thesis using assms by (simp add: clientIP_def SplitHostPort_def)
qed

end
