(* ===== verification/Float64.thy ===== *)
theory Float64
  imports Complex_Main "HOL-Library.Log_Nat"
begin

text \<open>
  Go's \<^verbatim>\<open>float64\<close>, as far as the rate limiter uses it: finite values are rationals, and every
  operation is the exact one followed by \<open>round64\<close>, rounding to the nearest number with 53 binary
  digits, to the even one when two are equally near. The range of the exponent is left out; the
  quantities of the limiter (seconds, tokens) neither overflow nor underflow.
\<close>

section \<open>Rounding\<close>

definition round_even :: "rat \<Rightarrow> int" where
  "round_even y =
     (let f = \<lfloor>y\<rfloor>; d = y - of_int f
      in if d < 1 / 2 then f else if 1 / 2 < d then f + 1 else if even f then f else f + 1)"

text \<open>The exponent of a positive number: \<open>2\<^sup>e \<le> x < 2\<^sup>e\<^sup>+\<^sup>1\<close>.\<close>

definition exponent :: "rat \<Rightarrow> int" where
  "exponent x =
     (case quotient_of x of (a, b) \<Rightarrow>
        (let e = bitlen a - bitlen b in if 2 powi e \<le> x then e else e - 1))"

definition round_pos :: "rat \<Rightarrow> rat" where
  "round_pos x = (let u = 2 powi (exponent x - 52) in of_int (round_even (x / u)) * u)"

definition round64 :: "rat \<Rightarrow> rat" where
  "round64 x = (if x = 0 then 0 else if x < 0 then - round_pos (- x) else round_pos x)"

section \<open>Facts\<close>

lemma round_even_error: "\<bar>of_int (round_even y) - y\<bar> \<le> 1 / 2"
proof -
  have "of_int \<lfloor>y\<rfloor> \<le> y" "y < of_int \<lfloor>y\<rfloor> + 1" by linarith+
  then show ?thesis unfolding round_even_def Let_def by (simp add: abs_le_iff)
qed

lemma round_even_of_int [simp]: "round_even (of_int n) = n"
  by (simp add: round_even_def)

lemma round_even_mono:
  assumes "y \<le> z"
  shows "round_even y \<le> round_even z"
proof (cases "\<lfloor>y\<rfloor> = \<lfloor>z\<rfloor>")
  case True
  with assms show ?thesis by (auto simp: round_even_def Let_def)
next
  case False
  have "round_even y \<le> \<lfloor>y\<rfloor> + 1" by (auto simp: round_even_def Let_def)
  also have "\<dots> \<le> \<lfloor>z\<rfloor>" using False floor_mono [OF assms] by linarith
  also have "\<dots> \<le> round_even z" by (auto simp: round_even_def Let_def)
  finally show ?thesis .
qed

lemma bitlen_rat:
  assumes "0 < a"
  shows "2 powi (bitlen a - 1) \<le> (of_int a :: rat)" and "(of_int a :: rat) < 2 powi bitlen a"
proof -
  have "1 \<le> bitlen a" using assms by (simp add: bitlen_alt_def)
  then have "(2 :: rat) powi (bitlen a - 1) = of_int (2 ^ nat (bitlen a - 1))"
    "(2 :: rat) powi bitlen a = of_int (2 ^ nat (bitlen a))"
    by (simp_all add: power_int_def)
  then show "2 powi (bitlen a - 1) \<le> (of_int a :: rat)" "(of_int a :: rat) < 2 powi bitlen a"
    using bitlen_bounds [OF assms] by (simp_all only: of_int_le_iff of_int_less_iff)
qed

lemma exponent_bounds:
  assumes "0 < x"
  shows "2 powi exponent x \<le> x" and "x < 2 powi (exponent x + 1)"
proof -
  obtain a b where q: "quotient_of x = (a, b)" by fastforce
  have x: "x = of_int a / of_int b" using quotient_of_div [OF q] .
  have b: "0 < b" using quotient_of_denom_pos [OF q] .
  then have a: "0 < a" using assms by (simp add: x zero_less_divide_iff)
  let ?e = "bitlen a - bitlen b"
  have "x < 2 powi bitlen a / 2 powi (bitlen b - 1)"
    unfolding x using bitlen_rat [OF a] bitlen_rat [OF b] a b by (intro frac_less) auto
  also have "\<dots> = 2 powi (?e + 1)" by (simp flip: power_int_diff add: algebra_simps)
  finally have up: "x < 2 powi (?e + 1)" .
  have "2 powi (?e - 1) = (2 :: rat) powi (bitlen a - 1) / 2 powi bitlen b"
    by (simp flip: power_int_diff add: algebra_simps)
  also have "\<dots> \<le> x"
    unfolding x using bitlen_rat [OF a] bitlen_rat [OF b] a b by (intro frac_le) auto
  finally have lo: "2 powi (?e - 1) \<le> x" .
  show "2 powi exponent x \<le> x" using lo by (simp add: exponent_def q Let_def)
  show "x < 2 powi (exponent x + 1)" using up by (simp add: exponent_def q Let_def)
qed

lemma exponent_mono:
  assumes "0 < x" and "x \<le> y"
  shows "exponent x \<le> exponent y"
proof (rule ccontr)
  assume "\<not> exponent x \<le> exponent y"
  then have "(2 :: rat) powi (exponent y + 1) \<le> 2 powi exponent x" by (intro power_int_increasing) auto
  with exponent_bounds [of x] exponent_bounds [of y] assms show False by linarith
qed

lemma scaled_bounds:
  assumes "0 < x"
  shows "2 ^ 52 \<le> x / 2 powi (exponent x - 52)" and "x / 2 powi (exponent x - 52) < 2 ^ 53"
proof -
  have p: "(0 :: rat) < 2 powi (exponent x - 52)" by simp
  have "2 ^ 52 * (2 :: rat) powi (exponent x - 52) = 2 powi exponent x"
    by (simp add: power_int_diff)
  then show "2 ^ 52 \<le> x / 2 powi (exponent x - 52)"
    using exponent_bounds(1) [OF assms] p by (simp add: pos_le_divide_eq)
  have "2 ^ 53 * (2 :: rat) powi (exponent x - 52) = 2 powi (exponent x + 1)"
    by (simp add: power_int_diff power_int_add)
  then show "x / 2 powi (exponent x - 52) < 2 ^ 53"
    using exponent_bounds(2) [OF assms] p by (simp add: pos_divide_less_eq)
qed

lemma round_pos_range:
  assumes "0 < x"
  shows "2 powi exponent x \<le> round_pos x" and "round_pos x \<le> 2 powi (exponent x + 1)"
proof -
  let ?u = "2 powi (exponent x - 52) :: rat"
  have "round_even (of_int (2 ^ 52)) \<le> round_even (x / ?u)"
    using scaled_bounds(1) [OF assms] by (intro round_even_mono) simp
  then have "2 ^ 52 \<le> round_even (x / ?u)" by (simp only: round_even_of_int)
  then have "(of_int (2 ^ 52) :: rat) \<le> of_int (round_even (x / ?u))" by (simp only: of_int_le_iff)
  then have "2 ^ 52 * ?u \<le> round_pos x" unfolding round_pos_def Let_def by (intro mult_right_mono) auto
  then show "2 powi exponent x \<le> round_pos x" by (simp add: power_int_diff)
  have "round_even (x / ?u) \<le> round_even (of_int (2 ^ 53))"
    using scaled_bounds(2) [OF assms] by (intro round_even_mono) simp
  then have "round_even (x / ?u) \<le> 2 ^ 53" by (simp only: round_even_of_int)
  then have "of_int (round_even (x / ?u)) \<le> (of_int (2 ^ 53) :: rat)" by (simp only: of_int_le_iff)
  then have "round_pos x \<le> 2 ^ 53 * ?u" unfolding round_pos_def Let_def by (intro mult_right_mono) auto
  then show "round_pos x \<le> 2 powi (exponent x + 1)" by (simp add: power_int_diff power_int_add)
qed

lemma round_pos_positive: "0 < x \<Longrightarrow> 0 < round_pos x"
  by (rule less_le_trans [OF _ round_pos_range(1)]) simp_all

lemma round_pos_mono:
  assumes "0 < x" and "x \<le> y"
  shows "round_pos x \<le> round_pos y"
proof (cases "exponent x = exponent y")
  case True
  show ?thesis
    unfolding round_pos_def Let_def True
    using assms by (intro mult_right_mono) (auto intro!: round_even_mono divide_right_mono)
next
  case False
  then have "exponent x + 1 \<le> exponent y" using exponent_mono [OF assms] by linarith
  then have "(2 :: rat) powi (exponent x + 1) \<le> 2 powi exponent y" by (intro power_int_increasing) auto
  with round_pos_range(2) [OF assms(1)] round_pos_range(1) [of y] assms show ?thesis by linarith
qed

lemma round_pos_error:
  assumes "0 < x"
  shows "\<bar>round_pos x - x\<bar> \<le> x / 2 ^ 53"
proof -
  let ?u = "2 powi (exponent x - 52) :: rat"
  have "round_pos x - x = (of_int (round_even (x / ?u)) - x / ?u) * ?u"
    by (simp add: round_pos_def Let_def algebra_simps)
  then have "\<bar>round_pos x - x\<bar> = \<bar>of_int (round_even (x / ?u)) - x / ?u\<bar> * ?u" by (simp add: abs_mult)
  also have "\<dots> \<le> 1 / 2 * ?u" by (intro mult_right_mono round_even_error) simp
  also have "\<dots> = 2 powi exponent x / 2 ^ 53" by (simp add: power_int_diff)
  also have "\<dots> \<le> x / 2 ^ 53" by (intro divide_right_mono exponent_bounds assms) simp
  finally show ?thesis .
qed

text \<open>What the components use: rounding is monotone, keeps 0, and has a relative error of at most \<open>2\<^sup>-\<^sup>5\<^sup>3\<close>.\<close>

lemma round64_zero [simp]: "round64 0 = 0"
  by (simp add: round64_def)

lemma round64_mono: "x \<le> y \<Longrightarrow> round64 x \<le> round64 y"
  using round_pos_mono [of x y] round_pos_mono [of "- y" "- x"] round_pos_positive [of y] round_pos_positive [of "- x"]
  by (auto simp: round64_def)

lemma round64_nonneg: "0 \<le> x \<Longrightarrow> 0 \<le> round64 x"
  using round64_mono [of 0 x] by simp

lemma round64_error: "\<bar>round64 x - x\<bar> \<le> \<bar>x\<bar> / 2 ^ 53"
  using round_pos_error [of x] round_pos_error [of "- x"] by (auto simp: round64_def abs_if split: if_splits)

lemma round64_upper: "0 \<le> x \<Longrightarrow> round64 x \<le> x * (1 + 1 / 2 ^ 53)"
  using round64_error [of x] by (simp add: abs_if field_simps split: if_splits)

end
