(* ===== verification/RateLimit.thy ===== *)
theory RateLimit
  imports Float64 "HOL-Library.Signed_Division"
begin

text \<open>
  \<^verbatim>\<open>internal/api/ratelimit.go\<close>: a token bucket for every client address. Times are nanoseconds on
  the clock of \<^verbatim>\<open>time.Now\<close>; the mutex makes \<^verbatim>\<open>Allow\<close> and one pass of the janitor single steps. Go lets
  the compiler fuse a multiplication and an addition into one rounding; \<open>fma\<close> says whether it
  does.
\<close>

section \<open>State\<close>

record bucket =
  tokens :: rat
  last_at :: int

record RateLimiter =
  buckets :: "string \<rightharpoonup> bucket"
  rate :: rat
  burst :: rat

definition NewRateLimiter :: "rat \<Rightarrow> rat \<Rightarrow> RateLimiter" where
  "NewRateLimiter ratePerSecond brst = \<lparr>buckets = Map.empty, rate = ratePerSecond, burst = brst\<rparr>"

section \<open>Operations\<close>

text \<open>\<^verbatim>\<open>Time.Sub\<close> saturates at the ends of \<^verbatim>\<open>int64\<close>; \<^verbatim>\<open>Duration.Seconds\<close> adds whole seconds and the rest.\<close>

definition time_Sub :: "int \<Rightarrow> int \<Rightarrow> int" where
  "time_Sub t u = max (- 9223372036854775808) (min 9223372036854775807 (t - u))"

definition Seconds :: "int \<Rightarrow> rat" where
  "Seconds d = round64 (round64 (of_int (d sdiv 1000000000)) +
     round64 (round64 (of_int (d smod 1000000000)) / 1000000000))"

definition refill :: "bool \<Rightarrow> RateLimiter \<Rightarrow> bucket \<Rightarrow> int \<Rightarrow> rat" where
  "refill fma rl b now =
     (let elapsed = Seconds (time_Sub now (last_at b))
      in min (burst rl)
           (if fma then round64 (tokens b + elapsed * rate rl)
            else round64 (tokens b + round64 (elapsed * rate rl))))"

definition bucket_at :: "RateLimiter \<Rightarrow> string \<Rightarrow> int \<Rightarrow> bucket" where
  "bucket_at rl key now = (case buckets rl key of Some b \<Rightarrow> b | None \<Rightarrow> \<lparr>tokens = burst rl, last_at = now\<rparr>)"

definition Allow :: "bool \<Rightarrow> RateLimiter \<Rightarrow> string \<Rightarrow> int \<Rightarrow> bool \<times> RateLimiter" where
  "Allow fma rl key now =
     (let b = bucket_at rl key now;
          t = refill fma rl b now
      in if 1 \<le> t
         then (True, rl\<lparr>buckets := (buckets rl)(key \<mapsto> \<lparr>tokens = round64 (t - 1), last_at = now\<rparr>)\<rparr>)
         else (False, rl\<lparr>buckets := (buckets rl)(key \<mapsto> \<lparr>tokens = t, last_at = now\<rparr>)\<rparr>))"

definition janitor_pass :: "RateLimiter \<Rightarrow> int \<Rightarrow> RateLimiter" where
  "janitor_pass rl now =
     (let cutoff = now - 300000000000
      in rl\<lparr>buckets := (\<lambda>k. case buckets rl k of
             None \<Rightarrow> None
           | Some b \<Rightarrow> if last_at b < cutoff then None else Some b)\<rparr>)"

text \<open>Requests and passes of the janitor in the order in which they get the mutex; the answers are those to the requests.\<close>

datatype limiter_call = Request string | Sweep

fun limiter_run :: "bool \<Rightarrow> (int \<times> limiter_call) list \<Rightarrow> RateLimiter \<Rightarrow> (string \<times> bool) list \<times> RateLimiter" where
  "limiter_run fma [] rl = ([], rl)"
| "limiter_run fma ((t, Request k) # cs) rl =
     (case Allow fma rl k t of (ok, rl') \<Rightarrow>
       (case limiter_run fma cs rl' of (as, rl'') \<Rightarrow> ((k, ok) # as, rl'')))"
| "limiter_run fma ((t, Sweep) # cs) rl = limiter_run fma cs (janitor_pass rl t)"

section \<open>The bucket\<close>

lemma smod_bounds: "0 \<le> d \<Longrightarrow> 0 \<le> d smod (1000000000 :: int) \<and> d smod 1000000000 < 1000000000"
  by (simp add: signed_modulo_int_def sgn_if)

lemma sdiv_smod: "0 \<le> d \<Longrightarrow> (d sdiv 1000000000) * 1000000000 + d smod (1000000000 :: int) = d"
  by (simp add: signed_divide_int_def signed_modulo_int_def sgn_if)

lemma sdiv_nonneg: "0 \<le> d \<Longrightarrow> 0 \<le> d sdiv (1000000000 :: int)"
  by (simp add: signed_divide_int_def sgn_if pos_imp_zdiv_nonneg_iff)

lemma Seconds_0 [simp]: "Seconds 0 = 0"
  by (simp add: Seconds_def)

lemma Seconds_lower:
  assumes "300000000000 \<le> d"
  shows "300 \<le> Seconds d"
proof -
  have r: "round64 300 = 300" by code_simp
  have d: "0 \<le> d smod 1000000000" "d smod 1000000000 < 1000000000" using smod_bounds [of d] assms by auto
  then have "300 \<le> d sdiv 1000000000" using sdiv_smod [of d] assms by linarith
  then have "round64 300 \<le> round64 (of_int (d sdiv 1000000000))" by (intro round64_mono) linarith
  moreover have "0 \<le> round64 (round64 (of_int (d smod 1000000000)) / 1000000000)"
    using d(1) by (intro round64_nonneg divide_nonneg_pos) auto
  ultimately have "round64 300 \<le> Seconds d" unfolding Seconds_def by (intro round64_mono) (simp add: r)
  then show ?thesis by (simp add: r)
qed

lemma Seconds_nonneg: "0 \<le> d \<Longrightarrow> 0 \<le> Seconds d"
  unfolding Seconds_def
  by (intro round64_nonneg add_nonneg_nonneg divide_nonneg_pos) (auto simp: sdiv_nonneg smod_bounds)

text \<open>One rounding is a factor of at most \<open>rounding\<close>.\<close>

definition rounding :: rat where
  "rounding = 1 + 1 / 2 ^ 53"

lemma rounding_pos [simp]: "0 < rounding" "1 \<le> rounding" "0 \<le> rounding"
  by (simp_all add: rounding_def)

lemma round64_times:
  assumes "0 \<le> x" and "x \<le> y"
  shows "round64 x \<le> y * rounding"
proof -
  have "round64 x \<le> x * rounding" using round64_upper [OF assms(1)] by (simp add: rounding_def)
  also have "\<dots> \<le> y * rounding" using assms(2) by (intro mult_right_mono) auto
  finally show ?thesis .
qed

lemma rounding_grows: "0 \<le> x \<Longrightarrow> m \<le> n \<Longrightarrow> x * rounding ^ m \<le> x * rounding ^ n"
  by (intro mult_left_mono power_increasing) auto

lemma Seconds_upper:
  assumes "0 \<le> d"
  shows "Seconds d \<le> of_int d / 1000000000 * rounding ^ 3"
proof -
  let ?s = "of_int (d sdiv 1000000000) :: rat" and ?n = "of_int (d smod 1000000000) :: rat"
  have p: "0 \<le> ?s" "0 \<le> ?n" using assms by (simp_all add: sdiv_nonneg smod_bounds)
  have s: "round64 ?s \<le> ?s * rounding ^ 2"
    using round64_times [OF p(1) order_refl] rounding_grows [OF p(1), of 1 2] by simp
  have "round64 ?n / 1000000000 \<le> ?n / 1000000000 * rounding"
    using round64_times [OF p(2) order_refl] by (simp add: divide_right_mono)
  then have n: "round64 (round64 ?n / 1000000000) \<le> ?n / 1000000000 * rounding ^ 2"
    using round64_times [of "round64 ?n / 1000000000" "?n / 1000000000 * rounding"] round64_nonneg [OF p(2)]
    by (simp add: power2_eq_square mult.assoc)
  have "(of_int d :: rat) = ?s * 1000000000 + ?n"
    using arg_cong [OF sdiv_smod [OF assms], of "of_int :: int \<Rightarrow> rat"] by simp
  then have e: "of_int d / 1000000000 * rounding ^ 2 = ?s * rounding ^ 2 + ?n / 1000000000 * rounding ^ 2"
    by (simp add: field_simps)
  have "Seconds d \<le> of_int d / 1000000000 * rounding ^ 2 * rounding"
    unfolding Seconds_def e using s n p
    by (intro round64_times add_mono) (auto intro!: add_nonneg_nonneg round64_nonneg divide_nonneg_pos)
  then show ?thesis by (simp add: power3_eq_cube power2_eq_square mult.assoc)
qed

lemma capped_growth:
  assumes "0 \<le> y" and "0 \<le> (B :: rat)" and "1 \<le> q" and "x \<le> y * q"
  shows "min B x \<le> y + B * (q - 1)"
proof (cases "y \<le> B")
  case True
  then have "y * (q - 1) \<le> B * (q - 1)" using assms(3) by (intro mult_right_mono) auto
  then have "y * q \<le> y + B * (q - 1)" by (simp add: algebra_simps)
  with assms(4) show ?thesis by linarith
next
  case False
  moreover have "0 \<le> B * (q - 1)" using assms(2,3) by simp
  ultimately show ?thesis by linarith
qed

definition accrued :: "rat \<Rightarrow> int \<Rightarrow> rat" where
  "accrued r d = r * (of_int d / 1000000000)"

lemma accrued_nonneg: "0 \<le> r \<Longrightarrow> 0 \<le> d \<Longrightarrow> 0 \<le> accrued r d"
  by (simp add: accrued_def)

lemma accrued_add: "accrued r (d + e) = accrued r d + accrued r e"
  by (simp add: accrued_def field_simps)

lemma accrued_mono: "0 \<le> r \<Longrightarrow> d \<le> e \<Longrightarrow> accrued r d \<le> accrued r e"
  by (simp add: accrued_def mult_left_mono divide_right_mono)

lemma time_Sub_bounds: "u \<le> t \<Longrightarrow> 0 \<le> time_Sub t u \<and> time_Sub t u \<le> t - u"
  by (simp add: time_Sub_def)

lemma refill_sum:
  assumes "0 \<le> tokens b" and "last_at b \<le> now" and "0 \<le> rate rl"
  defines "S \<equiv> Seconds (time_Sub now (last_at b)) * rate rl"
  shows "(if fma then round64 (tokens b + S) else round64 (tokens b + round64 S))
    \<le> (tokens b + accrued (rate rl) (now - last_at b)) * rounding ^ 5"
proof -
  note d = time_Sub_bounds [OF assms(2)]
  let ?A = "accrued (rate rl) (now - last_at b)" and ?D = "time_Sub now (last_at b)"
  have S0: "0 \<le> S" unfolding S_def using d assms(3) by (simp add: Seconds_nonneg)
  have A0: "0 \<le> ?A" using assms(2,3) by (intro accrued_nonneg) auto
  have "S \<le> of_int ?D / 1000000000 * rounding ^ 3 * rate rl"
    unfolding S_def using d assms(3) by (intro mult_right_mono Seconds_upper) auto
  also have "\<dots> = accrued (rate rl) ?D * rounding ^ 3" by (simp add: accrued_def)
  also have "\<dots> \<le> ?A * rounding ^ 3" using d assms(3) by (intro mult_right_mono accrued_mono) auto
  finally have S3: "S \<le> ?A * rounding ^ 3" .
  have S4: "round64 S \<le> ?A * rounding ^ 4"
    using round64_times [OF S0 S3] by (simp add: mult.assoc power_Suc2 [symmetric])
  have t4: "tokens b \<le> tokens b * rounding ^ 4" using rounding_grows [OF assms(1), of 0 4] by simp
  have "tokens b + S \<le> (tokens b + ?A) * rounding ^ 4"
    using t4 S3 rounding_grows [OF A0, of 3 4] by (simp add: distrib_right)
  moreover have "tokens b + round64 S \<le> (tokens b + ?A) * rounding ^ 4"
    using t4 S4 by (simp add: distrib_right)
  ultimately have "round64 (tokens b + S) \<le> (tokens b + ?A) * rounding ^ 4 * rounding"
    "round64 (tokens b + round64 S) \<le> (tokens b + ?A) * rounding ^ 4 * rounding"
    using assms(1) S0 round64_nonneg [OF S0] by (auto intro!: round64_times)
  then show ?thesis by (simp add: mult.assoc power_Suc2 [symmetric])
qed

lemma refill_upper:
  assumes "0 \<le> tokens b" and "last_at b \<le> now" and "0 \<le> rate rl" and "0 \<le> burst rl"
  shows "refill fma rl b now \<le> tokens b + accrued (rate rl) (now - last_at b) + burst rl * (rounding ^ 5 - 1)"
  unfolding refill_def Let_def
  using assms by (intro capped_growth refill_sum) (auto intro!: accrued_nonneg add_nonneg_nonneg one_le_power)

lemma refill_nonneg:
  assumes "0 \<le> tokens b" and "last_at b \<le> now" and "0 \<le> rate rl" and "0 \<le> burst rl"
  shows "0 \<le> refill fma rl b now"
  using assms time_Sub_bounds [OF assms(2)]
  by (auto simp: refill_def Let_def intro!: round64_nonneg add_nonneg_nonneg mult_nonneg_nonneg Seconds_nonneg)

lemma refill_burst: "refill fma rl b now \<le> burst rl"
  by (simp add: refill_def Let_def)

text \<open>What one answered request costs: at most a rounding more than was there.\<close>

lemma take_token:
  assumes "1 \<le> t" and "t \<le> B"
  shows "0 \<le> round64 (t - 1)" and "round64 (t - 1) + 1 \<le> t + B / 2 ^ 53"
proof -
  show "0 \<le> round64 (t - 1)" using assms by (intro round64_nonneg) auto
  have "round64 (t - 1) \<le> (t - 1) * (1 + 1 / 2 ^ 53)" using assms by (intro round64_upper) auto
  also have "\<dots> = t - 1 + (t - 1) / 2 ^ 53" by (simp add: field_simps)
  also have "\<dots> \<le> t - 1 + B / 2 ^ 53" using assms by (simp add: divide_right_mono)
  finally show "round64 (t - 1) + 1 \<le> t + B / 2 ^ 53" by simp
qed

section \<open>Runs\<close>

definition usable :: "int \<Rightarrow> RateLimiter \<Rightarrow> bool" where
  "usable t rl \<longleftrightarrow> 0 \<le> rate rl \<and> 0 \<le> burst rl \<and>
     (\<forall>k b. buckets rl k = Some b \<longrightarrow> 0 \<le> tokens b \<and> last_at b \<le> t)"

definition level :: "RateLimiter \<Rightarrow> string \<Rightarrow> int \<Rightarrow> rat" where
  "level rl k t = (case buckets rl k of
       None \<Rightarrow> burst rl
     | Some b \<Rightarrow> tokens b + accrued (rate rl) (t - last_at b))"

lemma usable_New: "0 \<le> r \<Longrightarrow> 0 \<le> B \<Longrightarrow> usable t (NewRateLimiter r B)"
  by (simp add: usable_def NewRateLimiter_def)

lemma New_config [simp]: "rate (NewRateLimiter r B) = r" "burst (NewRateLimiter r B) = B"
  by (simp_all add: NewRateLimiter_def)

lemma usable_later: "usable t rl \<Longrightarrow> t \<le> t' \<Longrightarrow> usable t' rl"
  by (fastforce simp: usable_def)

lemma Allow_config: "Allow fma rl k t = (ok, rl') \<Longrightarrow> rate rl' = rate rl \<and> burst rl' = burst rl"
  by (auto simp: Allow_def Let_def split: if_splits)

lemma Allow_other: "Allow fma rl k t = (ok, rl') \<Longrightarrow> k' \<noteq> k \<Longrightarrow> buckets rl' k' = buckets rl k'"
  by (auto simp: Allow_def Let_def split: if_splits)

text \<open>The bucket after a request, and what the request cost.\<close>

lemma Allow_bucket:
  assumes "Allow fma rl k t = (ok, rl')" and "usable t rl"
  obtains b where "buckets rl' k = Some b" and "last_at b = t" and "0 \<le> tokens b"
    and "tokens b + of_bool ok \<le> burst rl + burst rl / 2 ^ 53"
    and "tokens b + of_bool ok \<le> level rl k t + burst rl / 2 ^ 50"
proof -
  define b0 where "b0 = bucket_at rl k t"
  define x where "x = refill fma rl b0 t"
  have u: "0 \<le> rate rl" "0 \<le> burst rl" "0 \<le> tokens b0" "last_at b0 \<le> t"
    using assms(2) by (auto simp: usable_def b0_def bucket_at_def split: option.splits)
  have x0: "0 \<le> x" and xB: "x \<le> burst rl" using u by (simp_all add: x_def refill_nonneg refill_burst)
  have lv: "tokens b0 + accrued (rate rl) (t - last_at b0) = level rl k t"
    by (simp add: b0_def bucket_at_def level_def accrued_def split: option.splits)
  have "rounding ^ 5 - 1 + 1 / 2 ^ 53 \<le> 1 / 2 ^ 50" unfolding rounding_def by code_simp
  then have "burst rl * (rounding ^ 5 - 1 + 1 / 2 ^ 53) \<le> burst rl * (1 / 2 ^ 50)" using u(2) by (rule mult_left_mono)
  then have e: "burst rl * (rounding ^ 5 - 1) + burst rl * (1 / 2 ^ 53) \<le> burst rl * (1 / 2 ^ 50)" by (simp only: distrib_left)
  have d: "burst rl / 2 ^ 53 = burst rl * (1 / 2 ^ 53)" "burst rl / 2 ^ 50 = burst rl * (1 / 2 ^ 50)" by simp_all
  have "x \<le> level rl k t + burst rl * (rounding ^ 5 - 1)"
    using refill_upper [OF u(3,4,1,2), of fma] unfolding x_def lv .
  with e have xl: "x + burst rl / 2 ^ 53 \<le> level rl k t + burst rl / 2 ^ 50" unfolding d by linarith
  show thesis
  proof (cases "1 \<le> x")
    case True
    then show thesis
      using assms(1) take_token [OF True xB] xB xl
      by (intro that [of "\<lparr>tokens = round64 (x - 1), last_at = t\<rparr>"])
        (auto simp: Allow_def Let_def b0_def [symmetric] x_def [symmetric])
  next
    case False
    have "0 \<le> burst rl / 2 ^ 53" using u(2) by simp
    with False show thesis
      using assms(1) x0 xB xl
      by (intro that [of "\<lparr>tokens = x, last_at = t\<rparr>"])
        (auto simp: Allow_def Let_def b0_def [symmetric] x_def [symmetric])
  qed
qed

lemma Allow_usable:
  assumes "Allow fma rl k t = (ok, rl')" and "usable t rl"
  shows "usable t rl'"
proof -
  obtain b where "buckets rl' k = Some b" "last_at b = t" "0 \<le> tokens b" using Allow_bucket [OF assms] by blast
  then have "0 \<le> tokens b' \<and> last_at b' \<le> t" if "buckets rl' k' = Some b'" for k' b'
    using that Allow_other [OF assms(1), of k'] assms(2) by (cases "k' = k") (auto simp: usable_def)
  then show ?thesis using assms(2) Allow_config [OF assms(1)] by (simp add: usable_def)
qed

section \<open>The janitor\<close>

text \<open>The limiter with the janitor against the one without: a bucket it removed would be full again.\<close>

definition swept :: "int \<Rightarrow> RateLimiter \<Rightarrow> RateLimiter \<Rightarrow> bool" where
  "swept t rl rl' \<longleftrightarrow> rate rl = rate rl' \<and> burst rl = burst rl' \<and>
     (\<forall>k. buckets rl k = buckets rl' k \<or>
        buckets rl k = None \<and> (\<exists>b. buckets rl' k = Some b \<and> last_at b + 300000000000 \<le> t))"

lemma swept_later: "swept t rl rl' \<Longrightarrow> t \<le> t' \<Longrightarrow> swept t' rl rl'"
  unfolding swept_def by (meson order_trans)

lemma janitor_pass_bucket:
  "buckets (janitor_pass rl t) k = (case buckets rl k of
     None \<Rightarrow> None | Some b \<Rightarrow> if last_at b < t - 300000000000 then None else Some b)"
  by (simp add: janitor_pass_def Let_def)

lemma janitor_pass_config [simp]: "rate (janitor_pass rl t) = rate rl" "burst (janitor_pass rl t) = burst rl"
  by (simp_all add: janitor_pass_def Let_def)

lemma janitor_pass_swept:
  assumes "swept t rl rl'"
  shows "swept t (janitor_pass rl t) rl'"
proof -
  have "buckets (janitor_pass rl t) k = buckets rl' k \<or> buckets (janitor_pass rl t) k = None \<and>
      (\<exists>b. buckets rl' k = Some b \<and> last_at b + 300000000000 \<le> t)" for k
  proof (cases "buckets rl k = buckets rl' k")
    case True
    then show ?thesis by (cases "buckets rl' k") (auto simp: janitor_pass_bucket)
  next
    case False
    with assms show ?thesis unfolding swept_def janitor_pass_bucket by fastforce
  qed
  with assms show ?thesis by (simp add: swept_def)
qed

lemma refill_new: "round64 (burst rl) = burst rl \<Longrightarrow> refill fma rl \<lparr>tokens = burst rl, last_at = t\<rparr> t = burst rl"
  by (simp add: refill_def Let_def time_Sub_def)

lemma refill_idle:
  assumes "0 \<le> tokens b" and "last_at b + 300000000000 \<le> t" and "0 \<le> rate rl"
    and "round64 (burst rl) = burst rl" and "burst rl \<le> 300 * rate rl"
  shows "refill fma rl b t = burst rl"
proof -
  let ?S = "Seconds (time_Sub t (last_at b)) * rate rl"
  have "300000000000 \<le> time_Sub t (last_at b)" using assms(2) by (simp add: time_Sub_def)
  then have "300 * rate rl \<le> ?S" using assms(3) by (intro mult_right_mono Seconds_lower)
  then have "burst rl \<le> ?S" using assms(5) by simp
  then have "burst rl \<le> round64 ?S" using round64_mono [of "burst rl" ?S] assms(4) by simp
  then have "burst rl \<le> tokens b + round64 ?S" "burst rl \<le> tokens b + ?S" using \<open>burst rl \<le> ?S\<close> assms(1) by simp_all
  then have "burst rl \<le> round64 (tokens b + round64 ?S)" "burst rl \<le> round64 (tokens b + ?S)"
    using round64_mono assms(4) by metis+
  then show ?thesis by (simp add: refill_def Let_def)
qed

lemma Allow_swept:
  assumes "swept t rl rl'" and "usable t rl'" and "round64 (burst rl') = burst rl'" and "burst rl' \<le> 300 * rate rl'"
    and "Allow fma rl k t = (ok, rl1)" and "Allow fma rl' k t = (ok', rl1')"
  shows "ok = ok'" and "swept t rl1 rl1'"
proof -
  have c: "rate rl = rate rl'" "burst rl = burst rl'" using assms(1) by (simp_all add: swept_def)
  have "refill fma rl (bucket_at rl k t) t = refill fma rl' (bucket_at rl' k t) t"
  proof (cases "buckets rl k = buckets rl' k")
    case True
    then have "bucket_at rl k t = bucket_at rl' k t" by (simp add: bucket_at_def c split: option.split)
    then show ?thesis by (cases fma) (simp_all add: refill_def c)
  next
    case False
    then obtain b where b: "buckets rl k = None" "buckets rl' k = Some b" "last_at b + 300000000000 \<le> t"
      using assms(1) unfolding swept_def by blast
    have "0 \<le> tokens b" "0 \<le> rate rl'" using assms(2) b(2) unfolding usable_def by auto
    then have "refill fma rl' b t = burst rl'" using refill_idle b(3) assms(3,4) by blast
    with b refill_new [of rl] assms(3) show ?thesis by (simp add: bucket_at_def c)
  qed
  then have same: "ok = ok' \<and> buckets rl1 k = buckets rl1' k"
    using assms(5,6) by (auto simp: Allow_def Let_def split: if_splits)
  then show "ok = ok'" by simp
  show "swept t rl1 rl1'"
    using same assms(1) Allow_config [OF assms(5)] Allow_config [OF assms(6)] Allow_other [OF assms(5)] Allow_other [OF assms(6)]
    unfolding swept_def by metis
qed

lemma limiter_run_swept:
  assumes "sorted (map fst cs)" and "\<And>c. c \<in> set cs \<Longrightarrow> t0 \<le> fst c"
    and "swept t0 rl rl'" and "usable t0 rl'" and "round64 (burst rl') = burst rl'" and "burst rl' \<le> 300 * rate rl'"
  shows "fst (limiter_run fma cs rl) = fst (limiter_run fma (filter (\<lambda>c. snd c \<noteq> Sweep) cs) rl')"
  using assms
proof (induction fma cs rl arbitrary: rl' t0 rule: limiter_run.induct)
  case (2 fma t k cs rl)
  obtain ok rl1 where A: "Allow fma rl k t = (ok, rl1)" by fastforce
  obtain ok' rl1' where A': "Allow fma rl' k t = (ok', rl1')" by fastforce
  have t: "t0 \<le> t" using "2.prems"(2) by fastforce
  note pre = swept_later [OF "2.prems"(3) t] usable_later [OF "2.prems"(4) t]
  note step = Allow_swept [OF pre "2.prems"(5,6) A A']
  have "fst (limiter_run fma cs rl1) = fst (limiter_run fma (filter (\<lambda>c. snd c \<noteq> Sweep) cs) rl1')"
    using "2.prems"(1,5,6) Allow_config [OF A'] Allow_usable [OF A' pre(2)]
    by (intro "2.IH" [OF A [symmetric], of t]) (auto simp: step)
  then show ?case using A A' step(1)
    by (cases "limiter_run fma cs rl1"; cases "limiter_run fma (filter (\<lambda>c. snd c \<noteq> Sweep) cs) rl1'") simp
next
  case (3 fma t cs rl)
  have t: "t0 \<le> t" using "3.prems"(2) by fastforce
  show ?case
    using "3.prems"(1,5,6) janitor_pass_swept [OF swept_later [OF "3.prems"(3) t]] usable_later [OF "3.prems"(4) t]
    by (simp add: "3.IH" [of t])
qed simp

section \<open>How many requests pass\<close>

definition granted :: "string \<Rightarrow> (string \<times> bool) list \<Rightarrow> nat" where
  "granted k as = length (filter (\<lambda>a. fst a = k \<and> snd a) as)"

definition asked :: "string \<Rightarrow> (string \<times> bool) list \<Rightarrow> nat" where
  "asked k as = length (filter (\<lambda>a. fst a = k) as)"

lemma counts_simps [simp]:
  "granted k [] = 0" "asked k [] = 0" "granted k ((k', ok) # as) = of_bool (k' = k \<and> ok) + granted k as"
  "asked k ((k', ok) # as) = of_bool (k' = k) + asked k as"
  by (simp_all add: granted_def asked_def)

lemma counts:
  assumes "k' = k"
  shows "(of_nat (granted k ((k', ok) # as)) :: rat) = of_bool ok + of_nat (granted k as)"
    and "of_nat (asked k ((k', ok) # as)) * (e :: rat) = e + of_nat (asked k as) * e"
  using assms by (simp_all add: distrib_right)

text \<open>Requests only, from a bucket that was used before.\<close>

lemma granted_from_bucket:
  assumes "sorted (map fst cs)" and "\<And>c. c \<in> set cs \<Longrightarrow> t0 \<le> fst c \<and> fst c \<le> t1 \<and> snd c \<noteq> Sweep"
    and "usable t0 rl" and "buckets rl k = Some b" and "as = fst (limiter_run fma cs rl)" and "t0 \<le> t1"
  shows "of_nat (granted k as) \<le> tokens b + accrued (rate rl) (t1 - last_at b) + of_nat (asked k as) * (burst rl / 2 ^ 50)"
  using assms
proof (induction fma cs rl arbitrary: t0 b as rule: limiter_run.induct)
  case (1 fma rl)
  then have "0 \<le> rate rl" "0 \<le> tokens b" "last_at b \<le> t0" by (auto simp: usable_def)
  then show ?case using "1.prems"(5) "1.prems"(6) accrued_nonneg [of "rate rl" "t1 - last_at b"] by simp
next
  case (2 fma t k' cs rl)
  obtain ok rl1 where A: "Allow fma rl k' t = (ok, rl1)" by fastforce
  have t: "t0 \<le> t" "t \<le> t1" using "2.prems"(2) by fastforce+
  note u = usable_later [OF "2.prems"(3) t(1)]
  define as1 where "as1 = fst (limiter_run fma cs rl1)"
  have as: "as = (k', ok) # as1" using "2.prems"(5) A by (simp add: as1_def split: prod.splits)
  have IH: "buckets rl1 k = Some b1 \<Longrightarrow> of_nat (granted k as1) \<le>
      tokens b1 + accrued (rate rl) (t1 - last_at b1) + of_nat (asked k as1) * (burst rl / 2 ^ 50)" for b1
    using "2.IH" [OF A [symmetric], of t b1 as1] "2.prems"(1,2) Allow_usable [OF A u] Allow_config [OF A] t
    by (fastforce simp: as1_def)
  show ?case
  proof (cases "k' = k")
    case True
    obtain b1 where b1: "buckets rl1 k = Some b1" "last_at b1 = t"
        "tokens b1 + of_bool ok \<le> level rl k t + burst rl / 2 ^ 50"
      using Allow_bucket [OF A u] True by blast
    have "level rl k t + accrued (rate rl) (t1 - t) = tokens b + accrued (rate rl) (t1 - last_at b)"
      using "2.prems"(4) accrued_add [of "rate rl" "t - last_at b" "t1 - t"] by (simp add: level_def)
    with IH [OF b1(1), unfolded b1(2)] b1(3) show ?thesis unfolding as counts [OF True] by linarith
  next
    case False
    with IH [of b] Allow_other [OF A, of k] "2.prems"(4) show ?thesis by (simp add: as)
  qed
next
  case (3 fma t cs rl)
  then show ?case by force
qed

lemma granted_in_window:
  assumes "sorted (map fst cs)" and "\<And>c. c \<in> set cs \<Longrightarrow> t0 \<le> fst c \<and> fst c \<le> t1 \<and> snd c \<noteq> Sweep"
    and "usable t0 rl" and "as = fst (limiter_run fma cs rl)" and "t0 \<le> t1"
  shows "of_nat (granted k as) \<le> burst rl + accrued (rate rl) (t1 - t0) + of_nat (asked k as) * (burst rl / 2 ^ 50)"
  using assms
proof (induction fma cs rl arbitrary: t0 as rule: limiter_run.induct)
  case (1 fma rl)
  then show ?case using accrued_nonneg [of "rate rl" "t1 - t0"] by (simp add: usable_def)
next
  case (2 fma t k' cs rl)
  obtain ok rl1 where A: "Allow fma rl k' t = (ok, rl1)" by fastforce
  have t: "t0 \<le> t" "t \<le> t1" using "2.prems"(2) by fastforce+
  note u = usable_later [OF "2.prems"(3) t(1)]
  define as1 where "as1 = fst (limiter_run fma cs rl1)"
  have as: "as = (k', ok) # as1" using "2.prems"(4) A by (simp add: as1_def split: prod.splits)
  have cs: "sorted (map fst cs)" "\<And>c. c \<in> set cs \<Longrightarrow> t \<le> fst c \<and> fst c \<le> t1 \<and> snd c \<noteq> Sweep"
    using "2.prems"(1,2) by fastforce+
  note step = Allow_usable [OF A u] Allow_config [OF A]
  have acc: "accrued (rate rl) (t1 - t) \<le> accrued (rate rl) (t1 - t0)"
    using u t(1) by (intro accrued_mono) (auto simp: usable_def)
  have small: "burst rl / 2 ^ 53 \<le> burst rl / 2 ^ 50" using u by (simp add: usable_def field_simps)
  show ?case
  proof (cases "k' = k")
    case True
    obtain b1 where b1: "buckets rl1 k = Some b1" "last_at b1 = t"
        "tokens b1 + of_bool ok \<le> burst rl + burst rl / 2 ^ 53"
      using Allow_bucket [OF A u] True by blast
    from granted_from_bucket [OF cs step(1) b1(1) as1_def t(2)] step(2)
    have "of_nat (granted k as1) \<le> tokens b1 + accrued (rate rl) (t1 - t) + of_nat (asked k as1) * (burst rl / 2 ^ 50)"
      by (simp add: b1(2))
    with b1(3) acc small show ?thesis unfolding as counts [OF True] by linarith
  next
    case False
    with "2.IH" [OF A [symmetric] cs step(1) as1_def t(2)] step(2) acc show ?thesis by (simp add: as)
  qed
next
  case (3 fma t cs rl)
  then show ?case by force
qed

lemma janitor_pass_usable: "usable t rl \<Longrightarrow> usable t (janitor_pass rl t')"
  by (auto simp: usable_def janitor_pass_bucket split: option.splits if_splits)

lemma limiter_run_usable:
  assumes "sorted (map fst cs)" and "\<And>c. c \<in> set cs \<Longrightarrow> t0 \<le> fst c \<and> fst c \<le> t1" and "usable t0 rl" and "t0 \<le> t1"
  shows "usable t1 (snd (limiter_run fma cs rl)) \<and> rate (snd (limiter_run fma cs rl)) = rate rl \<and>
    burst (snd (limiter_run fma cs rl)) = burst rl"
  using assms
proof (induction fma cs rl arbitrary: t0 rule: limiter_run.induct)
  case (1 fma rl)
  then show ?case using usable_later by simp
next
  case (2 fma t k cs rl)
  obtain ok rl1 where A: "Allow fma rl k t = (ok, rl1)" by fastforce
  have t: "t0 \<le> t" "t \<le> t1" using "2.prems"(2) by fastforce+
  note u = Allow_usable [OF A usable_later [OF "2.prems"(3) t(1)]]
  have cs: "sorted (map fst cs)" "\<And>c. c \<in> set cs \<Longrightarrow> t \<le> fst c \<and> fst c \<le> t1"
    using "2.prems"(1,2) by fastforce+
  from "2.IH" [OF A [symmetric] cs u t(2)] Allow_config [OF A] A show ?case
    by (cases "limiter_run fma cs rl1") simp
next
  case (3 fma t cs rl)
  have t: "t0 \<le> t" "t \<le> t1" using "3.prems"(2) by fastforce+
  have cs: "sorted (map fst cs)" "\<And>c. c \<in> set cs \<Longrightarrow> t \<le> fst c \<and> fst c \<le> t1"
    using "3.prems"(1,2) by fastforce+
  from "3.IH" [OF cs janitor_pass_usable [OF usable_later [OF "3.prems"(3) t(1)]] t(2)] show ?case by simp
qed

lemma swept_refl: "swept t rl rl"
  by (simp add: swept_def)

text \<open>
  C34. The limiter keeps its promise of \<open>r\<close> requests per second with bursts of \<open>B\<close>: in any window of
  time, whatever came before, at most \<open>B\<close> requests of a client pass, plus \<open>r\<close> for each second of the
  window, plus \<open>B / 2\<^sup>5\<^sup>0\<close> for each request made, which is what the roundings of the floating point
  arithmetic can add up to. Passes of the janitor may come at any point.
\<close>

theorem rate_limit_bound:
  assumes "sorted (map fst (cs0 @ cs))" and "\<And>c. c \<in> set cs0 \<Longrightarrow> fst c \<le> t0"
    and "\<And>c. c \<in> set cs \<Longrightarrow> t0 \<le> fst c \<and> fst c \<le> t1" and "t0 \<le> t1"
    and "0 \<le> r" and "0 \<le> B" and "round64 B = B" and "B \<le> 300 * r"
    and "rl = snd (limiter_run fma cs0 (NewRateLimiter r B))" and "as = fst (limiter_run fma cs rl)"
  shows "of_nat (granted k as) \<le> B + r * (of_int (t1 - t0) / 1000000000) + of_nat (asked k as) * (B / 2 ^ 50)"
proof -
  define s where "s = Min (insert t0 (fst ` set cs0))"
  have s: "s \<le> t0" "c \<in> set cs0 \<Longrightarrow> s \<le> fst c" for c by (simp_all add: s_def)
  have sorted: "sorted (map fst cs0)" "sorted (map fst cs)" using assms(1) by (simp_all add: sorted_append)
  have "s \<le> fst c \<and> fst c \<le> t0" if "c \<in> set cs0" for c using s(2) assms(2) that by blast
  from limiter_run_usable [OF sorted(1) this usable_New [OF assms(5,6)] s(1), of fma]
  have u: "usable t0 rl" "rate rl = r" "burst rl = B" by (simp_all add: assms(9))
  let ?cs = "filter (\<lambda>c. snd c \<noteq> Sweep) cs"
  have "as = fst (limiter_run fma ?cs rl)"
    unfolding assms(10) by (rule limiter_run_swept [OF sorted(2) _ swept_refl u(1)]) (use assms(3,7,8) u in auto)
  moreover have "sorted (map fst ?cs)" by (rule sorted_filter [OF sorted(2)])
  moreover have "t0 \<le> fst c \<and> fst c \<le> t1 \<and> snd c \<noteq> Sweep" if "c \<in> set ?cs" for c using assms(3) that by simp
  ultimately show ?thesis
    using granted_in_window [OF _ _ u(1) _ assms(4), of ?cs as fma k] unfolding accrued_def u(2,3) by blast
qed

text \<open>
  C35. The janitor is invisible: a limiter whose bursts are at most what five minutes refill gives every
  request the same answer as one that never removes a bucket, wherever the passes of the janitor
  fall.
\<close>

theorem janitor_invisible:
  assumes "sorted (map fst cs)" and "0 \<le> r" and "0 \<le> B" and "round64 B = B" and "B \<le> 300 * r"
  shows "fst (limiter_run fma cs (NewRateLimiter r B)) =
    fst (limiter_run fma (filter (\<lambda>c. snd c \<noteq> Sweep) cs) (NewRateLimiter r B))"
proof (rule limiter_run_swept [OF assms(1) _ swept_refl usable_New])
  show "Min (fst ` set cs) \<le> fst c" if "c \<in> set cs" for c using that by simp
qed (use assms in simp_all)

text \<open>One request per second with bursts of two; the janitor passes between two requests of one client.\<close>

definition limiter_sample :: "(int \<times> limiter_call) list" where
  "limiter_sample = [(0, Request ''10.0.0.1''), (0, Request ''10.0.0.1''), (0, Request ''10.0.0.2''),
     (500000000, Request ''10.0.0.1''), (301000000000, Sweep), (301000000000, Request ''10.0.0.1'')]"

definition limiter_answers :: "(string \<times> bool) list" where
  "limiter_answers = [(''10.0.0.1'', True), (''10.0.0.1'', True), (''10.0.0.2'', True),
     (''10.0.0.1'', False), (''10.0.0.1'', True)]"

lemma round64_values:
  "round64 1 = 1" "round64 2 = 2" "round64 (1 / 2) = 1 / 2" "round64 500000000 = 500000000"
  by code_simp+

definition small_limiter :: "(string \<rightharpoonup> bucket) \<Rightarrow> RateLimiter" where
  "small_limiter m = \<lparr>buckets = m, rate = 1, burst = 2\<rparr>"

lemma sample_steps:
  shows "m k = None \<Longrightarrow> Allow False (small_limiter m) k t = (True, small_limiter (m(k \<mapsto> \<lparr>tokens = 1, last_at = t\<rparr>)))"
    and "m k = Some \<lparr>tokens = 1, last_at = t\<rparr> \<Longrightarrow>
      Allow False (small_limiter m) k t = (True, small_limiter (m(k \<mapsto> \<lparr>tokens = 0, last_at = t\<rparr>)))"
    and "m k = Some \<lparr>tokens = 0, last_at = 0\<rparr> \<Longrightarrow>
      Allow False (small_limiter m) k 500000000 = (False, small_limiter (m(k \<mapsto> \<lparr>tokens = 1 / 2, last_at = 500000000\<rparr>)))"
    and "NewRateLimiter 1 2 = small_limiter Map.empty"
  by (simp_all add: small_limiter_def Allow_def bucket_at_def refill_def time_Sub_def round64_values NewRateLimiter_def)
    (simp_all add: Let_def Seconds_def round64_values signed_divide_int_def signed_modulo_int_def)

lemma sample_pass: "janitor_pass (small_limiter m) t = small_limiter
  (\<lambda>k. case m k of None \<Rightarrow> None | Some b \<Rightarrow> if last_at b < t - 300000000000 then None else Some b)"
  by (simp add: small_limiter_def janitor_pass_def)

lemma limiter_sample_run: "fst (limiter_run False limiter_sample (NewRateLimiter 1 2)) = limiter_answers"
  by (simp add: limiter_sample_def limiter_answers_def sample_steps sample_pass)

lemma limiter_sample_sorted: "sorted (map fst limiter_sample)"
  by (simp add: limiter_sample_def)

theorem janitor_invisible_witness:
  "fst (limiter_run False (filter (\<lambda>c. snd c \<noteq> Sweep) limiter_sample) (NewRateLimiter 1 2)) = limiter_answers"
  using janitor_invisible [OF limiter_sample_sorted, of 1 2 False] by (simp add: round64_values limiter_sample_run)

theorem rate_limit_bound_witness:
  "of_nat (granted ''10.0.0.1'' limiter_answers) \<le>
    (2 :: rat) + 1 * (of_int (301000000000 - 0) / 1000000000) + of_nat (asked ''10.0.0.1'' limiter_answers) * (2 / 2 ^ 50)"
proof (rule rate_limit_bound [where ?cs0.0 = "[]" and cs = limiter_sample and fma = False])
  show "limiter_answers = fst (limiter_run False limiter_sample (snd (limiter_run False [] (NewRateLimiter 1 2))))"
    by (simp add: limiter_sample_run)
  show "0 \<le> fst c \<and> fst c \<le> 301000000000" if "c \<in> set limiter_sample" for c
    using that by (auto simp: limiter_sample_def)
qed (simp_all add: limiter_sample_sorted round64_values)

end
