(* ===== verification/Postgres_Store.thy ===== *)
theory Postgres_Store
  imports Store Database
begin

text \<open>
  \<^verbatim>\<open>internal/eventstore/postgres.go\<close>: the event store on Postgres. The statements are functions on
  the tables of \<^verbatim>\<open>Database\<close>; the operations send them in the order the code does and can meet a
  fault at each of them. \<open>pg_stream\<close> reads the stream of an aggregate off the table, \<open>pg_inv\<close>
  is the invariant: consecutive versions and snapshots that are the replay of a prefix.
  The store is shown to meet the contract \<^const>\<open>event_store\<close> on every server that meets
  \<^const>\<open>postgres_server\<close>, whatever the faults.
\<close>

section \<open>The snapshot of an account as JSON\<close>

definition marshal_Account :: "Account \<Rightarrow> RawMessage" where
  "marshal_Account a = RawJSON (JObj [(''id'', JStr (aID a)), (''owner'', JStr (Owner a)),
     (''balance'', JInt (sint (Balance a))), (''open'', JBool (Open a)), (''version'', JInt (sint (Version a)))])"

definition assign_Account :: "string \<Rightarrow> json \<Rightarrow> Account \<Rightarrow> Account result" where
  "assign_Account k v a =
     (if key_matches ''id'' k then set_field (\<lambda>x. a\<lparr>aID := x\<rparr>) (decode_string ''Account.id'' v (aID a))
      else if key_matches ''owner'' k then set_field (\<lambda>x. a\<lparr>Owner := x\<rparr>) (decode_string ''Account.owner'' v (Owner a))
      else if key_matches ''balance'' k then set_field (\<lambda>x. a\<lparr>Balance := x\<rparr>) (decode_int64 ''Account.balance'' v (Balance a))
      else if key_matches ''open'' k then set_field (\<lambda>x. a\<lparr>Open := x\<rparr>) (decode_bool ''Account.open'' v (Open a))
      else if key_matches ''version'' k then set_field (\<lambda>x. a\<lparr>Version := x\<rparr>) (decode_int64 ''Account.version'' v (Version a))
      else Inr a)"

definition unmarshal_Account :: "RawMessage \<Rightarrow> Account result" where
  "unmarshal_Account = unmarshal ''domain.Account'' assign_Account zero_Account"

section \<open>Statements\<close>

definition insert_event :: "server \<Rightarrow> Event \<Rightarrow> unit stmt" where
  "insert_event srv e db =
     (case uuid_param srv (eID e) of
        Inl err \<Rightarrow> (Inl err, db)
      | Inr i \<Rightarrow>
     (case uuid_param srv (eAggregateID e) of
        Inl err \<Rightarrow> (Inl err, db)
      | Inr g \<Rightarrow>
     (case jsonb_in srv (eData e) of
        Inl err \<Rightarrow> (Inl err, db)
      | Inr v \<Rightarrow>
          if sequence db = 9223372036854775807
          then (Inl (PqError ''2200H'' ''nextval: reached maximum value of sequence''), db)
          else
            (let db1 = db\<lparr>sequence := sequence db + 1\<rparr>
             in if sint (eVersion e) \<le> 0 then (Inl (check_violation ''events'' ''events_version_check''), db1)
                else if list_ex (\<lambda>r. evEventID r = i) (events db)
                then (Inl (unique_violation ''events_event_id_key''), db1)
                else if list_ex (\<lambda>r. evAggregateID r = g \<and> evVersion r = eVersion e) (events db)
                then (Inl (unique_violation ''events_aggregate_id_version_key''), db1)
                else (Inr (), db1\<lparr>events := events db @
                  [\<lparr>evSeq = sequence db + 1, evEventID = i, evAggregateID = g, evVersion = eVersion e,
                    evType = eType e, evData = v, evOccurredAt = timestamp_in srv (eOccurredAt e)\<rparr>]\<rparr>)))))"

definition select_snapshot :: "server \<Rightarrow> string \<Rightarrow> (int64 \<times> json) stmt" where
  "select_snapshot srv aggregateID db =
     (case uuid_param srv aggregateID of
        Inl err \<Rightarrow> (Inl err, db)
      | Inr g \<Rightarrow> (case snapshots db g of
            None \<Rightarrow> (Inl ErrNoRows, db)
          | Some sn \<Rightarrow> (Inr (snVersion sn, snState sn), db)))"

definition select_after :: "server \<Rightarrow> string \<Rightarrow> int64 \<Rightarrow> EventRow list stmt" where
  "select_after srv aggregateID v db =
     (case uuid_param srv aggregateID of
        Inl err \<Rightarrow> (Inl err, db)
      | Inr g \<Rightarrow> (Inr (sort_key (\<lambda>r. sint (evVersion r))
          (filter (\<lambda>r. evAggregateID r = g \<and> sint v < sint (evVersion r)) (events db))), db))"

definition upsert_snapshot :: "server \<Rightarrow> string \<Rightarrow> int64 \<Rightarrow> RawMessage \<Rightarrow> unit stmt" where
  "upsert_snapshot srv aggregateID v state db =
     (case uuid_param srv aggregateID of
        Inl err \<Rightarrow> (Inl err, db)
      | Inr g \<Rightarrow>
     (case jsonb_in srv state of
        Inl err \<Rightarrow> (Inl err, db)
      | Inr j \<Rightarrow>
          if sint v \<le> 0 then (Inl (check_violation ''snapshots'' ''snapshots_version_check''), db)
          else (case snapshots db g of
              None \<Rightarrow> (Inr (), db\<lparr>snapshots := (snapshots db)(g \<mapsto> \<lparr>snVersion = v, snState = j\<rparr>)\<rparr>)
            | Some sn \<Rightarrow>
                if sint (snVersion sn) < sint v
                then (Inr (), db\<lparr>snapshots := (snapshots db)(g \<mapsto> \<lparr>snVersion = v, snState = j\<rparr>)\<rparr>)
                else (Inr (), db))))"

definition select_unprocessed :: "EventRow list stmt" where
  "select_unprocessed db = (Inr (sort_key (\<lambda>r. sint (evSeq r)) (filter (\<lambda>r. evEventID r \<notin> processed db) (events db))), db)"

text \<open>\<^verbatim>\<open>c.data ->> 'transfer_id' = e.data ->> 'transfer_id'\<close>: a missing value equals nothing.\<close>

definition sql_eq :: "string option \<Rightarrow> string option \<Rightarrow> bool" where
  "sql_eq x y = (case x of None \<Rightarrow> False | Some s \<Rightarrow> y = Some s)"

definition select_pending :: "server \<Rightarrow> EventType \<Rightarrow> EventType \<Rightarrow> EventType \<Rightarrow> EventRow list stmt" where
  "select_pending srv debited credited reversed db =
     (Inr (sort_key (\<lambda>r. sint (evSeq r))
        (filter (\<lambda>e. evType e = debited \<and>
           \<not> list_ex (\<lambda>c. (evType c = credited \<or> evType c = reversed) \<and>
                sql_eq (arrow_text srv (evData c) ''transfer_id'') (arrow_text srv (evData e) ''transfer_id''))
              (events db)) (events db))), db)"

definition select_exists :: "server \<Rightarrow> EventType \<Rightarrow> string \<Rightarrow> bool stmt" where
  "select_exists srv typ transferID db =
     (Inr (list_ex (\<lambda>r. evType r = typ \<and> sql_eq (arrow_text srv (evData r) ''transfer_id'') (Some transferID)) (events db)), db)"

definition select_aggregate :: "server \<Rightarrow> string \<Rightarrow> EventRow list stmt" where
  "select_aggregate srv aggregateID db =
     (case uuid_param srv aggregateID of
        Inl err \<Rightarrow> (Inl err, db)
      | Inr g \<Rightarrow> (Inr (sort_key (\<lambda>r. sint (evVersion r)) (filter (\<lambda>r. evAggregateID r = g) (events db))), db))"

section \<open>Operations\<close>

definition row_event :: "EventRow \<Rightarrow> Event" where
  "row_event r = \<lparr>eID = evEventID r, eAggregateID = evAggregateID r, eVersion = evVersion r, eType = evType r,
     eData = RawJSON (evData r), eOccurredAt = evOccurredAt r, eSeq = evSeq r\<rparr>"

text \<open>\<open>broken\<close> is what \<^verbatim>\<open>rows.Err()\<close> reports after the last row that came.\<close>

definition scanEvents :: "EventRow list \<Rightarrow> error option \<Rightarrow> Event list result" where
  "scanEvents rows broken = (case broken of Some err \<Rightarrow> Inl err | None \<Rightarrow> Inr (map row_event rows))"

text \<open>
  A query of several rows: it can fail as a whole (reported with the prefix \<open>what\<close>), or while
  its rows are read, which \<^const>\<open>scanEvents\<close> reports.
\<close>

definition query_events :: "server \<Rightarrow> string \<Rightarrow> EventRow list stmt \<Rightarrow> Event list stmt" where
  "query_events srv what stmt db = (case faults srv (ticks db) of
       Fails err \<Rightarrow> (Inl (Wrapf what err), tick db)
     | flt \<Rightarrow> (case stmt (tick db) of
           (Inl err, db') \<Rightarrow> (Inl (Wrapf what err), db')
         | (Inr rows, db') \<Rightarrow> (scanEvents rows (case flt of Lost err \<Rightarrow> Some err | _ \<Rightarrow> None), db')))"

text \<open>The first half of \<^verbatim>\<open>Load\<close>: the account to start from, given the answer to the query of the snapshot.\<close>

definition pg_load_base :: "(int64 \<times> json) result \<Rightarrow> Account result" where
  "pg_load_base snap = (case snap of
       Inr (snapVersion, state) \<Rightarrow>
         (case unmarshal_Account (RawJSON state) of
            Inl err \<Rightarrow> Inl (Wrapf ''unmarshal snapshot'' err)
          | Inr base \<Rightarrow> Inr base)
     | Inl err \<Rightarrow>
         if errors_Is err ErrNoRows then Inr zero_Account else Inl (Wrapf ''load snapshot'' err))"

text \<open>The second half: the events after it.\<close>

definition pg_load_rest :: "server \<Rightarrow> string \<Rightarrow> Account \<Rightarrow> DB \<Rightarrow> Account result \<times> DB" where
  "pg_load_rest srv aggregateID base db =
     (case query_events srv ''load events'' (select_after srv aggregateID (Version base)) db of
        (Inl err, db') \<Rightarrow> (Inl err, db')
      | (Inr evs, db') \<Rightarrow>
          if Version base = 0 \<and> evs = [] then (Inl ErrAccountNotFound, db')
          else (Replay base evs, db'))"

text \<open>\<open>mid\<close> is what other connections do to the database between the two queries.\<close>

definition pg_Load :: "server \<Rightarrow> (DB \<Rightarrow> DB) \<Rightarrow> DB \<Rightarrow> string \<Rightarrow> Account result \<times> DB" where
  "pg_Load srv mid db aggregateID =
     (case exec srv (select_snapshot srv aggregateID) db of
        (snap, db1) \<Rightarrow>
          (case pg_load_base snap of
             Inl err \<Rightarrow> (Inl err, db1)
           | Inr base \<Rightarrow> pg_load_rest srv aggregateID base (mid db1)))"

definition saveSnapshot :: "server \<Rightarrow> (DB \<Rightarrow> DB) \<Rightarrow> string \<Rightarrow> DB \<Rightarrow> DB" where
  "saveSnapshot srv mid aggregateID db =
     (case pg_Load srv mid db aggregateID of
        (Inl err, db1) \<Rightarrow> db1
      | (Inr acc, db1) \<Rightarrow> snd (exec srv (upsert_snapshot srv aggregateID (Version acc) (marshal_Account acc)) db1))"

fun pg_insert_loop :: "server \<Rightarrow> string \<Rightarrow> int64 \<Rightarrow> nat \<Rightarrow> Event list \<Rightarrow> DB \<Rightarrow> error option \<times> DB" where
  "pg_insert_loop srv aggregateID expectedVersion i [] db = (None, db)"
| "pg_insert_loop srv aggregateID expectedVersion i (e # es) db =
     (if eAggregateID e \<noteq> aggregateID then (Some ErrAggregateMismatch, db)
      else
        (let wantVersion = expectedVersion + of_nat i + 1
         in if eVersion e \<noteq> wantVersion
            then (Some (Errorf (''event '' @ eID e @ '' has version '' @ show_int (sint (eVersion e)) @ '', want ''
                    @ show_int (sint wantVersion))), db)
            else (case exec srv (insert_event srv e) db of
                (Inl err, db') \<Rightarrow>
                  (Some (if errors_As_pq err = Some ''23505'' then ErrConcurrency else Wrapf ''insert event'' err), db')
              | (Inr _, db') \<Rightarrow> pg_insert_loop srv aggregateID expectedVersion (Suc i) es db')))"

definition pg_Append :: "server \<Rightarrow> DB \<Rightarrow> string \<Rightarrow> int64 \<Rightarrow> Event list \<Rightarrow> error option \<times> DB" where
  "pg_Append srv db aggregateID expectedVersion es =
     (if es = [] then (None, db)
      else (case BeginTx srv db of
          (Inl err, db1) \<Rightarrow> (Some (Wrapf ''begin tx'' err), db1)
        | (Inr _, db1) \<Rightarrow>
            (case pg_insert_loop srv aggregateID expectedVersion 0 es db1 of
               (Some err, db2) \<Rightarrow> (Some err, Rollback db1 db2)
             | (None, db2) \<Rightarrow>
                 (case Commit srv db1 db2 of
                    (Some err, db3) \<Rightarrow> (Some (Wrapf ''commit'' err), db3)
                  | (None, db3) \<Rightarrow>
                      (None, if sint (eVersion (last es)) mod sint SnapshotEvery = 0
                             then saveSnapshot srv (\<lambda>d. d) aggregateID db3 else db3)))))"

definition pg_LoadUnprocessed :: "server \<Rightarrow> Event list stmt" where
  "pg_LoadUnprocessed srv = query_events srv ''load unprocessed'' select_unprocessed"

definition pg_PendingTransferDebits :: "server \<Rightarrow> Event list stmt" where
  "pg_PendingTransferDebits srv = query_events srv ''pending transfer debits''
     (select_pending srv EventTransferDebited EventTransferCredited EventTransferReversed)"

definition pg_HasTransferEvent :: "server \<Rightarrow> DB \<Rightarrow> EventType \<Rightarrow> string \<Rightarrow> bool result \<times> DB" where
  "pg_HasTransferEvent srv db typ transferID =
     (case exec srv (select_exists srv typ transferID) db of
        (Inl err, db') \<Rightarrow> (Inl (Wrapf ''has transfer event'' err), db')
      | (Inr found, db') \<Rightarrow> (Inr found, db'))"

definition pg_EventsByAggregate :: "server \<Rightarrow> DB \<Rightarrow> string \<Rightarrow> Event list result \<times> DB" where
  "pg_EventsByAggregate srv db aggregateID =
     query_events srv ''events by aggregate'' (select_aggregate srv aggregateID) db"

definition postgres_store :: "server \<Rightarrow> DB Store" where
  "postgres_store srv = \<lparr>Append = pg_Append srv, Load = pg_Load srv (\<lambda>d. d),
     LoadUnprocessed = pg_LoadUnprocessed srv, PendingTransferDebits = pg_PendingTransferDebits srv,
     HasTransferEvent = pg_HasTransferEvent srv, EventsByAggregate = pg_EventsByAggregate srv\<rparr>"

section \<open>Streams and the invariant\<close>

definition pg_rows :: "DB \<Rightarrow> string \<Rightarrow> EventRow list" where
  "pg_rows db g = filter (\<lambda>r. evAggregateID r = g) (events db)"

definition pg_stream :: "DB \<Rightarrow> string \<Rightarrow> Event list" where
  "pg_stream db g = map row_event (pg_rows db g)"

definition pg_valid :: "server \<Rightarrow> string \<Rightarrow> bool" where
  "pg_valid srv g \<longleftrightarrow> uuid_in srv g = Some g"

text \<open>A snapshot that is the replay of the first events of the stream.\<close>

definition snapshot_ok :: "Event list \<Rightarrow> SnapshotRow \<Rightarrow> bool" where
  "snapshot_ok es sn \<longleftrightarrow> (\<exists>n a. 0 < n \<and> n \<le> length es \<and> snVersion sn = of_nat n \<and>
     unmarshal_Account (RawJSON (snState sn)) = Inr a \<and> Version a = of_nat n \<and> Replay zero_Account (take n es) = Inr a)"

definition rows_ok :: "server \<Rightarrow> DB \<Rightarrow> bool" where
  "rows_ok srv db \<longleftrightarrow> (\<forall>r \<in> set (events db). pg_valid srv (evAggregateID r)) \<and>
     (\<forall>g. map evVersion (pg_rows db g) = numbered 0 (length (pg_rows db g)) \<and> length (pg_rows db g) \<le> history_limit)"

definition pg_inv :: "server \<Rightarrow> DB \<Rightarrow> bool" where
  "pg_inv srv db \<longleftrightarrow> rows_ok srv db \<and> (\<forall>g sn. snapshots db g = Some sn \<longrightarrow> snapshot_ok (pg_stream db g) sn)"

lemma pg_stream_same: "events db' = events db \<Longrightarrow> pg_stream db' = pg_stream db"
  by (simp add: pg_stream_def pg_rows_def fun_eq_iff)

lemma pg_inv_same: "events db' = events db \<Longrightarrow> snapshots db' = snapshots db \<Longrightarrow> pg_inv srv db' = pg_inv srv db"
  using pg_stream_same [of db' db] by (simp add: pg_inv_def rows_ok_def pg_rows_def)

lemma pg_stream_append: "events db' = events db @ rows \<Longrightarrow>
    pg_stream db' g = pg_stream db g @ map row_event (filter (\<lambda>r. evAggregateID r = g) rows)"
  by (simp add: pg_stream_def pg_rows_def)

lemma row_event_simps [simp]:
  "eID (row_event r) = evEventID r" "eAggregateID (row_event r) = evAggregateID r" "eVersion (row_event r) = evVersion r"
  "eType (row_event r) = evType r" "eData (row_event r) = RawJSON (evData r)" "eOccurredAt (row_event r) = evOccurredAt r"
  "eSeq (row_event r) = evSeq r"
  by (simp_all add: row_event_def)

lemma snapshot_ok_append:
  assumes "snapshot_ok es sn"
  shows "snapshot_ok (es @ fs) sn"
proof -
  obtain n a where n: "0 < n" "n \<le> length es" "snVersion sn = of_nat n" "unmarshal_Account (RawJSON (snState sn)) = Inr a"
      "Version a = of_nat n" "Replay zero_Account (take n es) = Inr a"
    using assms unfolding snapshot_ok_def by blast
  have "n \<le> length (es @ fs)" "Replay zero_Account (take n (es @ fs)) = Inr a"
    using n(2,6) by simp_all
  with n show ?thesis unfolding snapshot_ok_def by blast
qed

lemma empty_DB_inv: "pg_inv srv empty_DB"
  by (simp add: pg_inv_def rows_ok_def pg_rows_def empty_DB_def)

section \<open>Reading after a version\<close>

lemma filter_eq_drop: "(\<And>i. i < length xs \<Longrightarrow> P (xs ! i) \<longleftrightarrow> n \<le> i) \<Longrightarrow> filter P xs = drop n xs"
proof (induction xs arbitrary: n)
  case (Cons x xs)
  have P0: "P x \<longleftrightarrow> n \<le> 0" using Cons.prems [of 0] by simp
  have "filter P xs = drop (n - 1) xs"
    using Cons.prems [of "Suc i" for i] by (intro Cons.IH) fastforce
  then show ?case using P0 by (cases n) auto
qed simp

lemma rows_ok_version:
  assumes "rows_ok srv db" and "i < length (pg_rows db g)"
  shows "evVersion (pg_rows db g ! i) = of_nat (Suc i)" and "sint (evVersion (pg_rows db g ! i)) = int (Suc i)"
    and "Suc i \<le> history_limit"
proof -
  have "map evVersion (pg_rows db g) ! i = numbered 0 (length (pg_rows db g)) ! i"
    using assms(1) by (simp add: rows_ok_def)
  then show v: "evVersion (pg_rows db g ! i) = of_nat (Suc i)" using assms(2) by (simp add: nth_numbered)
  show l: "Suc i \<le> history_limit" using assms unfolding rows_ok_def by (metis Suc_leI le_trans)
  show "sint (evVersion (pg_rows db g ! i)) = int (Suc i)"
    unfolding v using l by (intro sint64_of_nat) (simp add: history_limit_def)
qed

lemma rows_ok_sorted: "rows_ok srv db \<Longrightarrow> sorted (map (\<lambda>r. sint (evVersion r)) (pg_rows db g))"
  by (simp add: sorted_iff_nth_mono rows_ok_version(2))

lemma select_after_rows:
  assumes "rows_ok srv db" and "n \<le> length (pg_rows db g)"
  shows "sort_key (\<lambda>r. sint (evVersion r))
      (filter (\<lambda>r. evAggregateID r = g \<and> sint (of_nat n :: int64) < sint (evVersion r)) (events db)) = drop n (pg_rows db g)"
proof -
  have "n \<le> history_limit" using assms unfolding rows_ok_def by (metis le_trans)
  then have n: "sint (of_nat n :: int64) = int n" by (intro sint64_of_nat) (simp add: history_limit_def)
  have "filter (\<lambda>r. evAggregateID r = g \<and> int n < sint (evVersion r)) (events db) =
      filter (\<lambda>r. int n < sint (evVersion r)) (pg_rows db g)"
    by (simp add: pg_rows_def conj_commute)
  also have "\<dots> = drop n (pg_rows db g)"
    by (rule filter_eq_drop) (auto simp: rows_ok_version(2) [OF assms(1)])
  finally have f: "filter (\<lambda>r. evAggregateID r = g \<and> sint (of_nat n :: int64) < sint (evVersion r)) (events db) =
      drop n (pg_rows db g)" by (simp add: n)
  have "sorted (drop n (map (\<lambda>r. sint (evVersion r)) (pg_rows db g)))"
    using rows_ok_sorted [OF assms(1)] by (rule sorted_wrt_drop)
  then show ?thesis unfolding f by (intro sort_key_id_if_sorted) (simp add: drop_map)
qed

section \<open>Load\<close>

lemma query_events_reads:
  "reads stmt \<Longrightarrow> query_events srv what stmt db = (r, db') \<Longrightarrow> db' = tick db"
  unfolding query_events_def reads_def
  by (auto split: fault.splits sum.splits prod.splits) (metis snd_conv)+

lemma query_events_value:
  "reads stmt \<Longrightarrow> query_events srv what stmt db = (Inr evs, db') \<Longrightarrow>
     \<exists>rows. fst (stmt (tick db)) = Inr rows \<and> evs = map row_event rows"
  unfolding query_events_def
  by (auto simp: scanEvents_def split: fault.splits sum.splits prod.splits)

lemma reads_select [simp]:
  "reads (select_snapshot srv g)" "reads (select_after srv g v)" "reads select_unprocessed"
  "reads (select_pending srv x y z)" "reads (select_exists srv ty tid)" "reads (select_aggregate srv g)"
  by (auto simp: reads_def select_snapshot_def select_after_def select_unprocessed_def select_pending_def
    select_exists_def select_aggregate_def split: sum.splits option.splits)

lemma pg_load_rest_db: "pg_load_rest srv g base db = (r, db') \<Longrightarrow> db' = tick db"
  using query_events_reads [OF reads_select(2)]
  by (auto simp: pg_load_rest_def split: prod.splits sum.splits if_splits)

lemma pg_Load_db:
  "pg_Load srv mid db aggID = (r, db') \<Longrightarrow> db' = tick db \<or> db' = tick (mid (tick db))"
  using exec_reads [OF reads_select(1)] pg_load_rest_db
  by (auto simp: pg_Load_def split: prod.splits sum.splits)

lemma load_base_value:
  assumes "exec srv (select_snapshot srv aggID) db = (snap, db1)" and "pg_load_base snap = Inr base"
    and "pg_inv srv db" and "uuid_in srv aggID = Some g"
  shows "\<exists>n \<le> length (pg_stream db g). Version base = of_nat n \<and> Replay zero_Account (take n (pg_stream db g)) = Inr base"
proof (cases snap)
  case (Inl err)
  then have "base = zero_Account" using assms(2) by (auto simp: pg_load_base_def split: if_splits)
  then show ?thesis by (intro exI [of _ 0]) (simp add: zero_Account_def)
next
  case (Inr vs)
  then obtain v state where "fst (select_snapshot srv aggID (tick db)) = Inr (v, state)"
      "unmarshal_Account (RawJSON state) = Inr base"
    using exec_reads_value [OF reads_select(1)] assms(1,2) by (auto simp: pg_load_base_def split: sum.splits prod.splits)
  then obtain sn where "snapshots db g = Some sn" "unmarshal_Account (RawJSON (snState sn)) = Inr base"
    using assms(4) by (auto simp: select_snapshot_def uuid_param_def split: option.splits)
  then show ?thesis using assms(3) by (fastforce simp: pg_inv_def snapshot_ok_def)
qed

lemma load_rest_value:
  assumes "pg_load_rest srv aggID base db = (Inr a, db')" and "rows_ok srv db" and "uuid_in srv aggID = Some g"
    and "n \<le> length (pg_stream db g)" and "Version base = of_nat n" and "Replay zero_Account (take n (pg_stream db g)) = Inr base"
  shows "pg_stream db g \<noteq> [] \<and> Replay zero_Account (pg_stream db g) = Inr a"
proof -
  obtain rows where rows: "fst (select_after srv aggID (Version base) (tick db)) = Inr rows"
      "Replay base (map row_event rows) = Inr a" "\<not> (Version base = 0 \<and> rows = [])"
    using assms(1) query_events_value [OF reads_select(2)]
    by (auto simp: pg_load_rest_def split: prod.splits sum.splits if_splits) blast+
  have rd: "rows = drop n (pg_rows db g)"
    using rows(1) assms(3,5) select_after_rows [OF assms(2), of n g] assms(4)
    by (simp add: select_after_def uuid_param_def pg_stream_def)
  then have "Replay base (drop n (pg_stream db g)) = Inr a" using rows(2) by (simp add: pg_stream_def drop_map)
  then have "Replay zero_Account (take n (pg_stream db g) @ drop n (pg_stream db g)) = Inr a"
    by (simp only: Replay_append assms(6) sum.case)
  moreover have "pg_stream db g \<noteq> []" using rows(3) rd assms(4,5) by (auto simp: pg_stream_def)
  ultimately show ?thesis by simp
qed

text \<open>
  A load that succeeds gives the replay of the whole stream as it is at the second query,
  even if the stream has grown since the snapshot was read.
\<close>

definition only_grows :: "server \<Rightarrow> DB \<Rightarrow> DB \<Rightarrow> bool" where
  "only_grows srv db db' \<longleftrightarrow> pg_inv srv db' \<and> (\<forall>g. \<exists>fs. pg_stream db' g = pg_stream db g @ fs)"

lemma pg_Load_value:
  assumes "pg_Load srv mid db aggID = (Inr a, db')" and "pg_inv srv db" and "only_grows srv db (mid (tick db))"
  shows "\<exists>g. uuid_in srv aggID = Some g \<and> pg_stream db' g \<noteq> [] \<and> Replay zero_Account (pg_stream db' g) = Inr a"
proof -
  obtain snap db1 base where s: "exec srv (select_snapshot srv aggID) db = (snap, db1)" "pg_load_base snap = Inr base"
      "pg_load_rest srv aggID base (mid db1) = (Inr a, db')"
    using assms(1) by (auto simp: pg_Load_def split: prod.splits sum.splits)
  have db1: "db1 = tick db" using exec_reads [OF reads_select(1) s(1)] .
  have db': "db' = tick (mid (tick db))" using pg_load_rest_db [OF s(3)] db1 by simp
  obtain g where g: "uuid_in srv aggID = Some g"
    using s(3) query_events_value [OF reads_select(2)]
    by (auto simp: pg_load_rest_def select_after_def uuid_param_def split: prod.splits sum.splits option.splits) fastforce
  obtain n where n: "n \<le> length (pg_stream db g)" "Version base = of_nat n"
      "Replay zero_Account (take n (pg_stream db g)) = Inr base"
    using load_base_value [OF s(1,2) assms(2) g] by blast
  obtain fs where fs: "pg_stream (mid (tick db)) g = pg_stream db g @ fs" and r: "rows_ok srv (mid (tick db))"
    using assms(3) unfolding only_grows_def pg_inv_def by blast
  have "n \<le> length (pg_stream (mid (tick db)) g)" "Replay zero_Account (take n (pg_stream (mid (tick db)) g)) = Inr base"
    using n fs by simp_all
  with load_rest_value [OF s(3) [unfolded db1] r g _ n(2)] show ?thesis
    using g by (simp add: db' pg_stream_same [of "tick (mid (tick db))" "mid (tick db)"])
qed

lemma only_grows_id: "pg_inv srv db \<Longrightarrow> only_grows srv db (tick db)"
  by (simp add: only_grows_def pg_inv_same [of "tick db" db] pg_stream_same [of "tick db" db])

section \<open>Snapshots\<close>

lemma account_tags [simp]:
  "\<not> key_matches ''id'' ''owner''" "\<not> key_matches ''id'' ''balance''" "\<not> key_matches ''id'' ''open''"
  "\<not> key_matches ''id'' ''version''" "\<not> key_matches ''owner'' ''id''" "\<not> key_matches ''owner'' ''balance''"
  "\<not> key_matches ''owner'' ''open''" "\<not> key_matches ''owner'' ''version''" "\<not> key_matches ''balance'' ''id''"
  "\<not> key_matches ''balance'' ''owner''" "\<not> key_matches ''balance'' ''open''" "\<not> key_matches ''balance'' ''version''"
  "\<not> key_matches ''open'' ''id''" "\<not> key_matches ''open'' ''owner''" "\<not> key_matches ''open'' ''balance''"
  "\<not> key_matches ''open'' ''version''"
  by (simp_all add: key_matches_def ascii_upper_def)

lemma assign_Account_simps [simp]:
  "assign_Account ''id'' (JStr s) a = Inr (a\<lparr>aID := s\<rparr>)" "assign_Account ''owner'' (JStr s) a = Inr (a\<lparr>Owner := s\<rparr>)"
  "assign_Account ''balance'' (JInt (sint w)) a = Inr (a\<lparr>Balance := w\<rparr>)"
  "assign_Account ''open'' (JBool b) a = Inr (a\<lparr>Open := b\<rparr>)"
  "assign_Account ''version'' (JInt (sint w)) a = Inr (a\<lparr>Version := w\<rparr>)"
  by (simp_all add: assign_Account_def)

lemma unmarshal_marshal_Account: "unmarshal_Account (marshal_Account a) = Inr a"
  by (simp add: unmarshal_Account_def marshal_Account_def unmarshal_def unmarshal_struct_def)

lemma account_accepted:
  "accepted_by assign_Account [(''id'', JStr i), (''owner'', JStr own), (''balance'', JInt (sint (b :: int64))),
     (''open'', JBool opn), (''version'', JInt (sint (v :: int64)))]"
  by (rule accepted_byI) (auto simp del: key_matches_refl)

context postgres_server
begin

lemma snapshot_roundtrip:
  assumes "jsonb_in srv (marshal_Account a) = Inr j"
  shows "unmarshal_Account (RawJSON j) = Inr a"
proof -
  let ?kvs = "[(''id'', JStr (aID a)), (''owner'', JStr (Owner a)), (''balance'', JInt (sint (Balance a))),
    (''open'', JBool (Open a)), (''version'', JInt (sint (Version a)))]"
  have "(\<exists>s. w = JStr s) \<or> (\<exists>n. w = JInt n) \<or> (\<exists>b. w = JBool b)" if "(k, w) \<in> set ?kvs" for k w
    using that by (simp, elim disjE conjE; simp)
  moreover have "distinct (map fst ?kvs)" by simp
  ultimately obtain kvs' where "j = JObj kvs'" "mset kvs' = mset ?kvs"
    using jsonb_members [of ?kvs j] assms unfolding marshal_Account_def by blast
  with unmarshal_perm [OF account_accepted this(2), of "''domain.Account''" zero_Account] unmarshal_marshal_Account [of a]
  show ?thesis by (simp add: unmarshal_Account_def marshal_Account_def)
qed

lemma upsert_snapshot_inv:
  assumes "pg_inv srv db" and "uuid_in srv aggID = Some g" and "pg_stream db g \<noteq> []"
    and "Replay zero_Account (pg_stream db g) = Inr a"
  shows "pg_inv srv (snd (upsert_snapshot srv aggID (Version a) (marshal_Account a) db))"
proof (cases "jsonb_in srv (marshal_Account a)")
  case (Inl err)
  then show ?thesis using assms(1,2) by (simp add: upsert_snapshot_def uuid_param_def)
next
  case (Inr j)
  have "length (pg_rows db g) > 0" using assms(3) by (simp add: pg_stream_def)
  then obtain m where m: "length (pg_rows db g) = Suc m" using gr0_implies_Suc by blast
  have rok: "rows_ok srv db" using assms(1) by (simp add: pg_inv_def)
  have "evVersion (pg_rows db g ! m) = of_nat (Suc m)" using rows_ok_version(1) [OF rok, of m g] m by simp
  then have v: "Version a = of_nat (length (pg_stream db g))"
    using Replay_Version [OF assms(4)] assms(3) m by (simp add: pg_stream_def last_conv_nth)
  have "snapshot_ok (pg_stream db g) \<lparr>snVersion = Version a, snState = j\<rparr>"
    unfolding snapshot_ok_def using assms(3,4) v snapshot_roundtrip [OF Inr]
    by (intro exI [of _ "length (pg_stream db g)"] exI [of _ a]) simp
  then have upd: "pg_inv srv (db\<lparr>snapshots := (snapshots db)(g \<mapsto> \<lparr>snVersion = Version a, snState = j\<rparr>)\<rparr>)"
    using assms(1) pg_stream_same [of "db\<lparr>snapshots := s\<rparr>" db for s]
    by (simp add: pg_inv_def rows_ok_def pg_rows_def)
  then show ?thesis
    using Inr assms(1,2) by (simp add: upsert_snapshot_def uuid_param_def split: option.split)
qed

text \<open>A snapshot can be taken at any time, while other connections append.\<close>

lemma saveSnapshot_inv:
  assumes "pg_inv srv db" and "only_grows srv db (mid (tick db))"
  shows "pg_inv srv (saveSnapshot srv mid aggID db)"
proof -
  obtain r db1 where l: "pg_Load srv mid db aggID = (r, db1)" by (metis surj_pair)
  have "pg_inv srv (tick db)" "pg_inv srv (tick (mid (tick db)))"
    using assms by (simp_all add: only_grows_def pg_inv_same [of "tick d" d for d])
  with pg_Load_db [OF l] have i1: "pg_inv srv db1" by auto
  show ?thesis
  proof (cases r)
    case (Inl err)
    then show ?thesis using l i1 by (simp add: saveSnapshot_def)
  next
    case (Inr a)
    obtain q db2 where e: "exec srv (upsert_snapshot srv aggID (Version a) (marshal_Account a)) db1 = (q, db2)"
      by (metis surj_pair)
    from pg_Load_value [OF l [unfolded Inr] assms] obtain g where
      g: "uuid_in srv aggID = Some g" "pg_stream (tick db1) g \<noteq> []" "Replay zero_Account (pg_stream (tick db1) g) = Inr a"
      using pg_stream_same [of "tick db1" db1] by auto
    have "pg_inv srv (tick db1)" using i1 pg_inv_same [of "tick db1" db1] by simp
    with upsert_snapshot_inv [OF _ g] have "pg_inv srv db2" by (cases rule: exec_cases [OF e]) simp_all
    then show ?thesis using l Inr e by (simp add: saveSnapshot_def)
  qed
qed

end

lemma upsert_snapshot_events: "events (snd (upsert_snapshot srv g v state db)) = events db"
  by (simp add: upsert_snapshot_def split: sum.split option.split)

lemma saveSnapshot_events: "events (saveSnapshot srv (\<lambda>d. d) g db) = events db"
proof -
  obtain r db1 where l: "pg_Load srv (\<lambda>d. d) db g = (r, db1)" by (metis surj_pair)
  then have db1: "events db1 = events db" using pg_Load_db by fastforce
  have "events (snd (exec srv (upsert_snapshot srv g v state) db1)) = events db1" for v state
    by (simp add: exec_def upsert_snapshot_events split: fault.split)
  then show ?thesis using l db1 by (simp add: saveSnapshot_def split: sum.split)
qed

section \<open>Append\<close>

text \<open>\<open>r\<close> is the row of the event \<open>e\<close>, and it did not collide with the rows \<open>old\<close>.\<close>

definition inserted :: "server \<Rightarrow> EventRow list \<Rightarrow> Event \<Rightarrow> EventRow \<Rightarrow> bool" where
  "inserted srv old e r \<longleftrightarrow>
     uuid_in srv (eID e) = Some (evEventID r) \<and> uuid_in srv (eAggregateID e) = Some (evAggregateID r) \<and>
     evVersion r = eVersion e \<and> evType r = eType e \<and> jsonb_in srv (eData e) = Inr (evData r) \<and>
     evOccurredAt r = timestamp_in srv (eOccurredAt e) \<and> 0 < sint (eVersion e) \<and>
     (\<forall>q \<in> set old. evEventID q \<noteq> evEventID r \<and> \<not> (evAggregateID q = evAggregateID r \<and> evVersion q = evVersion r))"

lemma insert_event_frame: "snapshots (snd (insert_event srv e db)) = snapshots db"
  by (simp add: insert_event_def Let_def split: sum.split)

lemma insert_event_ok:
  assumes "insert_event srv e db = (Inr u, db')"
  shows "\<exists>r. events db' = events db @ [r] \<and> inserted srv (events db) e r"
proof -
  from assms obtain i g v where *: "uuid_in srv (eID e) = Some i" "uuid_in srv (eAggregateID e) = Some g"
      "jsonb_in srv (eData e) = Inr v"
    by (auto simp: insert_event_def uuid_param_def split: sum.splits option.splits)
  let ?r = "\<lparr>evSeq = sequence db + 1, evEventID = i, evAggregateID = g, evVersion = eVersion e,
    evType = eType e, evData = v, evOccurredAt = timestamp_in srv (eOccurredAt e)\<rparr>"
  have "events db' = events db @ [?r]" "inserted srv (events db) e ?r"
    using assms * by (auto simp: insert_event_def uuid_param_def Let_def inserted_def list_ex_iff split: if_splits)
  then show ?thesis by blast
qed

lemma exec_insert_ok:
  assumes "exec srv (insert_event srv e) db = (Inr u, db')"
  shows "\<exists>r. events db' = events db @ [r] \<and> inserted srv (events db) e r" and "snapshots db' = snapshots db"
proof -
  from assms have i: "insert_event srv e (tick db) = (Inr u, db')" by (auto simp: exec_def split: fault.splits)
  from insert_event_ok [OF i] show "\<exists>r. events db' = events db @ [r] \<and> inserted srv (events db) e r" by simp
  from insert_event_frame [of srv e "tick db"] i show "snapshots db' = snapshots db" by simp
qed

text \<open>What the loop has inserted when it comes to its end: each event collides with no row before it.\<close>

fun all_inserted :: "server \<Rightarrow> EventRow list \<Rightarrow> Event list \<Rightarrow> EventRow list \<Rightarrow> bool" where
  "all_inserted srv old [] rs \<longleftrightarrow> rs = []"
| "all_inserted srv old (e # es) rs \<longleftrightarrow>
     (\<exists>r rs'. rs = r # rs' \<and> inserted srv old e r \<and> all_inserted srv (old @ [r]) es rs')"

lemma pg_insert_loop_ok:
  "pg_insert_loop srv aggID v i es db = (None, db') \<Longrightarrow>
     snapshots db' = snapshots db \<and> continues aggID (v + of_nat i) es \<and>
     (\<exists>rs. events db' = events db @ rs \<and> all_inserted srv (events db) es rs)"
proof (induction es arbitrary: i db)
  case (Cons e es)
  obtain u db1 where x: "exec srv (insert_event srv e) db = (Inr u, db1)" and
    rest: "pg_insert_loop srv aggID v (Suc i) es db1 = (None, db')" and
    e: "eAggregateID e = aggID" "eVersion e = v + of_nat i + 1"
    using Cons.prems by (auto simp: Let_def split: if_splits prod.splits sum.splits)
  from exec_insert_ok [OF x] obtain r where
    r: "events db1 = events db @ [r]" "inserted srv (events db) e r" "snapshots db1 = snapshots db" by blast
  from Cons.IH [OF rest] obtain rs where
    rs: "events db' = events db @ [r] @ rs" "all_inserted srv (events db @ [r]) es rs" "snapshots db' = snapshots db"
      "continues aggID (v + of_nat (Suc i)) es"
    using r by auto
  have "continues aggID (v + of_nat i) (e # es)"
    using rs(4) e by (simp add: continues_Cons algebra_simps)
  moreover have "events db' = events db @ r # rs" "all_inserted srv (events db) (e # es) (r # rs)"
    using rs r by auto
  ultimately show ?case using rs(3) by blast
qed simp

lemma all_inserted_length: "all_inserted srv old es rs \<Longrightarrow> length rs = length es"
  by (induction es arbitrary: old rs) auto

lemma all_inserted_aggregate:
  "all_inserted srv old es rs \<Longrightarrow> continues aggID v es \<Longrightarrow> r \<in> set rs \<Longrightarrow> uuid_in srv aggID = Some (evAggregateID r)"
  by (induction es arbitrary: old rs v) (auto simp: inserted_def continues_Cons)

lemma all_inserted_versions:
  "all_inserted srv old es rs \<Longrightarrow> continues aggID v es \<Longrightarrow> map evVersion rs = numbered v (length rs)"
  by (induction es arbitrary: old rs v) (auto simp: inserted_def continues_Cons)

lemma all_inserted_first:
  "all_inserted srv old es rs \<Longrightarrow> es \<noteq> [] \<Longrightarrow> continues aggID v es \<Longrightarrow> uuid_in srv aggID = Some g \<Longrightarrow> q \<in> set old \<Longrightarrow>
     evAggregateID q = g \<Longrightarrow> evVersion q \<noteq> v + 1"
  by (cases es) (auto simp: inserted_def continues_Cons)

text \<open>The three ways an append ends.\<close>

lemma pg_Append_cases:
  assumes "pg_Append srv db aggID v es = (r, db')" and "es \<noteq> []"
  obtains (unchanged) "r \<noteq> None" "events db' = events db" "snapshots db' = snapshots db"
    | (written) rs db3 where "continues aggID v es" "all_inserted srv (events db) es rs"
        "events db3 = events db @ rs" "snapshots db3 = snapshots db"
        "db' = db3 \<or> db' = saveSnapshot srv (\<lambda>d. d) aggID db3"
proof -
  obtain b db1 where b: "BeginTx srv db = (b, db1)" by (metis surj_pair)
  then have db1: "db1 = tick db" by (rule BeginTx_db)
  obtain l db2 where l: "pg_insert_loop srv aggID v 0 es db1 = (l, db2)" by (metis surj_pair)
  obtain c db3 where c: "Commit srv db1 db2 = (c, db3)" by (metis surj_pair)
  show thesis
  proof (cases "(\<exists>err. b = Inl err) \<or> l \<noteq> None \<or> (c \<noteq> None \<and> db3 = tick (Rollback db1 db2))")
    case True
    then have "r \<noteq> None" "events db' = events db" "snapshots db' = snapshots db"
      using assms b l c db1 by (auto simp: pg_Append_def split: sum.splits option.splits)
    then show thesis by (rule unchanged)
  next
    case False
    then have ln: "l = None" "db3 = tick db2" using c by (auto simp: Commit_def split: fault.splits)
    from pg_insert_loop_ok [OF l [unfolded ln]] obtain rs where
      rs: "snapshots db2 = snapshots db" "continues aggID v es" "events db2 = events db @ rs" "all_inserted srv (events db) es rs"
      using db1 by auto
    have "db' = db3 \<or> db' = saveSnapshot srv (\<lambda>d. d) aggID db3"
      using assms b l c False ln by (auto simp: pg_Append_def split: sum.splits option.splits if_splits)
    with rs ln(2) show thesis by (intro written [of rs db3]) simp_all
  qed
qed

lemma pg_Append_only:
  assumes "pg_Append srv db aggID v es = (r, db')"
  shows "\<exists>fs. pg_stream db' g = pg_stream db g @ fs"
proof (cases "es = []")
  case True
  then show ?thesis using assms by (simp add: pg_Append_def)
next
  case False
  from assms False show ?thesis
  proof (cases rule: pg_Append_cases)
    case unchanged
    then show ?thesis using pg_stream_same [of db' db] by simp
  next
    case (written rs db3)
    then have "events db' = events db @ rs" using saveSnapshot_events by auto
    then show ?thesis using pg_stream_append by blast
  qed
qed

section \<open>Identifiers and the global order\<close>

text \<open>Event ids are unique and in normal form, and the order of the table is the order of \<^verbatim>\<open>seq\<close>.\<close>

definition log_ok :: "server \<Rightarrow> DB \<Rightarrow> bool" where
  "log_ok srv db \<longleftrightarrow> distinct (map evEventID (events db)) \<and>
     (\<forall>r \<in> set (events db). uuid_in srv (evEventID r) = Some (evEventID r)) \<and>
     sorted (map (\<lambda>r. sint (evSeq r)) (events db)) \<and>
     (\<forall>r \<in> set (events db). sint (evSeq r) \<le> sint (sequence db))"

lemma log_ok_later:
  "log_ok srv db \<Longrightarrow> events db' = events db \<Longrightarrow> sint (sequence db) \<le> sint (sequence db') \<Longrightarrow> log_ok srv db'"
  by (fastforce simp: log_ok_def)

lemma insert_event_sequence: "sint (sequence db) \<le> sint (sequence (snd (insert_event srv e db)))"
  by (auto simp: insert_event_def Let_def sint_step split: sum.split)

lemma exec_insert_sequence: "exec srv (insert_event srv e) db = (r, db') \<Longrightarrow> sint (sequence db) \<le> sint (sequence db')"
  using insert_event_sequence [of "tick db" srv e] by (auto simp: exec_def split: fault.splits)

lemma insert_loop_sequence:
  "pg_insert_loop srv g v i es db = (r, db') \<Longrightarrow> sint (sequence db) \<le> sint (sequence db')"
proof (induction es arbitrary: i db)
  case (Cons e es)
  obtain x db1 where x: "exec srv (insert_event srv e) db = (x, db1)" by (metis surj_pair)
  from exec_insert_sequence [OF x] Cons.IH [of "Suc i" db1] Cons.prems x show ?case
    by (auto simp: Let_def split: if_splits sum.splits)
qed simp

lemma saveSnapshot_sequence: "sequence (saveSnapshot srv (\<lambda>d. d) g db) = sequence db"
proof -
  obtain r db1 where l: "pg_Load srv (\<lambda>d. d) db g = (r, db1)" by (metis surj_pair)
  then have db1: "sequence db1 = sequence db" using pg_Load_db by fastforce
  have "sequence (snd (upsert_snapshot srv g v state d)) = sequence d" for v state d
    by (simp add: upsert_snapshot_def split: sum.split option.split)
  then have "sequence (snd (exec srv (upsert_snapshot srv g v state) db1)) = sequence db1" for v state
    by (simp add: exec_def split: fault.split)
  then show ?thesis using l db1 by (simp add: saveSnapshot_def split: sum.split)
qed

context postgres_server
begin

lemma insert_event_log:
  assumes "log_ok srv db" and "insert_event srv e db = (Inr u, db')"
  shows "log_ok srv db'"
proof -
  obtain i g v where *: "uuid_in srv (eID e) = Some i" "uuid_in srv (eAggregateID e) = Some g" "jsonb_in srv (eData e) = Inr v"
    using assms(2) by (auto simp: insert_event_def uuid_param_def split: sum.splits option.splits)
  let ?r = "\<lparr>evSeq = sequence db + 1, evEventID = i, evAggregateID = g, evVersion = eVersion e,
    evType = eType e, evData = v, evOccurredAt = timestamp_in srv (eOccurredAt e)\<rparr>"
  have d: "events db' = events db @ [?r]" "sequence db' = sequence db + 1" "sequence db \<noteq> 9223372036854775807"
      "i \<notin> evEventID ` set (events db)"
    using assms(2) * by (auto simp: insert_event_def uuid_param_def Let_def list_ex_iff split: if_splits)
  have sq: "sint (sequence db + 1) = sint (sequence db) + 1" using d(3) by (rule sint_step)
  show ?thesis
    using assms(1) d(1,2,4) uuid_normal [OF *(1)]
    by (fastforce simp: log_ok_def sq sorted_append)
qed

lemma insert_loop_log:
  "pg_insert_loop srv g v i es db = (None, db') \<Longrightarrow> log_ok srv db \<Longrightarrow> log_ok srv db'"
proof (induction es arbitrary: i db)
  case (Cons e es)
  then obtain u db1 where x: "exec srv (insert_event srv e) db = (Inr u, db1)"
      "pg_insert_loop srv g v (Suc i) es db1 = (None, db')"
    by (auto simp: Let_def split: if_splits prod.splits sum.splits)
  have "insert_event srv e (tick db) = (Inr u, db1)" using x(1) by (auto simp: exec_def split: fault.splits)
  moreover have "log_ok srv (tick db)" using Cons.prems(2) by (simp add: log_ok_def)
  ultimately show ?case using insert_event_log Cons.IH [OF x(2)] by blast
qed simp

lemma pg_Append_log:
  assumes "log_ok srv db" and "pg_Append srv db g v es = (r, db')"
  shows "log_ok srv db'"
proof (cases "es = []")
  case True
  then show ?thesis using assms by (simp add: pg_Append_def)
next
  case False
  obtain b db1 where b: "BeginTx srv db = (b, db1)" by (metis surj_pair)
  then have db1: "db1 = tick db" by (rule BeginTx_db)
  obtain l db2 where l: "pg_insert_loop srv g v 0 es db1 = (l, db2)" by (metis surj_pair)
  obtain c db3 where c: "Commit srv db1 db2 = (c, db3)" by (metis surj_pair)
  have l1: "log_ok srv db1" using assms(1) db1 by (simp add: log_ok_def)
  have lr: "log_ok srv (Rollback db1 db2)" using log_ok_later [OF l1] insert_loop_sequence [OF l] by simp
  have l2: "log_ok srv db2" if "l = None" using insert_loop_log [OF l [unfolded that] l1] .
  have tk: "log_ok srv (tick d) = log_ok srv d" for d by (simp add: log_ok_def)
  have l3: "log_ok srv db3" if "l = None"
    using c l2 [OF that] lr tk by (auto simp: Commit_def split: fault.splits)
  have "log_ok srv (saveSnapshot srv (\<lambda>d. d) g db3)" if "log_ok srv db3"
    using that log_ok_later [OF that saveSnapshot_events] saveSnapshot_sequence by simp
  then show ?thesis
    using assms(2) b l c l1 lr l3 False by (auto simp: pg_Append_def split: sum.splits option.splits if_splits)
qed

end

section \<open>The contract\<close>

lemma pg_HasTransferEvent_db: "pg_HasTransferEvent srv db ty tid = (r, db') \<Longrightarrow> db' = tick db"
  using exec_reads [OF reads_select(5)]
  by (auto simp: pg_HasTransferEvent_def split: prod.splits sum.splits)

lemma rows_other_aggregate:
  assumes "events db' = events db @ rs" and "\<And>r. r \<in> set rs \<Longrightarrow> evAggregateID r = g"
  shows "pg_rows db' h = (if h = g then pg_rows db g @ rs else pg_rows db h)"
proof -
  have "filter (\<lambda>r. evAggregateID r = h) rs = (if h = g then rs else [])"
    using assms(2) by (auto intro: filter_True filter_False)
  then show ?thesis using assms(1) by (auto simp: pg_rows_def)
qed

context postgres_server
begin

lemma inserted_stored: "inserted srv old e r \<Longrightarrow> encoded e \<Longrightarrow> uuid_in srv (eAggregateID e) = Some (eAggregateID e) \<Longrightarrow>
    stored_as e (row_event r)"
  by (auto simp: inserted_def encoded_def stored_as_def intro: jsonb_payload)

lemma all_inserted_stamped:
  "all_inserted srv old es rs \<Longrightarrow> list_all encoded es \<Longrightarrow> continues aggID v es \<Longrightarrow> uuid_in srv aggID = Some aggID \<Longrightarrow>
     stamped es (map row_event rs)"
proof (induction es arbitrary: old rs v)
  case (Cons e es)
  then obtain r rs' where r: "rs = r # rs'" "inserted srv old e r" "all_inserted srv (old @ [r]) es rs'" by auto
  have e: "eAggregateID e = aggID" "continues aggID (v + 1) es" using Cons.prems(3) by (simp_all add: continues_Cons)
  have "stored_as e (row_event r)" using inserted_stored [OF r(2)] Cons.prems(2,4) e(1) by simp
  with Cons.IH [OF r(3) _ e(2)] Cons.prems(2,4) r(1) show ?case by (simp add: stamped_Cons)
qed simp

lemma written_inv:
  assumes "pg_inv srv db" and "pg_valid srv aggID" and "length (pg_stream db aggID) + length es \<le> history_limit"
    and "continues aggID (of_nat (length (pg_stream db aggID))) es" and "all_inserted srv (events db) es rs"
    and "events db3 = events db @ rs" and "snapshots db3 = snapshots db"
  shows "pg_inv srv db3" and "pg_stream db3 = (pg_stream db)(aggID := pg_stream db aggID @ map row_event rs)"
proof -
  have agg: "evAggregateID r = aggID" if "r \<in> set rs" for r
    using all_inserted_aggregate [OF assms(5,4) that] assms(2) by (simp add: pg_valid_def)
  have rows: "pg_rows db3 h = (if h = aggID then pg_rows db aggID @ rs else pg_rows db h)" for h
    using rows_other_aggregate [OF assms(6), of aggID h] agg by simp
  have len: "length rs = length es" by (rule all_inserted_length [OF assms(5)])
  have ver: "map evVersion rs = numbered (of_nat (length (pg_rows db aggID))) (length rs)"
    using all_inserted_versions [OF assms(5,4)] by (simp add: pg_stream_def)
  have ok: "rows_ok srv db" using assms(1) by (simp add: pg_inv_def)
  have ok3: "rows_ok srv db3"
    unfolding rows_ok_def
  proof (intro conjI allI ballI)
    fix r assume "r \<in> set (events db3)"
    then show "pg_valid srv (evAggregateID r)" using ok agg assms(2,6) by (auto simp: rows_ok_def)
  next
    fix h
    show "map evVersion (pg_rows db3 h) = numbered 0 (length (pg_rows db3 h))"
      using ok ver by (simp add: rows rows_ok_def numbered_add)
    show "length (pg_rows db3 h) \<le> history_limit"
      using ok len assms(3) by (simp add: rows rows_ok_def pg_stream_def)
  qed
  have "snapshot_ok (pg_stream db3 h) sn" if "snapshots db3 h = Some sn" for h sn
    using assms(1) that pg_stream_append [OF assms(6), of h] snapshot_ok_append assms(7) by (simp add: pg_inv_def)
  with ok3 show "pg_inv srv db3" by (simp add: pg_inv_def)
  show "pg_stream db3 = (pg_stream db)(aggID := pg_stream db aggID @ map row_event rs)"
    using rows by (simp add: fun_eq_iff pg_stream_def)
qed

lemma pg_Append_atomic:
  assumes "pg_inv srv db" and "pg_valid srv aggID" and "n \<le> length (pg_stream db aggID)" and "es \<noteq> []"
    and "length (pg_stream db aggID) + length es \<le> history_limit" and "continues aggID (of_nat n) es"
    and "list_all encoded es" and "pg_Append srv db aggID (of_nat n) es = (r, db')"
  shows "pg_inv srv db' \<and> (r \<noteq> None \<and> pg_stream db' = pg_stream db \<or>
    n = length (pg_stream db aggID) \<and>
    (\<exists>fs. stamped es fs \<and> pg_stream db' = (pg_stream db)(aggID := pg_stream db aggID @ fs)))"
  using assms(8,4)
proof (cases rule: pg_Append_cases)
  case unchanged
  then show ?thesis using assms(1) pg_inv_same [of db' db] pg_stream_same [of db' db] by simp
next
  case (written rs db3)
  have n: "n = length (pg_stream db aggID)"
  proof (rule ccontr)
    assume "n \<noteq> length (pg_stream db aggID)"
    then have lt: "n < length (pg_rows db aggID)" using assms(3) by (simp add: pg_stream_def)
    then have "pg_rows db aggID ! n \<in> set (pg_rows db aggID)" by simp
    then have q: "pg_rows db aggID ! n \<in> set (events db)" "evAggregateID (pg_rows db aggID ! n) = aggID"
      by (auto simp: pg_rows_def)
    have "evVersion (pg_rows db aggID ! n) = of_nat n + 1"
      using rows_ok_version(1) [of srv, OF _ lt] assms(1) by (simp add: pg_inv_def add.commute)
    with all_inserted_first [OF written(2) assms(4,6) _ q(1,2)] assms(2) show False by (simp add: pg_valid_def)
  qed
  note w = written_inv [OF assms(1,2,5) assms(6) [unfolded n] written(2-4)]
  have ev: "pg_stream db' = pg_stream db3"
    using written(5) saveSnapshot_events pg_stream_same by blast
  have "pg_inv srv db'"
    using written(5) w(1) saveSnapshot_inv [where mid = "\<lambda>d. d", OF w(1) only_grows_id [OF w(1)]] by auto
  moreover have "stamped es (map row_event rs)"
    using all_inserted_stamped [OF written(2) assms(7,6)] assms(2) by (simp add: pg_valid_def)
  ultimately show ?thesis using n w(2) ev by auto
qed

lemma pg_stream_valid: "pg_inv srv db \<Longrightarrow> pg_stream db g \<noteq> [] \<Longrightarrow> pg_valid srv g"
  by (auto simp: pg_inv_def rows_ok_def pg_stream_def pg_rows_def filter_empty_conv)

end

sublocale postgres_server \<subseteq> pg: event_store "postgres_store srv" pg_stream "pg_inv srv" "pg_valid srv"
proof (unfold_locales, goal_cases)
  case (1 s g)
  then show ?case using pg_stream_valid [of s g] by simp
next
  case (2 rb)
  then show ?case by (simp add: pg_valid_def uuid_printed)
next
  case (3 s aggID acc s')
  then show ?case using pg_Load_db pg_stream_same [of s' s] by (fastforce simp: postgres_store_def)
next
  case (4 s aggID acc s')
  then show ?case using pg_Load_db pg_inv_same [of s' s] by (fastforce simp: postgres_store_def)
next
  case (5 s aggID v es r s' g)
  then show ?case using pg_Append_only by (simp add: postgres_store_def)
next
  case (6 s aggID a s')
  then have "pg_Load srv (\<lambda>d. d) s aggID = (Inr a, s')" by (simp add: postgres_store_def)
  from pg_Load_value [OF this 6(1) only_grows_id [OF 6(1)]] pg_Load_db [OF this] show ?case
    using pg_stream_same [of s' s] by auto
next
  case (7 s e aggID v r s')
  then have a: "pg_Append srv s aggID v [e] = (r, s')" by (simp add: postgres_store_def)
  have "[e] \<noteq> []" by simp
  with a show ?case
  proof (cases rule: pg_Append_cases)
    case unchanged
    then show ?thesis using 7(1) pg_inv_same [of s' s] pg_stream_same [of s' s] by simp
  next
    case (written rs db3)
    then show ?thesis using 7(2) by (simp add: continues_Cons)
  qed
next
  case (8 s aggID n es r s')
  then show ?case using pg_Append_atomic by (simp add: postgres_store_def)
next
  case (9 s ty tid found s')
  then show ?case using pg_HasTransferEvent_db pg_stream_same [of s' s] by (fastforce simp: postgres_store_def)
next
  case (10 s ty tid found s')
  then show ?case using pg_HasTransferEvent_db pg_inv_same [of s' s] by (fastforce simp: postgres_store_def)
qed

end
