(* ===== verification/Projector.thy ===== *)
theory Projector
  imports Postgres_Store
begin

text \<open>
  \<^verbatim>\<open>internal/projection/projector.go\<close>: the read models. Each statement is a function on the tables,
  \<open>proj_Apply\<close> is the transaction of one event and \<open>proj_CatchUp\<close> the loop of the boot. The
  invariant \<open>views_agree\<close> says that the balance of an account is the sum of its statement
  entries; \<open>views_of\<close> relates the read models to the stored events that are marked as
  processed, and with all of them processed to the replayed account.
\<close>

section \<open>Statements\<close>

text \<open>\<^verbatim>\<open>INSERT ... ON CONFLICT DO NOTHING\<close> returns the number of rows it has inserted.\<close>

definition insert_processed :: "server \<Rightarrow> string \<Rightarrow> nat stmt" where
  "insert_processed srv eventID db =
     (case uuid_param srv eventID of
        Inl err \<Rightarrow> (Inl err, db)
      | Inr i \<Rightarrow> if i \<in> processed db then (Inr 0, db) else (Inr 1, db\<lparr>processed := insert i (processed db)\<rparr>))"

definition insert_balance :: "server \<Rightarrow> string \<Rightarrow> string \<Rightarrow> int64 \<Rightarrow> unit stmt" where
  "insert_balance srv accountID owner version db =
     (case uuid_param srv accountID of
        Inl err \<Rightarrow> (Inl err, db)
      | Inr g \<Rightarrow>
          if sint version < 0 then (Inl (check_violation ''account_balances'' ''account_balances_last_version_check''), db)
          else (case balances db g of
              Some _ \<Rightarrow> (Inr (), db)
            | None \<Rightarrow> (Inr (), db\<lparr>balances := (balances db)(g \<mapsto> \<lparr>brOwner = owner, brBalance = 0, brOpen = True,
                        brLastVersion = version, brUpdatedAt = clock srv (ticks db)\<rparr>)\<rparr>)))"

definition update_balance :: "server \<Rightarrow> string \<Rightarrow> int64 \<Rightarrow> int64 \<Rightarrow> int \<Rightarrow> nat stmt" where
  "update_balance srv accountID delta version at db =
     (case uuid_param srv accountID of
        Inl err \<Rightarrow> (Inl err, db)
      | Inr g \<Rightarrow>
          (case balances db g of
             None \<Rightarrow> (Inr 0, db)
           | Some row \<Rightarrow>
               (let s = sint (brBalance row) + sint delta
                in if s < - 9223372036854775808 \<or> 9223372036854775807 < s then (Inl out_of_range, db)
                   else if sint version < 0
                   then (Inl (check_violation ''account_balances'' ''account_balances_last_version_check''), db)
                   else (Inr 1, db\<lparr>balances := (balances db)(g \<mapsto> row\<lparr>brBalance := brBalance row + delta,
                           brLastVersion := version, brUpdatedAt := timestamp_in srv at\<rparr>)\<rparr>))))"

text \<open>\<^verbatim>\<open>NULLIF($n,'')::uuid\<close>.\<close>

definition nullable_uuid :: "server \<Rightarrow> string \<Rightarrow> string option result" where
  "nullable_uuid srv s =
     (if s = [] then Inr None
      else (case uuid_param srv s of Inl err \<Rightarrow> Inl err | Inr u \<Rightarrow> Inr (Some u)))"

definition statement_kinds :: "string list" where
  "statement_kinds = [''deposit'', ''withdrawal'', ''transfer_out'', ''transfer_in'', ''transfer_reversal'']"

definition insert_statement ::
    "server \<Rightarrow> string \<Rightarrow> string \<Rightarrow> string \<Rightarrow> int64 \<Rightarrow> string \<Rightarrow> string \<Rightarrow> string \<Rightarrow> int \<Rightarrow> unit stmt" where
  "insert_statement srv eventID accountID kind amount counterparty transferID description at db =
     (case uuid_param srv eventID of
        Inl err \<Rightarrow> (Inl err, db)
      | Inr i \<Rightarrow>
     (case uuid_param srv accountID of
        Inl err \<Rightarrow> (Inl err, db)
      | Inr g \<Rightarrow>
     (case nullable_uuid srv counterparty of
        Inl err \<Rightarrow> (Inl err, db)
      | Inr cp \<Rightarrow>
     (case nullable_uuid srv transferID of
        Inl err \<Rightarrow> (Inl err, db)
      | Inr tid \<Rightarrow>
          if kind \<notin> set statement_kinds
          then (Inl (check_violation ''statement_entries'' ''statement_entries_kind_check''), db)
          else if amount = 0
          then (Inl (check_violation ''statement_entries'' ''statement_entries_amount_check''), db)
          else if list_ex (\<lambda>r. srEventID r = i) (statements db) then (Inr (), db)
          else (Inr (), db\<lparr>statements := statements db @
             [\<lparr>srEventID = i, srAccountID = g, srKind = kind, srAmount = amount, srCounterparty = cp,
               srTransferID = tid, srDescription = description, srOccurredAt = timestamp_in srv at\<rparr>]\<rparr>)))))"

definition insert_transfer :: "server \<Rightarrow> string \<Rightarrow> string \<Rightarrow> string \<Rightarrow> int64 \<Rightarrow> int \<Rightarrow> unit stmt" where
  "insert_transfer srv transferID fromID toID amount at db =
     (case uuid_param srv transferID of
        Inl err \<Rightarrow> (Inl err, db)
      | Inr tid \<Rightarrow>
     (case uuid_param srv fromID of
        Inl err \<Rightarrow> (Inl err, db)
      | Inr f \<Rightarrow>
     (case uuid_param srv toID of
        Inl err \<Rightarrow> (Inl err, db)
      | Inr t \<Rightarrow>
          if sint amount \<le> 0 then (Inl (check_violation ''transfers'' ''transfers_amount_check''), db)
          else (case transfers db tid of
              Some _ \<Rightarrow> (Inr (), db)
            | None \<Rightarrow> (Inr (), db\<lparr>transfers := (transfers db)(tid \<mapsto> \<lparr>tfFromID = f, tfToID = t, tfAmount = amount,
                 tfStatus = ''pending'', tfReason = [], tfCreatedAt = timestamp_in srv at, tfUpdatedAt = timestamp_in srv at\<rparr>)\<rparr>)))))"

definition update_transfer :: "server \<Rightarrow> string \<Rightarrow> (TransferRow \<Rightarrow> TransferRow) \<Rightarrow> unit stmt" where
  "update_transfer srv transferID f db =
     (case uuid_param srv transferID of
        Inl err \<Rightarrow> (Inl err, db)
      | Inr tid \<Rightarrow> (Inr (), db\<lparr>transfers := (transfers db)(tid := map_option f (transfers db tid))\<rparr>))"

section \<open>Operations\<close>

text \<open>A statement whose result is only its error, and the sequence of two such steps.\<close>

definition run :: "server \<Rightarrow> 'a stmt \<Rightarrow> DB \<Rightarrow> error option \<times> DB" where
  "run srv stmt db = (case exec srv stmt db of (Inl err, db') \<Rightarrow> (Some err, db') | (Inr _, db') \<Rightarrow> (None, db'))"

definition and_then :: "(DB \<Rightarrow> error option \<times> DB) \<Rightarrow> (DB \<Rightarrow> error option \<times> DB) \<Rightarrow> DB \<Rightarrow> error option \<times> DB" where
  "and_then f g db = (case f db of (Some err, db') \<Rightarrow> (Some err, db') | (None, db') \<Rightarrow> g db')"

definition bump :: "server \<Rightarrow> Event \<Rightarrow> int64 \<Rightarrow> DB \<Rightarrow> error option \<times> DB" where
  "bump srv e delta db =
     (case exec srv (update_balance srv (eAggregateID e) delta (eVersion e) (eOccurredAt e)) db of
        (Inl err, db') \<Rightarrow> (Some err, db')
      | (Inr n, db') \<Rightarrow>
          if n \<noteq> 1 then (Some (Errorf (''projection invariant failed: account '' @ eAggregateID e @ '' missing for event '' @ eID e)), db')
          else (None, db'))"

definition statement :: "server \<Rightarrow> Event \<Rightarrow> string \<Rightarrow> int64 \<Rightarrow> string \<Rightarrow> string \<Rightarrow> string \<Rightarrow> DB \<Rightarrow> error option \<times> DB" where
  "statement srv e kind amount counterparty transferID description =
     run srv (insert_statement srv (eID e) (eAggregateID e) kind amount counterparty transferID description (eOccurredAt e))"

definition applyEvent :: "server \<Rightarrow> Event \<Rightarrow> DB \<Rightarrow> error option \<times> DB" where
  "applyEvent srv e db =
     (if eType e = EventAccountOpened then
        (case unmarshal_AccountOpened (eData e) of
           Inl err \<Rightarrow> (Some err, db)
         | Inr d \<Rightarrow> run srv (insert_balance srv (eAggregateID e) (aoOwner d) (eVersion e)) db)
      else if eType e = EventMoneyDeposited then
        (case unmarshal_MoneyDeposited (eData e) of
           Inl err \<Rightarrow> (Some err, db)
         | Inr d \<Rightarrow> and_then (bump srv e (mdAmount d))
             (statement srv e ''deposit'' (mdAmount d) [] [] (mdDescription d)) db)
      else if eType e = EventMoneyWithdrawn then
        (case unmarshal_MoneyWithdrawn (eData e) of
           Inl err \<Rightarrow> (Some err, db)
         | Inr d \<Rightarrow> and_then (bump srv e (- mwAmount d))
             (statement srv e ''withdrawal'' (- mwAmount d) [] [] (mwDescription d)) db)
      else if eType e = EventTransferDebited then
        (case unmarshal_TransferDebited (eData e) of
           Inl err \<Rightarrow> (Some err, db)
         | Inr d \<Rightarrow> and_then (bump srv e (- tdAmount d))
             (and_then (statement srv e ''transfer_out'' (- tdAmount d) (tdTo d) (tdTransferID d) [])
               (run srv (insert_transfer srv (tdTransferID d) (eAggregateID e) (tdTo d) (tdAmount d) (eOccurredAt e)))) db)
      else if eType e = EventTransferCredited then
        (case unmarshal_TransferCredited (eData e) of
           Inl err \<Rightarrow> (Some err, db)
         | Inr d \<Rightarrow> and_then (bump srv e (tcAmount d))
             (and_then (statement srv e ''transfer_in'' (tcAmount d) (tcFrom d) (tcTransferID d) [])
               (run srv (update_transfer srv (tcTransferID d)
                 (\<lambda>t. t\<lparr>tfStatus := ''completed'', tfUpdatedAt := timestamp_in srv (eOccurredAt e)\<rparr>)))) db)
      else if eType e = EventTransferReversed then
        (case unmarshal_TransferReversed (eData e) of
           Inl err \<Rightarrow> (Some err, db)
         | Inr d \<Rightarrow> and_then (bump srv e (trAmount d))
             (and_then (statement srv e ''transfer_reversal'' (trAmount d) [] (trTransferID d) (trReason d))
               (run srv (update_transfer srv (trTransferID d)
                 (\<lambda>t. t\<lparr>tfStatus := ''reversed'', tfReason := trReason d, tfUpdatedAt := timestamp_in srv (eOccurredAt e)\<rparr>)))) db)
      else (None, db))"

definition proj_Apply :: "server \<Rightarrow> Event \<Rightarrow> DB \<Rightarrow> error option \<times> DB" where
  "proj_Apply srv e db =
     (case BeginTx srv db of
        (Inl err, db1) \<Rightarrow> (Some (Wrapf ''begin'' err), db1)
      | (Inr _, db1) \<Rightarrow>
          (case exec srv (insert_processed srv (eID e)) db1 of
             (Inl err, db2) \<Rightarrow> (Some (Wrapf ''mark processed'' err), Rollback db1 db2)
           | (Inr n, db2) \<Rightarrow>
               if n = 0 then Commit srv db1 db2
               else (case applyEvent srv e db2 of
                   (Some err, db3) \<Rightarrow> (Some err, Rollback db1 db3)
                 | (None, db3) \<Rightarrow> Commit srv db1 db3)))"

text \<open>\<^verbatim>\<open>Handle\<close> logs the error and drops it.\<close>

definition proj_Handle :: "server \<Rightarrow> Event \<Rightarrow> DB \<Rightarrow> DB" where
  "proj_Handle srv e db = snd (proj_Apply srv e db)"

fun proj_CatchUp :: "server \<Rightarrow> Event list \<Rightarrow> DB \<Rightarrow> error option \<times> DB" where
  "proj_CatchUp srv [] db = (None, db)"
| "proj_CatchUp srv (e # es) db =
     (case proj_Apply srv e db of
        (Some err, db') \<Rightarrow> (Some (Wrapf (''catch-up event '' @ eID e) err), db')
      | (None, db') \<Rightarrow> proj_CatchUp srv es db')"

section \<open>What a successful step has done\<close>

lemma run_ok: "run srv stmt db = (None, db') \<Longrightarrow> \<exists>x. stmt (tick db) = (Inr x, db')"
  by (auto simp: run_def exec_def split: fault.splits prod.splits sum.splits)

lemma and_then_ok: "and_then f g db = (None, db') \<longleftrightarrow> (\<exists>db1. f db = (None, db1) \<and> g db1 = (None, db'))"
  by (auto simp: and_then_def split: prod.splits option.splits)

text \<open>The tables \<open>bump\<close> and \<open>statement\<close> write.\<close>

definition same_views :: "DB \<Rightarrow> DB \<Rightarrow> bool" where
  "same_views db db' \<longleftrightarrow> processed db' = processed db \<and> balances db' = balances db \<and> statements db' = statements db"

definition bumped :: "server \<Rightarrow> Event \<Rightarrow> int64 \<Rightarrow> DB \<Rightarrow> DB \<Rightarrow> bool" where
  "bumped srv e w db db' \<longleftrightarrow> (\<exists>g row. uuid_in srv (eAggregateID e) = Some g \<and> balances db g = Some row \<and>
     - 9223372036854775808 \<le> sint (brBalance row) + sint w \<and> sint (brBalance row) + sint w \<le> 9223372036854775807 \<and>
     processed db' = processed db \<and> statements db' = statements db \<and>
     balances db' = (balances db)(g \<mapsto> row\<lparr>brBalance := brBalance row + w, brLastVersion := eVersion e,
       brUpdatedAt := timestamp_in srv (eOccurredAt e)\<rparr>))"

definition noted :: "server \<Rightarrow> Event \<Rightarrow> int64 \<Rightarrow> DB \<Rightarrow> DB \<Rightarrow> bool" where
  "noted srv e w db db' \<longleftrightarrow> (\<exists>i g. uuid_in srv (eID e) = Some i \<and> uuid_in srv (eAggregateID e) = Some g \<and>
     processed db' = processed db \<and> balances db' = balances db \<and>
     (if list_ex (\<lambda>r. srEventID r = i) (statements db) then statements db' = statements db
      else \<exists>s. srEventID s = i \<and> srAccountID s = g \<and> srAmount s = w \<and> statements db' = statements db @ [s]))"

definition posted :: "server \<Rightarrow> Event \<Rightarrow> int64 \<Rightarrow> DB \<Rightarrow> DB \<Rightarrow> bool" where
  "posted srv e w db db' \<longleftrightarrow> (\<exists>db1 db2. bumped srv e w db db1 \<and> noted srv e w db1 db2 \<and> same_views db2 db')"

lemma bump_ok:
  assumes "bump srv e w db = (None, db')"
  shows "bumped srv e w db db'"
proof -
  from assms have "update_balance srv (eAggregateID e) w (eVersion e) (eOccurredAt e) (tick db) = (Inr 1, db')"
    by (auto simp: bump_def exec_def split: fault.splits prod.splits sum.splits if_splits)
  then show ?thesis
    by (auto simp: update_balance_def uuid_param_def bumped_def Let_def not_less split: option.splits if_splits)
qed

lemma statement_ok:
  assumes "statement srv e kind w cp tid desc db = (None, db')"
  shows "noted srv e w db db'"
proof -
  from assms obtain x where
    "insert_statement srv (eID e) (eAggregateID e) kind w cp tid desc (eOccurredAt e) (tick db) = (Inr x, db')"
    unfolding statement_def by (blast dest: run_ok)
  then show ?thesis
    by (fastforce simp: insert_statement_def uuid_param_def noted_def split: option.splits sum.splits if_splits)
qed

lemma insert_transfer_views: "run srv (insert_transfer srv tid f t n at) db = (None, db') \<Longrightarrow> same_views db db'"
  by (drule run_ok) (auto simp: insert_transfer_def uuid_param_def same_views_def split: option.splits if_splits)

lemma update_transfer_views: "run srv (update_transfer srv tid f) db = (None, db') \<Longrightarrow> same_views db db'"
  by (drule run_ok) (auto simp: update_transfer_def uuid_param_def same_views_def split: option.splits)

text \<open>The amount an event posts to the account: none for an opening, an unknown type, or a payload that does not decode.\<close>

definition posting :: "Event \<Rightarrow> int64 option" where
  "posting e =
     (if eType e = EventMoneyDeposited then
        (case unmarshal_MoneyDeposited (eData e) of Inl _ \<Rightarrow> None | Inr d \<Rightarrow> Some (mdAmount d))
      else if eType e = EventMoneyWithdrawn then
        (case unmarshal_MoneyWithdrawn (eData e) of Inl _ \<Rightarrow> None | Inr d \<Rightarrow> Some (- mwAmount d))
      else if eType e = EventTransferDebited then
        (case unmarshal_TransferDebited (eData e) of Inl _ \<Rightarrow> None | Inr d \<Rightarrow> Some (- tdAmount d))
      else if eType e = EventTransferCredited then
        (case unmarshal_TransferCredited (eData e) of Inl _ \<Rightarrow> None | Inr d \<Rightarrow> Some (tcAmount d))
      else if eType e = EventTransferReversed then
        (case unmarshal_TransferReversed (eData e) of Inl _ \<Rightarrow> None | Inr d \<Rightarrow> Some (trAmount d))
      else None)"

text \<open>An opening adds the row of the account if it is not there.\<close>

definition opened_view :: "server \<Rightarrow> Event \<Rightarrow> DB \<Rightarrow> DB \<Rightarrow> bool" where
  "opened_view srv e db db' \<longleftrightarrow> (\<exists>g d. uuid_in srv (eAggregateID e) = Some g \<and> unmarshal_AccountOpened (eData e) = Inr d \<and>
     processed db' = processed db \<and> statements db' = statements db \<and>
     (balances db g \<noteq> None \<and> balances db' = balances db \<or>
      balances db g = None \<and> (\<exists>row. balances db' = (balances db)(g \<mapsto> row) \<and>
        brOwner row = aoOwner d \<and> brBalance row = 0 \<and> brOpen row)))"

lemma insert_balance_ok:
  assumes "run srv (insert_balance srv (eAggregateID e) (aoOwner d) v) db = (None, db')"
    and "unmarshal_AccountOpened (eData e) = Inr d"
  shows "opened_view srv e db db'"
proof -
  obtain x where "insert_balance srv (eAggregateID e) (aoOwner d) v (tick db) = (Inr x, db')"
    using run_ok [OF assms(1)] by blast
  then show ?thesis
    using assms(2) unfolding opened_view_def
    by (fastforce simp: insert_balance_def uuid_param_def split: option.splits if_splits)
qed

lemma same_views_refl: "same_views db db"
  by (simp add: same_views_def)

lemma posted_two: "bumped srv e w db db1 \<Longrightarrow> noted srv e w db1 db' \<Longrightarrow> posted srv e w db db'"
  unfolding posted_def same_views_def by blast

lemma applyEvent_ok:
  assumes "applyEvent srv e db = (None, db')"
  shows "eType e = EventAccountOpened \<and> opened_view srv e db db' \<or>
    (\<exists>w. posting e = Some w \<and> posted srv e w db db') \<or>
    eType e \<noteq> EventAccountOpened \<and> posting e = None \<and> same_views db db'"
  using assms unfolding applyEvent_def posting_def
  by (auto simp: and_then_ok same_views_refl split: if_splits sum.splits
    intro: insert_balance_ok posted_two posted_def [THEN iffD2]
    dest!: bump_ok statement_ok insert_transfer_views update_transfer_views)

lemma insert_processed_ok:
  assumes "exec srv (insert_processed srv eventID) db = (Inr n, db')"
  shows "if n = 0 then same_views db db'
    else \<exists>i. uuid_in srv eventID = Some i \<and> i \<notin> processed db \<and> processed db' = insert i (processed db) \<and>
      balances db' = balances db \<and> statements db' = statements db"
  using assms
  by (auto simp: exec_def insert_processed_def uuid_param_def same_views_def split: fault.splits option.splits if_splits)

text \<open>One call: nothing happens to the read models, or the event is marked and applied.\<close>

lemma proj_Apply_cases:
  assumes "proj_Apply srv e db = (r, db')"
  obtains (unchanged) "same_views db db'"
    | (applied) i db2 db3 where "uuid_in srv (eID e) = Some i" "i \<notin> processed db" "applyEvent srv e db2 = (None, db3)"
        "processed db2 = insert i (processed db)" "balances db2 = balances db" "statements db2 = statements db"
        "same_views db3 db'"
proof -
  obtain b db1 where b: "BeginTx srv db = (b, db1)" by (metis surj_pair)
  then have db1: "db1 = tick db" by (rule BeginTx_db)
  obtain m db2 where m: "exec srv (insert_processed srv (eID e)) db1 = (m, db2)" by (metis surj_pair)
  obtain x db3 where x: "applyEvent srv e db2 = (x, db3)" by (metis surj_pair)
  have com: "same_views d db'' \<or> same_views db db''" if "Commit srv db1 d = (q, db'')" for d q db''
    using that db1 by (auto simp: Commit_def same_views_def split: fault.splits)
  have rb: "same_views db (Rollback db1 d)" for d using db1 by (simp add: same_views_def)
  have t1: "same_views db db1" using db1 by (simp add: same_views_def)
  consider "same_views db db'" | n where "m = Inr n" "n = 0" "Commit srv db1 db2 = (r, db')"
    | n where "m = Inr n" "n \<noteq> 0" "x = None" "Commit srv db1 db3 = (r, db')"
    using assms b m x rb t1 by (auto simp: proj_Apply_def split: sum.splits if_splits option.splits)
  then show thesis
  proof cases
    case 1
    then show thesis by (rule unchanged)
  next
    case (2 n)
    from insert_processed_ok [OF m [unfolded 2(1)]] 2(2) have "same_views db1 db2" by simp
    with com [OF 2(3)] t1 have "same_views db db'" by (auto simp: same_views_def)
    then show thesis by (rule unchanged)
  next
    case (3 n)
    from insert_processed_ok [OF m [unfolded 3(1)]] 3(2) obtain i where
      i: "uuid_in srv (eID e) = Some i" "i \<notin> processed db" "processed db2 = insert i (processed db)"
        "balances db2 = balances db" "statements db2 = statements db"
      using t1 by (auto simp: same_views_def)
    from com [OF 3(4)] show thesis using applied [OF i(1,2) x [unfolded 3(3)] i(3-5)] unchanged by blast
  qed
qed

section \<open>Balances and statements agree\<close>

definition entries_sum :: "DB \<Rightarrow> string \<Rightarrow> int" where
  "entries_sum db g = (\<Sum>s \<leftarrow> filter (\<lambda>s. srAccountID s = g) (statements db). sint (srAmount s))"

text \<open>
  No event has two entries, every entry belongs to a processed event and to an account that
  exists, and the balance of every account is the sum of its entries.
\<close>

definition views_agree :: "DB \<Rightarrow> bool" where
  "views_agree db \<longleftrightarrow> distinct (map srEventID (statements db)) \<and>
     (\<forall>s \<in> set (statements db). srEventID s \<in> processed db \<and> balances db (srAccountID s) \<noteq> None) \<and>
     (\<forall>g row. balances db g = Some row \<longrightarrow> sint (brBalance row) = entries_sum db g)"

lemma views_agree_same: "same_views db db' \<Longrightarrow> views_agree db' = views_agree db"
  by (simp add: same_views_def views_agree_def entries_sum_def)

lemma entries_sum_zero: "(\<And>s. s \<in> set (statements db) \<Longrightarrow> srAccountID s \<noteq> g) \<Longrightarrow> entries_sum db g = 0"
  by (auto simp: entries_sum_def filter_empty_conv)

lemma opened_view_agrees:
  assumes "opened_view srv e db db'" and "views_agree db"
  shows "views_agree db'"
proof -
  obtain g and d :: AccountOpened where g: "processed db' = processed db" "statements db' = statements db"
    "balances db g \<noteq> None \<and> balances db' = balances db \<or>
      balances db g = None \<and> (\<exists>row. balances db' = (balances db)(g \<mapsto> row) \<and> brOwner row = aoOwner d \<and> brBalance row = 0 \<and> brOpen row)"
    using assms(1) unfolding opened_view_def by blast
  from g(3) show ?thesis
  proof
    assume "balances db g \<noteq> None \<and> balances db' = balances db"
    then show ?thesis using g assms(2) by (simp add: views_agree_def entries_sum_def)
  next
    assume "balances db g = None \<and> (\<exists>row. balances db' = (balances db)(g \<mapsto> row) \<and> brOwner row = aoOwner d \<and> brBalance row = 0 \<and> brOpen row)"
    then obtain row where row: "balances db g = None" "balances db' = (balances db)(g \<mapsto> row)" "brBalance row = 0" by blast
    have "entries_sum db g = 0" using assms(2) row(1) by (intro entries_sum_zero) (auto simp: views_agree_def)
    then show ?thesis using g(1,2) row assms(2) by (auto simp: views_agree_def entries_sum_def)
  qed
qed

lemma posted_agrees:
  assumes "posted srv e w db db'" and "uuid_in srv (eID e) = Some i" and "i \<in> processed db"
    and "views_agree db" and "i \<notin> srEventID ` set (statements db)"
  shows "views_agree db'"
proof -
  obtain db1 db2 where b: "bumped srv e w db db1" and n: "noted srv e w db1 db2" and s: "same_views db2 db'"
    using assms(1) unfolding posted_def by blast
  obtain g row where g: "uuid_in srv (eAggregateID e) = Some g" "balances db g = Some row"
     "sint (brBalance row + w) = sint (brBalance row) + sint w"
     "processed db1 = processed db" "statements db1 = statements db"
     "\<exists>row'. balances db1 = (balances db)(g \<mapsto> row') \<and> brBalance row' = brBalance row + w"
    using b sint64_add unfolding bumped_def by fastforce
  obtain row' where row': "balances db1 = (balances db)(g \<mapsto> row')" "brBalance row' = brBalance row + w" using g(6) by blast
  have "\<not> list_ex (\<lambda>r. srEventID r = i) (statements db1)" using assms(5) g(5) by (auto simp: list_ex_iff)
  then obtain en where en: "srEventID en = i" "srAccountID en = g" "srAmount en = w" "statements db2 = statements db @ [en]"
      "processed db2 = processed db" "balances db2 = (balances db)(g \<mapsto> row')"
    using n assms(2) g(1,4,5) row'(1) by (auto simp: noted_def)
  have "views_agree db2"
    unfolding views_agree_def
  proof (intro conjI ballI allI impI)
    show "distinct (map srEventID (statements db2))" using assms(4,5) en by (simp add: views_agree_def)
    show "srEventID s \<in> processed db2" if "s \<in> set (statements db2)" for s
      using that assms(3,4) en by (auto simp: views_agree_def)
    show "balances db2 (srAccountID s) \<noteq> None" if "s \<in> set (statements db2)" for s
      using that assms(4) en by (auto simp: views_agree_def)
    show "sint (brBalance rw) = entries_sum db2 h" if "balances db2 h = Some rw" for h rw
      using that assms(4) en g(2,3) row'(2) by (auto simp: views_agree_def entries_sum_def split: if_splits)
  qed
  then show ?thesis using views_agree_same [OF s] by simp
qed

lemma proj_Handle_agrees:
  assumes "views_agree db"
  shows "views_agree (proj_Handle srv e db)"
proof -
  obtain r db' where a: "proj_Apply srv e db = (r, db')" by (metis surj_pair)
  then show ?thesis
  proof (cases rule: proj_Apply_cases)
    case unchanged
    then show ?thesis using a assms views_agree_same by (simp add: proj_Handle_def)
  next
    case (applied i db2 db3)
    have v2: "views_agree db2" "i \<in> processed db2" "i \<notin> srEventID ` set (statements db2)"
      using applied(2,4-6) assms by (auto simp: views_agree_def entries_sum_def)
    have "views_agree db3"
      using applyEvent_ok [OF applied(3)] opened_view_agrees [OF _ v2(1)] posted_agrees [OF _ applied(1) v2(2,1,3)]
        views_agree_same v2(1) by blast
    then show ?thesis using a views_agree_same [OF applied(7)] by (simp add: proj_Handle_def)
  qed
qed

lemma empty_views_agree: "views_agree empty_DB"
  by (simp add: views_agree_def empty_DB_def)

text \<open>
  C29. The read models are consistent with each other: whatever events are delivered, in whatever
  order and how often, and whichever statements and commits fail on the way, every account's
  projected balance is exactly the sum of its statement entries (no overflow), no event has
  two entries, and every entry belongs to an event that is marked as processed.
\<close>

theorem statements_add_up: "views_agree (fold (proj_Handle srv) es empty_DB)"
  using empty_views_agree proj_Handle_agrees
  by (induction es arbitrary: rule: rev_induct) simp_all

end
