(* ===== verification/Sample_Server.thy ===== *)
theory Sample_Server
  imports Database
begin

text \<open>
  A server that meets \<^const>\<open>postgres_server\<close>, to evaluate the statements on: UUIDs in the form
  with hyphens are taken in either case and kept in lower case, a JSONB object orders its
  members by the length of the key, times are kept to the microsecond. The faults are an
  argument.
\<close>

definition hex_digits :: string where
  "hex_digits = ''0123456789abcdef''"

definition lower_hex :: "char \<Rightarrow> char" where
  "lower_hex c = (case map_of (zip ''ABCDEF'' ''abcdef'') c of Some d \<Rightarrow> d | None \<Rightarrow> c)"

definition sample_uuid_in :: "string \<Rightarrow> string option" where
  "sample_uuid_in s =
     (let u = map lower_hex s
      in if length u = 36 \<and> map ((!) u) [8, 13, 18, 23] = ''----'' \<and>
            list_all (\<lambda>c. c \<in> set hex_digits \<or> c = CHR ''-'') u
         then Some u else None)"

definition sample_jsonb_in :: "RawMessage \<Rightarrow> json result" where
  "sample_jsonb_in d = (case d of
       RawInvalid t \<Rightarrow> Inl (PqError ''22P02'' ''invalid input syntax for type json'')
     | RawJSON (JObj kvs) \<Rightarrow> Inr (JObj (sort_key (\<lambda>(k, v). length k) kvs))
     | RawJSON v \<Rightarrow> Inr v)"

definition sample_arrow_text :: "json \<Rightarrow> string \<Rightarrow> string option" where
  "sample_arrow_text v k = (case v of
       JObj kvs \<Rightarrow> (case map_of kvs k of
           Some (JStr s) \<Rightarrow> Some s
         | Some (JInt n) \<Rightarrow> Some (show_int n)
         | Some (JBool b) \<Rightarrow> Some (if b then ''true'' else ''false'')
         | _ \<Rightarrow> None)
     | _ \<Rightarrow> None)"

definition sample_server :: "(nat \<Rightarrow> fault) \<Rightarrow> server" where
  "sample_server flt = \<lparr>uuid_in = sample_uuid_in, jsonb_in = sample_jsonb_in, arrow_text = sample_arrow_text,
     timestamp_in = (\<lambda>t. t div 1000 * 1000), clock = (\<lambda>n. int n), faults = flt\<rparr>"

lemma lower_hex_digit: "c \<in> set hex_digits \<or> c = CHR ''-'' \<Longrightarrow> lower_hex c = c"
  by (auto simp: hex_digits_def lower_hex_def)

lemma sample_uuid_normal:
  assumes "sample_uuid_in s = Some u"
  shows "sample_uuid_in u = Some u \<and> u \<noteq> []"
proof -
  have u: "length u = 36" "map ((!) u) [8, 13, 18, 23] = ''----''" "list_all (\<lambda>c. c \<in> set hex_digits \<or> c = CHR ''-'') u"
    using assms by (auto simp: sample_uuid_in_def Let_def split: if_splits)
  then have "map lower_hex u = u" by (intro map_idI) (auto simp: list_all_iff lower_hex_digit)
  with u show ?thesis by (auto simp: sample_uuid_in_def Let_def)
qed

lemma digit_char_hex: "d < 16 \<Longrightarrow> digit_char d \<in> set hex_digits"
  unfolding digit_char_def hex_digits_def by (rule nth_mem) simp

lemma hex_bytes_digits: "c \<in> set (hex_bytes bs) \<Longrightarrow> c \<in> set hex_digits"
proof -
  have "unat b div 16 < 16" for b :: u8
    using unsigned_less [of b, where 'a = nat] by simp
  then show "c \<in> set (hex_bytes bs) \<Longrightarrow> c \<in> set hex_digits"
    by (auto simp: hex_bytes_def hex_byte_def digit_char_hex)
qed

lemma NewID_digits: "c \<in> set (NewID b) \<Longrightarrow> c \<in> set hex_digits \<or> c = CHR ''-''"
  by (auto simp: NewID_def Let_def dest: hex_bytes_digits)

lemma sample_uuid_printed:
  assumes "length rb = 16"
  shows "sample_uuid_in (NewID rb) = Some (NewID rb)"
proof -
  have "map lower_hex (NewID rb) = NewID rb"
    using NewID_digits by (intro map_idI) (auto simp: lower_hex_digit)
  moreover have "list_all (\<lambda>c. c \<in> set hex_digits \<or> c = CHR ''-'') (NewID rb)"
    using NewID_digits by (auto simp: list_all_iff)
  ultimately show ?thesis using NewID_shape [OF assms] by (simp add: sample_uuid_in_def Let_def)
qed

interpretation sample: postgres_server "sample_server flt"
proof (unfold_locales, goal_cases)
  case (1 s u)
  then show ?case using sample_uuid_normal by (simp add: sample_server_def)
next
  case (2 rb)
  then show ?case by (simp add: sample_server_def sample_uuid_printed)
next
  case (3 kvs v)
  then show ?case by (auto simp: sample_server_def sample_jsonb_in_def)
next
  case (4 kvs k s)
  then show ?case by (simp add: sample_server_def sample_arrow_text_def)
next
  case (5 k kvs)
  then have "map_of kvs k = None" by (simp add: map_of_eq_None_iff)
  then show ?case by (simp add: sample_server_def sample_arrow_text_def)
qed

end
