(* ===== verification/Concurrency.thy ===== *)
theory Concurrency
  imports Samples
begin

text \<open>
  Many goroutines run \<^verbatim>\<open>App.mutate\<close> at once against one store. A goroutine is a program counter;
  a step is one store operation of one goroutine, one publish, one wake-up from the back-off,
  or a whole \<^verbatim>\<open>App.OpenAccount\<close> (which uses the store once). Any interleaving of such steps is a
  run. The relation is built from the same \<^const>\<open>mutate_read\<close> and \<^const>\<open>mutate_write\<close> as the loop
  \<^const>\<open>mutate_from\<close>. Safety is proved once, for every store that meets the contract
  \<^const>\<open>event_store\<close>.
\<close>

section \<open>Steps\<close>

datatype pc =
    Ready nat \<comment> \<open>about to load, attempt number\<close>
  | Holding nat Account Event \<comment> \<open>loaded and decided, about to append\<close>
  | Written Event \<comment> \<open>appended, about to publish\<close>
  | Finished "error option"

type_synonym jobs = "nat \<Rightarrow> string \<times> command"

record 's sys =
  shared :: 's
  pcs :: "nat \<Rightarrow> pc"
  published :: "Event list"

inductive app_step :: "'s Store \<Rightarrow> nat \<Rightarrow> jobs \<Rightarrow> 's sys \<Rightarrow> 's sys \<Rightarrow> bool"
  for st :: "'s Store" and N :: nat and job :: jobs where
  read_fail: "i < N \<Longrightarrow> pcs x i = Ready k \<Longrightarrow>
     mutate_read st (\<lambda>d acc. decide d (snd (job i)) acc) d (shared x) (fst (job i)) = (Inl err, s') \<Longrightarrow>
     app_step st N job x (x\<lparr>shared := s', pcs := (pcs x)(i := Finished (Some err))\<rparr>)"
| read_ok: "i < N \<Longrightarrow> pcs x i = Ready k \<Longrightarrow>
     mutate_read st (\<lambda>d acc. decide d (snd (job i)) acc) d (shared x) (fst (job i)) = (Inr (acc, e), s') \<Longrightarrow>
     app_step st N job x (x\<lparr>shared := s', pcs := (pcs x)(i := Holding k acc e)\<rparr>)"
| write_ok: "i < N \<Longrightarrow> pcs x i = Holding k acc e \<Longrightarrow>
     mutate_write st (shared x) (fst (job i)) acc e = (None, s') \<Longrightarrow>
     app_step st N job x (x\<lparr>shared := s', pcs := (pcs x)(i := Written e)\<rparr>)"
| write_fail: "i < N \<Longrightarrow> pcs x i = Holding k acc e \<Longrightarrow>
     mutate_write st (shared x) (fst (job i)) acc e = (Some err, s') \<Longrightarrow> \<not> errors_Is err ErrConcurrency \<Longrightarrow>
     app_step st N job x (x\<lparr>shared := s', pcs := (pcs x)(i := Finished (Some err))\<rparr>)"
| write_cancel: "i < N \<Longrightarrow> pcs x i = Holding k acc e \<Longrightarrow>
     mutate_write st (shared x) (fst (job i)) acc e = (Some err, s') \<Longrightarrow> errors_Is err ErrConcurrency \<Longrightarrow>
     app_step st N job x (x\<lparr>shared := s', pcs := (pcs x)(i := Finished (Some ctxErr))\<rparr>)"
| write_retry: "i < N \<Longrightarrow> pcs x i = Holding k acc e \<Longrightarrow>
     mutate_write st (shared x) (fst (job i)) acc e = (Some err, s') \<Longrightarrow> errors_Is err ErrConcurrency \<Longrightarrow>
     app_step st N job x (x\<lparr>shared := s', pcs := (pcs x)(i :=
       if Suc k < maxRetries then Ready (Suc k) else Finished (Some ErrTooManyConflicts))\<rparr>)"
| publish: "i < N \<Longrightarrow> pcs x i = Written e \<Longrightarrow>
     app_step st N job x (x\<lparr>published := published x @ [e], pcs := (pcs x)(i := Finished None)\<rparr>)"
| open_account: "length (rnd (draws env 0)) = 16 \<Longrightarrow>
     app_OpenAccount \<lparr>appStore = st, appPublish = (\<lambda>b e. b @ [e])\<rparr> env owner amount
       (shared x, published x) = (r, s', b') \<Longrightarrow>
     app_step st N job x (x\<lparr>shared := s', published := b'\<rparr>)"

inductive app_run :: "'s Store \<Rightarrow> nat \<Rightarrow> jobs \<Rightarrow> 's \<Rightarrow> 's sys \<Rightarrow> bool"
  for st :: "'s Store" and N :: nat and job :: jobs and s0 :: 's where
  start: "app_run st N job s0 \<lparr>shared = s0, pcs = (\<lambda>_. Ready 0), published = []\<rparr>"
| step: "app_run st N job s0 x \<Longrightarrow> app_step st N job x y \<Longrightarrow> app_run st N job s0 y"

text \<open>Goroutine \<open>i\<close> has its event in the store.\<close>

definition landed :: "pc \<Rightarrow> bool" where
  "landed p = (case p of Written _ \<Rightarrow> True | Finished None \<Rightarrow> True | _ \<Rightarrow> False)"

section \<open>Executing a schedule\<close>

text \<open>
  A schedule names, step by step, the goroutine that moves (with the draw its decision would
  use) or the account that is opened; \<open>advance\<close> makes the move. Executing a schedule gives a run.
\<close>

datatype move = Go nat draw | OpenNew "nat \<Rightarrow> draw" string int64

fun advance :: "'s Store \<Rightarrow> nat \<Rightarrow> jobs \<Rightarrow> 's sys \<Rightarrow> move \<Rightarrow> 's sys" where
  "advance st N job x (Go i d) =
     (if i < N then
        (case pcs x i of
           Ready k \<Rightarrow>
             (case mutate_read st (\<lambda>d acc. decide d (snd (job i)) acc) d (shared x) (fst (job i)) of
                (Inl err, s') \<Rightarrow> x\<lparr>shared := s', pcs := (pcs x)(i := Finished (Some err))\<rparr>
              | (Inr (acc, e), s') \<Rightarrow> x\<lparr>shared := s', pcs := (pcs x)(i := Holding k acc e)\<rparr>)
         | Holding k acc e \<Rightarrow>
             (case mutate_write st (shared x) (fst (job i)) acc e of
                (None, s') \<Rightarrow> x\<lparr>shared := s', pcs := (pcs x)(i := Written e)\<rparr>
              | (Some err, s') \<Rightarrow>
                  if \<not> errors_Is err ErrConcurrency
                  then x\<lparr>shared := s', pcs := (pcs x)(i := Finished (Some err))\<rparr>
                  else x\<lparr>shared := s', pcs := (pcs x)(i :=
                         if Suc k < maxRetries then Ready (Suc k) else Finished (Some ErrTooManyConflicts))\<rparr>)
         | Written e \<Rightarrow> x\<lparr>published := published x @ [e], pcs := (pcs x)(i := Finished None)\<rparr>
         | Finished r \<Rightarrow> x)
      else x)"
| "advance st N job x (OpenNew dr owner amount) =
     (if length (rnd (dr 0)) = 16 then
        (case app_OpenAccount \<lparr>appStore = st, appPublish = (\<lambda>b e. b @ [e])\<rparr> (quiet dr) owner amount
                (shared x, published x) of
           (r, s', b') \<Rightarrow> x\<lparr>shared := s', published := b'\<rparr>)
      else x)"

definition execute :: "'s Store \<Rightarrow> nat \<Rightarrow> jobs \<Rightarrow> 's \<Rightarrow> move list \<Rightarrow> 's sys" where
  "execute st N job s0 ms = foldl (advance st N job) \<lparr>shared = s0, pcs = (\<lambda>_. Ready 0), published = []\<rparr> ms"

lemma write_retry_again:
  "i < N \<Longrightarrow> pcs x i = Holding k acc e \<Longrightarrow> mutate_write st (shared x) (fst (job i)) acc e = (Some err, s') \<Longrightarrow>
     errors_Is err ErrConcurrency \<Longrightarrow> Suc k < maxRetries \<Longrightarrow>
     app_step st N job x (x\<lparr>shared := s', pcs := (pcs x)(i := Ready (Suc k))\<rparr>)"
  using app_step.write_retry [of i N x k acc e st job err s'] by simp

lemma quiet_draws: "draws (quiet dr) = dr"
  by (simp add: quiet_def)

lemma advance_step: "advance st N job x m = x \<or> app_step st N job x (advance st N job x m)"
proof (cases m)
  case (Go i d)
  then show ?thesis
    by (auto simp: app_step.intros write_retry_again split: pc.split prod.split sum.split option.split)
next
  case (OpenNew dr owner amount)
  obtain r s' b' where run: "app_OpenAccount \<lparr>appStore = st, appPublish = (\<lambda>b e. b @ [e])\<rparr> (quiet dr) owner amount
      (shared x, published x) = (r, s', b')" by (metis prod_cases3)
  have "app_step st N job x (x\<lparr>shared := s', published := b'\<rparr>)" if "length (rnd (dr 0)) = 16"
    using that by (intro app_step.open_account [OF _ run]) (simp add: quiet_draws)
  with OpenNew run show ?thesis by auto
qed

lemma execute_run: "app_run st N job s0 (execute st N job s0 ms)"
proof (induction ms rule: rev_induct)
  case Nil
  show ?case by (simp add: execute_def app_run.start)
next
  case (snoc m ms)
  let ?x = "execute st N job s0 ms"
  have "execute st N job s0 (ms @ [m]) = advance st N job ?x m" by (simp add: execute_def)
  with advance_step [of st N job ?x m] snoc show ?case by (auto intro: app_run.step)
qed

section \<open>Streams only grow\<close>

definition bounded :: "(string \<Rightarrow> Event list) \<Rightarrow> bool" where
  "bounded str \<longleftrightarrow> (\<forall>g. length (str g) + 2 \<le> history_limit)"

definition grows :: "(string \<Rightarrow> Event list) \<Rightarrow> (string \<Rightarrow> Event list) \<Rightarrow> bool" where
  "grows str str' \<longleftrightarrow> (\<forall>g. \<exists>fs. str' g = str g @ fs)"

lemma grows_refl [simp]: "grows str str"
  by (simp add: grows_def)

lemma grows_trans: "grows a b \<Longrightarrow> grows b c \<Longrightarrow> grows a c"
  unfolding grows_def by (metis append.assoc)

lemma grows_upd [simp]: "grows str (str(g := str g @ fs))"
  by (simp add: grows_def)

lemma grows_bounded: "grows a b \<Longrightarrow> bounded b \<Longrightarrow> bounded a"
  unfolding grows_def bounded_def by (metis add_leD1 add_le_mono1 le_trans length_append le_add1)

lemma holds_decision_grows: "grows a b \<Longrightarrow> holds_decision a c acc e \<Longrightarrow> holds_decision b c acc e"
  unfolding grows_def by (metis holds_decision_extend)

section \<open>Safety for every store\<close>

text \<open>The invariant of a run: the ledger is intact and every goroutine that holds a decision made
  it on a prefix of the stream it will append to.\<close>

definition decisions_held :: "(string \<Rightarrow> Event list) \<Rightarrow> jobs \<Rightarrow> (nat \<Rightarrow> pc) \<Rightarrow> bool" where
  "decisions_held str job p \<longleftrightarrow>
     (\<forall>i k acc e. p i = Holding k acc e \<longrightarrow> holds_decision str (snd (job i)) acc e)"

lemma decisions_held_grows: "grows a b \<Longrightarrow> decisions_held a job p \<Longrightarrow> decisions_held b job p"
  unfolding decisions_held_def by (blast intro: holds_decision_grows)

lemma decisions_held_upd:
  "decisions_held str job p \<Longrightarrow> (\<And>k acc e. q = Holding k acc e \<Longrightarrow>
     holds_decision str (snd (job i)) acc e) \<Longrightarrow> decisions_held str job (p(i := q))"
  by (auto simp: decisions_held_def)

context event_store
begin

definition safe :: "jobs \<Rightarrow> 's sys \<Rightarrow> bool" where
  "safe job x \<longleftrightarrow> inv (shared x) \<and> ledger (stream (shared x)) \<and> decisions_held (stream (shared x)) job (pcs x)"

lemma write_step:
  assumes "safe job x" and "\<And>i. reversal_limited (snd (job i))" and "bounded (stream (shared x))"
    and "pcs x i = Holding k acc e" and "mutate_write st (shared x) (fst (job i)) acc e = (r, s')"
    and "\<And>k acc e. q \<noteq> Holding k acc e"
  shows "safe job (x\<lparr>shared := s', pcs := (pcs x)(i := q)\<rparr>)"
proof -
  have held: "holds_decision (stream (shared x)) (snd (job i)) acc e"
    using assms(1,4) by (auto simp: safe_def decisions_held_def)
  have len: "length (stream (shared x) (fst (job i))) < history_limit"
    using assms(3) [unfolded bounded_def, rule_format, of "fst (job i)"] by linarith
  have s: "inv (shared x)" "ledger (stream (shared x))" using assms(1) by (auto simp: safe_def)
  note w = mutate_write_ledger [OF s held assms(2) len assms(5)]
  then have g: "grows (stream (shared x)) (stream s')" by auto
  show "safe job (x\<lparr>shared := s', pcs := (pcs x)(i := q)\<rparr>)"
    using w assms(1,6) decisions_held_grows [OF g]
    by (simp add: safe_def decisions_held_def) metis
qed

lemma app_OpenAccount_grows:
  "app_OpenAccount \<lparr>appStore = st, appPublish = p\<rparr> env owner amount (s, b) = (r, s', b') \<Longrightarrow>
     grows (stream s) (stream s')"
  using append_only
  by (auto simp: app_OpenAccount_def Let_def grows_def split: if_splits sum.splits prod.splits option.splits)

lemma app_step_grows: "app_step st N job x y \<Longrightarrow> grows (stream (shared x)) (stream (shared y))"
  by (induction rule: app_step.induct)
    (auto dest: mutate_read_frame app_OpenAccount_grows append_only simp: mutate_write_def grows_def)

lemma app_step_safe:
  assumes "app_step st N job x y" and "safe job x" and "\<And>i. reversal_limited (snd (job i))"
    and "bounded (stream (shared x))"
  shows "safe job y"
  using assms(1)
proof (cases rule: app_step.cases)
  case (read_fail i k d err s')
  then show ?thesis using assms(2) mutate_read_frame [OF read_fail(4)] mutate_read_inv [OF _ read_fail(4)]
    by (auto simp: safe_def intro: decisions_held_upd)
next
  case (read_ok i k d acc e s')
  from assms(2) have s: "inv (shared x)" "ledger (stream (shared x))" by (auto simp: safe_def)
  from mutate_read_holds [OF s read_ok(4)] show ?thesis
    using assms(2) unfolding read_ok(1) by (auto simp: safe_def intro!: decisions_held_upd)
next
  case (write_ok i k acc e s')
  then show ?thesis using write_step [OF assms(2-4) write_ok(3,4)] by auto
next
  case (write_fail i k acc e err s')
  then show ?thesis using write_step [OF assms(2-4) write_fail(3,4)] by auto
next
  case (write_cancel i k acc e err s' ctxErr)
  then show ?thesis using write_step [OF assms(2-4) write_cancel(3,4)] by auto
next
  case (write_retry i k acc e err s')
  then show ?thesis using write_step [OF assms(2-4) write_retry(3,4)] by auto
next
  case (publish i e)
  then show ?thesis using assms(2) by (auto simp: safe_def intro: decisions_held_upd)
next
  case (open_account env owner amount r s' b')
  have s: "inv (shared x)" "ledger (stream (shared x))" "decisions_held (stream (shared x)) job (pcs x)"
    using assms(2) by (auto simp: safe_def)
  have len: "length (stream (shared x) (NewID (rnd (draws env 0)))) + 2 \<le> history_limit"
    using assms(4) by (auto simp: bounded_def)
  from open_account_ledger(1) [OF s(1,2) len open_account(2) _ open_account(3)]
  have "inv s' \<and> ledger (stream s') \<and> grows (stream (shared x)) (stream s')"
    by (auto simp: grows_def)
  then show ?thesis using s(3) unfolding open_account(1) by (auto simp: safe_def intro: decisions_held_grows)
qed

lemma app_run_safe:
  assumes "app_run st N job s0 x" and "inv s0" and "ledger (stream s0)" and "\<And>i. reversal_limited (snd (job i))"
    and "bounded (stream (shared x))"
  shows "safe job x \<and> grows (stream s0) (stream (shared x))"
  using assms(1,5)
proof (induction rule: app_run.induct)
  case start
  then show ?case using assms(2,3) by (simp add: safe_def decisions_held_def)
next
  case (step x y)
  note g = app_step_grows [OF step.hyps(2)]
  with step.prems have b: "bounded (stream (shared x))" by (blast intro: grows_bounded)
  with step.IH app_step_safe [OF step.hyps(2) _ assms(4)] g show ?case
    by (blast intro: grows_trans)
qed

end

section \<open>Every command that landed counts once\<close>

text \<open>The goroutines whose command on account \<open>g\<close> has landed, and what they add up to.\<close>

definition landed_on :: "nat \<Rightarrow> jobs \<Rightarrow> (nat \<Rightarrow> pc) \<Rightarrow> string \<Rightarrow> nat set" where
  "landed_on N job p g = {i \<in> {..<N}. landed (p i) \<and> fst (job i) = g}"

definition tally :: "nat \<Rightarrow> jobs \<Rightarrow> (nat \<Rightarrow> pc) \<Rightarrow> string \<Rightarrow> int" where
  "tally N job p g = (\<Sum>i \<in> landed_on N job p g. cmd_delta (snd (job i)))"

definition accounted :: "nat \<Rightarrow> jobs \<Rightarrow> (nat \<Rightarrow> pc) \<Rightarrow> Event list \<Rightarrow> Event list \<Rightarrow> string \<Rightarrow> bool" where
  "accounted N job p es0 es g \<longleftrightarrow>
     net es = net es0 + tally N job p g \<and> length es = length es0 + card (landed_on N job p g)"

lemma finite_landed_on [simp]: "finite (landed_on N job p g)"
  by (simp add: landed_on_def)

lemma landed_on_same: "landed q = landed (p i) \<Longrightarrow> landed_on N job (p(i := q)) g = landed_on N job p g"
  by (auto simp: landed_on_def)

lemma landed_on_new:
  "landed q \<Longrightarrow> i < N \<Longrightarrow>
     landed_on N job (p(i := q)) g = (if fst (job i) = g then insert i (landed_on N job p g) else landed_on N job p g)"
  by (auto simp: landed_on_def)

lemma accounted_same:
  "accounted N job p es0 es g \<Longrightarrow> landed q = landed (p i) \<Longrightarrow> accounted N job (p(i := q)) es0 es g"
  by (simp add: accounted_def tally_def landed_on_same)

lemma accounted_new:
  assumes "accounted N job p es0 es g" and "i < N" and "\<not> landed (p i)" and "landed q"
    and "signed_amount e = cmd_delta (snd (job i))"
  shows "accounted N job (p(i := q)) es0 (if fst (job i) = g then es @ [e] else es) g"
proof -
  have "i \<notin> landed_on N job p g" using assms(3) by (simp add: landed_on_def)
  then show ?thesis using assms by (simp add: accounted_def tally_def landed_on_new)
qed

lemma landed_simps [simp]:
  "\<not> landed (Ready k)" "\<not> landed (Holding k acc e)" "landed (Written e)"
  "landed (Finished r) = (r = None)"
  by (auto simp: landed_def split: option.split)

context reliable_store
begin

lemma app_step_accounted:
  assumes "app_step st N job x y" and "safe job x" and "bounded (stream (shared x))"
    and "stream (shared x) g \<noteq> []" and "accounted N job (pcs x) es0 (stream (shared x) g) g"
  shows "accounted N job (pcs y) es0 (stream (shared y) g) g"
proof -
  have s: "inv (shared x)" "ledger (stream (shared x))" using assms(2) by (auto simp: safe_def)
  have held: "holds_decision (stream (shared x)) (snd (job i)) acc e"
    if "pcs x i = Holding k acc e" for i k acc e
    using assms(2) that by (auto simp: safe_def decisions_held_def)
  have len: "length (stream (shared x) h) + 2 \<le> history_limit" for h
    using assms(3) by (simp add: bounded_def)
  have len1: "length (stream (shared x) h) < history_limit" for h
    using len [of h] by linarith
  note wr = mutate_write_reliable [OF s(1) held len1]
  show ?thesis
    using assms(1)
  proof (cases rule: app_step.cases)
    case (read_fail i k d err s')
    then show ?thesis using assms(5) mutate_read_frame [OF read_fail(4)] by (auto intro: accounted_same)
  next
    case (read_ok i k d acc e s')
    then show ?thesis using assms(5) mutate_read_frame [OF read_ok(4)] by (auto intro: accounted_same)
  next
    case (write_ok i k acc e s')
    from wr [OF write_ok(3,4)] obtain f where f: "stored_as e f"
      "stream s' = (stream (shared x))(fst (job i) := stream (shared x) (fst (job i)) @ [f])" by auto
    have "signed_amount f = cmd_delta (snd (job i))"
      using held [OF write_ok(3)] signed_amount_stored [OF f(1)]
      by (auto simp: holds_decision_def dest: decide_signed_amount)
    from accounted_new [OF assms(5) write_ok(2) _ _ this, of "Written e"]
    show ?thesis using write_ok(1,3) f(2) by auto
  next
    case (write_fail i k acc e err s')
    then show ?thesis using assms(5) wr [OF write_fail(3,4)] by (auto intro: accounted_same)
  next
    case (write_cancel i k acc e err s' ctxErr)
    then show ?thesis using assms(5) wr [OF write_cancel(3,4)] by (auto intro: accounted_same)
  next
    case (write_retry i k acc e err s')
    then show ?thesis using assms(5) wr [OF write_retry(3,4)] by (auto intro!: accounted_same)
  next
    case (publish i e)
    then show ?thesis using assms(5) by (auto intro: accounted_same)
  next
    case (open_account env owner amount r s' b')
    from open_account_ledger(2) [OF s len open_account(2) _ open_account(3) assms(4)]
    show ?thesis using open_account(1) assms(5) by simp
  qed
qed

lemma app_run_accounted:
  assumes "app_run st N job s0 x" and "inv s0" and "ledger (stream s0)" and "\<And>i. reversal_limited (snd (job i))"
    and "bounded (stream (shared x))" and "stream s0 g \<noteq> []"
  shows "accounted N job (pcs x) (stream s0 g) (stream (shared x) g) g"
  using assms(1,5)
proof (induction rule: app_run.induct)
  case start
  then show ?case by (simp add: accounted_def tally_def landed_on_def)
next
  case (step x y)
  from app_step_grows [OF step.hyps(2)] step.prems have b: "bounded (stream (shared x))"
    by (blast intro: grows_bounded)
  note sf = app_run_safe [OF step.hyps(1) assms(2-4) b]
  from sf assms(6) have "stream (shared x) g \<noteq> []" by (metis append_is_Nil_conv grows_def)
  with app_step_accounted [OF step.hyps(2) conjunct1 [OF sf] b] step.IH [OF b] show ?case by blast
qed

end

section \<open>Properties of the in-memory store under concurrency\<close>

lemma app_step_short: "app_step memory_store N job x y \<Longrightarrow> mem_short (shared x) \<Longrightarrow> mem_short (shared y)"
  by (induction rule: app_step.induct)
    (auto simp: mutate_write_def mutate_read_def app_OpenAccount_def memory_store_def mem_Load_def Let_def
      dest: mem_Append_short split: prod.splits sum.splits if_splits option.splits)

lemma app_run_short: "app_run memory_store N job s0 x \<Longrightarrow> mem_short s0 \<Longrightarrow> mem_short (shared x)"
  by (induction rule: app_run.induct) (auto intro: app_step_short)

text \<open>A log of fewer events than \<^const>\<open>history_limit\<close> bounds every stream.\<close>

lemma app_run_bounded:
  assumes "app_run memory_store N job s0 x" and "mem_inv s0" and "length (mlog (shared x)) + 2 \<le> history_limit"
  shows "bounded (mem_stream (shared x))"
  unfolding bounded_def
proof
  fix g
  have "length (mem_stream (shared x) g) \<le> length (mlog (shared x))"
    using app_run_short [OF assms(1) mem_inv_short [OF assms(2)]] by (simp add: mem_short_def)
  then show "length (mem_stream (shared x) g) + 2 \<le> history_limit" using assms(3) by linarith
qed

text \<open>Two withdrawals of 80 race on an account with 100; both load before either appends.\<close>

definition race_job :: jobs where
  "race_job i = (ana, CWithdraw 80 [])"

definition race :: "move list" where
  "race = [Go 0 (sample_draw 20), Go 1 (sample_draw 21),
           Go 0 (sample_draw 0), Go 1 (sample_draw 0), Go 0 (sample_draw 0), Go 1 (sample_draw 23)]"

definition race_end :: "Memory sys" where
  "race_end = execute memory_store 2 race_job two_accounts race"

lemma race_end_values:
  "length (mlog (shared race_end)) = 5" "pcs race_end 0 = Finished None"
  "pcs race_end 1 = Finished (Some ErrInsufficientFunds)"
  by code_simp+

lemma race_run: "app_run memory_store 2 race_job two_accounts race_end"
  by (simp add: race_end_def execute_run)

lemma race_limited: "reversal_limited (snd (race_job i))"
  by (simp add: race_job_def reversal_limited_def)

lemma NewMemory_streams [simp]: "mem_stream NewMemory = (\<lambda>_. [])"
  by (simp add: fun_eq_iff mem_stream_def NewMemory_def)

lemma ledger_empty [simp]: "ledger (\<lambda>_. [])"
  by (simp add: ledger_def)

text \<open>
  C1. No overdraft and no lost update under concurrency, on the in-memory store: however the
  loads, appends, retries and publishes of any number of goroutines interleave, starting from
  a store whose streams are account histories, every account loads as open, with the
  balance its stream adds up to, that balance is not negative, and the version is the number
  of events.
\<close>

theorem concurrent_balances:
  assumes "app_run memory_store N job s0 x" and "mem_inv s0" and "ledger (mem_stream s0)"
    and "\<And>i. reversal_limited (snd (job i))" and "length (mlog (shared x)) + 2 \<le> history_limit"
    and "mem_stream (shared x) g \<noteq> []"
  shows "\<exists>a. mem_Load (shared x) g = (Inr a, shared x) \<and> aID a = g \<and> Open a \<and>
    sint (Balance a) = net (mem_stream (shared x) g) \<and> 0 \<le> sint (Balance a) \<and>
    Version a = of_nat (length (mem_stream (shared x) g))"
proof -
  note bd = app_run_bounded [OF assms(1,2,5)]
  from memory.app_run_safe [OF assms(1-4) bd] have "ledger (mem_stream (shared x))"
    by (simp add: memory.safe_def)
  from ledgerD [OF this assms(6)] obtain a where a: "history (mem_stream (shared x) g) a" "aID a = g" by blast
  have "length (mem_stream (shared x) g) + 2 \<le> history_limit" using bd by (simp add: bounded_def)
  then show ?thesis
    using history_balance [OF a(1)] history_open [OF a(1)] history_Version [OF a(1)] history_Replay [OF a(1)] a(2)
    by (simp add: mem_Load_def Let_def assms(6))
qed

theorem concurrent_balances_witness:
  "\<exists>a. mem_Load (shared race_end) ana = (Inr a, shared race_end) \<and> 0 \<le> sint (Balance a) \<and> Version a = 3"
proof -
  have len: "length (mem_stream (shared race_end) ana) = 3" by code_simp
  then have "mem_stream (shared race_end) ana \<noteq> []" by auto
  then show ?thesis
    using len concurrent_balances [OF race_run two_accounts_ok race_limited, of ana] race_end_values(1)
    by (auto simp: history_limit_def)
qed

text \<open>
  C2. Every command that landed counts exactly once: after any interleaving, the balance of an
  account that existed at the start is its old balance plus the signed amounts of the
  commands on it whose append succeeded, and its version has grown by their number. A
  command that failed, was cancelled or ran out of attempts has no effect.
\<close>

theorem concurrent_exactly_once:
  assumes "app_run memory_store N job s0 x" and "mem_inv s0" and "ledger (mem_stream s0)"
    and "\<And>i. reversal_limited (snd (job i))" and "length (mlog (shared x)) + 2 \<le> history_limit"
    and "mem_stream s0 g \<noteq> []"
  shows "\<exists>a b. mem_Load s0 g = (Inr a, s0) \<and> mem_Load (shared x) g = (Inr b, shared x) \<and>
    sint (Balance b) = sint (Balance a) + (\<Sum>i \<in> landed_on N job (pcs x) g. cmd_delta (snd (job i))) \<and>
    Version b = Version a + of_nat (card (landed_on N job (pcs x) g))"
proof -
  note bd = app_run_bounded [OF assms(1,2,5)]
  note sf = memory.app_run_safe [OF assms(1-4) bd]
  note acc = memory.app_run_accounted [OF assms(1-4) bd assms(6)]
  from acc assms(6) have ne: "mem_stream (shared x) g \<noteq> []" by (auto simp: accounted_def)
  have lim: "length (mem_stream (shared x) g) \<le> history_limit"
    using bd by (metis add_leD1 bounded_def)
  then have lim0: "length (mem_stream s0 g) \<le> history_limit" using acc by (simp add: accounted_def)
  from sf have "ledger (mem_stream (shared x))" by (simp add: memory.safe_def)
  from ledgerD [OF this ne] obtain b where b: "history (mem_stream (shared x) g) b" by blast
  from ledgerD [OF assms(3,6)] obtain a where a: "history (mem_stream s0 g) a" by blast
  show ?thesis
    using history_balance [OF a lim0] history_balance [OF b lim] history_Version [OF a] history_Version [OF b]
      history_Replay [OF a] history_Replay [OF b] acc ne assms(6)
    by (simp add: mem_Load_def Let_def accounted_def tally_def)
qed

theorem concurrent_exactly_once_witness:
  "\<exists>a b. mem_Load two_accounts ana = (Inr a, two_accounts) \<and> mem_Load (shared race_end) ana = (Inr b, shared race_end) \<and>
    sint (Balance b) = sint (Balance a) - 80"
proof -
  have "landed_on 2 race_job (pcs race_end) ana = {0}"
    using race_end_values(2,3) by (auto simp: landed_on_def race_job_def less_2_cases_iff)
  moreover have "cmd_delta (snd (race_job 0)) = - 80" by (simp add: race_job_def cmd_delta_def)
  ultimately show ?thesis
    using concurrent_exactly_once [OF race_run two_accounts_ok race_limited, of ana] race_end_values(1)
    by (auto simp: history_limit_def two_accounts_stream)
qed

section \<open>Order of publication\<close>

definition two_deposits :: jobs where
  "two_deposits i = (ana, CDeposit (if i = 0 then 10 else 20) [])"

definition late_publish :: "move list" where
  "late_publish = [Go 0 (sample_draw 20), Go 0 (sample_draw 0), Go 1 (sample_draw 21), Go 1 (sample_draw 0),
                   Go 1 (sample_draw 0), Go 0 (sample_draw 0)]"

definition late_end :: "Memory sys" where
  "late_end = execute memory_store 2 two_deposits two_accounts late_publish"

text \<open>
  C22. The order of publication is not the order of the versions: the append and the publish of a
  command are separate steps, so of two deposits on one account the later one can be
  published first. Both succeed; the stream has the versions 3 and 4, the bus gets 4 before 3.
\<close>

theorem publication_order_inverted:
  "app_run memory_store 2 two_deposits two_accounts late_end \<and>
   map (pcs late_end) [0, 1] = [Finished None, Finished None] \<and>
   map eVersion (drop 2 (mem_stream (shared late_end) ana)) = [3, 4] \<and>
   map eVersion (published late_end) = [4, 3]"
proof (intro conjI)
  show "app_run memory_store 2 two_deposits two_accounts late_end"
    unfolding late_end_def by (rule execute_run)
  show "map (pcs late_end) [0, 1] = [Finished None, Finished None]" by code_simp
  show "map eVersion (drop 2 (mem_stream (shared late_end) ana)) = [3, 4]" by code_simp
  show "map eVersion (published late_end) = [4, 3]" by code_simp
qed

end
