(* ===== verification/Saga.thy ===== *)
theory Saga
  imports App_Memory
begin

text \<open>
  \<^verbatim>\<open>internal/saga/transfer.go\<close>: the orchestration of a transfer. \<^verbatim>\<open>TransferSaga\<close> works through the
  interface \<^verbatim>\<open>Commands\<close>, here a record of two functions over the state \<open>'w\<close> of whatever
  implements it; \<open>app_commands\<close> is the implementation by \<^verbatim>\<open>App\<close>. The commands take the number
  of the attempt, which selects the environment of that call. The channel is the list of
  the events sent and not yet received; a send on a full channel waits for a worker, so the
  order of the list is the order of the sends.
\<close>

section \<open>Interface and state\<close>

definition creditRetries :: nat where
  "creditRetries = 3"

record 'w Commands =
  cmdCreditTransfer :: "nat \<Rightarrow> string \<Rightarrow> string \<Rightarrow> string \<Rightarrow> int64 \<Rightarrow> 'w \<Rightarrow> error option \<times> 'w"
  cmdReverseTransfer :: "string \<Rightarrow> string \<Rightarrow> int64 \<Rightarrow> string \<Rightarrow> 'w \<Rightarrow> error option \<times> 'w"

text \<open>\<open>envs i\<close> is the environment of credit attempt \<open>i\<close>, \<open>renv\<close> that of the reversal.\<close>

definition app_commands :: "('s, 'b) App \<Rightarrow> (nat \<Rightarrow> 's env) \<Rightarrow> 's env \<Rightarrow> ('s \<times> 'b) Commands" where
  "app_commands app envs renv =
     \<lparr>cmdCreditTransfer = (\<lambda>attempt to tid from amount w. app_CreditTransfer app (envs attempt) to tid from amount w),
      cmdReverseTransfer = (\<lambda>from tid amount reason w. app_ReverseTransfer app renv from tid amount reason w)\<rparr>"

section \<open>process\<close>

definition isBusinessError :: "error \<Rightarrow> bool" where
  "isBusinessError err =
     (errors_Is err ErrAccountNotFound \<or> errors_Is err ErrAccountClosed \<or>
      errors_Is err ErrInvalidAmount \<or> errors_Is err ErrAmountTooLarge)"

text \<open>How the loop over the credit attempts ends, and how \<^verbatim>\<open>process\<close> ends (what it logs).\<close>

datatype credit_end = Credited | Stopped | GaveUp error

datatype saga_end =
    BadPayload error
  | TransferCompleted
  | Interrupted
  | Compensated error
  | CompensationFailed error error

text \<open>\<open>done i\<close> says that the context ended during the back-off of attempt \<open>i\<close>.\<close>

fun credit_loop ::
    "'w Commands \<Rightarrow> (nat \<Rightarrow> bool) \<Rightarrow> TransferDebited \<Rightarrow> string \<Rightarrow> nat \<Rightarrow> nat \<Rightarrow> error \<Rightarrow> 'w \<Rightarrow> credit_end \<times> 'w" where
  "credit_loop cmd ctxDone p from 0 attempt lastErr w = (GaveUp lastErr, w)"
| "credit_loop cmd ctxDone p from (Suc left) attempt lastErr w =
     (case cmdCreditTransfer cmd attempt (tdTo p) (tdTransferID p) from (tdAmount p) w of
        (None, w') \<Rightarrow> (Credited, w')
      | (Some err, w') \<Rightarrow>
          if isBusinessError err then (GaveUp err, w')
          else if ctxDone attempt then (Stopped, w')
          else credit_loop cmd ctxDone p from left (Suc attempt) err w')"

text \<open>The value of \<^verbatim>\<open>lastErr\<close> before the first attempt is \<^verbatim>\<open>nil\<close> and never read, as
  \<^const>\<open>creditRetries\<close> is positive; any error stands for it.\<close>

definition process :: "'w Commands \<Rightarrow> (nat \<Rightarrow> bool) \<Rightarrow> Event \<Rightarrow> 'w \<Rightarrow> saga_end \<times> 'w" where
  "process cmd ctxDone e w =
     (case unmarshal_TransferDebited (eData e) of
        Inl err \<Rightarrow> (BadPayload err, w)
      | Inr p \<Rightarrow>
          (let from = eAggregateID e
           in case credit_loop cmd ctxDone p from creditRetries 0 (Errorf []) w of
                (Credited, w') \<Rightarrow> (TransferCompleted, w')
              | (Stopped, w') \<Rightarrow> (Interrupted, w')
              | (GaveUp lastErr, w') \<Rightarrow>
                  (case cmdReverseTransfer cmd from (tdTransferID p) (tdAmount p) (error_text lastErr) w' of
                     (None, w'') \<Rightarrow> (Compensated lastErr, w'')
                   | (Some err, w'') \<Rightarrow> (CompensationFailed lastErr err, w''))))"

section \<open>Handle, CatchUp and the workers\<close>

text \<open>\<open>dropped\<close> says that the \<^verbatim>\<open>select\<close> took the branch of the ended context.\<close>

definition saga_Handle :: "bool \<Rightarrow> Event \<Rightarrow> Event list \<Rightarrow> Event list" where
  "saga_Handle dropped e queue =
     (if eType e \<noteq> EventTransferDebited then queue
      else if dropped then queue
      else queue @ [e])"

text \<open>
  \<^verbatim>\<open>CatchUp\<close> sends every pending debit, in order; here the queue is what has been sent and not yet
  received. The channel holds 1024 events and its workers run meanwhile: when a send must wait, and how
  sends and receives interleave, is in the bounded channel of \<open>pool_send\<close> (Saga_Pool) and \<open>main_step\<close> (Service).
\<close>

definition saga_CatchUp :: "'s Store \<Rightarrow> 's \<Rightarrow> Event list \<Rightarrow> error option \<times> 's \<times> Event list" where
  "saga_CatchUp st s queue =
     (case PendingTransferDebits st s of
        (Inl err, s') \<Rightarrow> (Some err, s', queue)
      | (Inr pending, s') \<Rightarrow> (None, s', queue @ pending))"

text \<open>A worker ranges over the channel until it is closed and empty; \<open>cmds i\<close> serves its
  \<open>i\<close>-th event.\<close>

fun saga_worker :: "(nat \<Rightarrow> 'w Commands) \<Rightarrow> (nat \<Rightarrow> nat \<Rightarrow> bool) \<Rightarrow> nat \<Rightarrow> Event list \<Rightarrow> 'w \<Rightarrow> saga_end list \<times> 'w" where
  "saga_worker cmds ctxDone i [] w = ([], w)"
| "saga_worker cmds ctxDone i (e # es) w =
     (case process (cmds i) (ctxDone i) e w of
        (r, w') \<Rightarrow> (case saga_worker cmds ctxDone (Suc i) es w' of (rs, w'') \<Rightarrow> (r # rs, w'')))"

section \<open>One delivery settles the transfer\<close>

lemma process_first_attempt:
  assumes "unmarshal_TransferDebited (eData e) = Inr p"
  shows "process cmd ctxDone e w =
    (case cmdCreditTransfer cmd 0 (tdTo p) (tdTransferID p) (eAggregateID e) (tdAmount p) w of
       (None, w') \<Rightarrow> (TransferCompleted, w')
     | (Some err, w') \<Rightarrow>
         if isBusinessError err then
           (case cmdReverseTransfer cmd (eAggregateID e) (tdTransferID p) (tdAmount p) (error_text err) w' of
              (None, w'') \<Rightarrow> (Compensated err, w'')
            | (Some err', w'') \<Rightarrow> (CompensationFailed err err', w''))
         else if ctxDone 0 then (Interrupted, w')
         else (case credit_loop cmd ctxDone p (eAggregateID e) 2 1 err w' of
                (Credited, w') \<Rightarrow> (TransferCompleted, w')
              | (Stopped, w') \<Rightarrow> (Interrupted, w')
              | (GaveUp lastErr, w') \<Rightarrow>
                  (case cmdReverseTransfer cmd (eAggregateID e) (tdTransferID p) (tdAmount p) (error_text lastErr) w' of
                     (None, w'') \<Rightarrow> (Compensated lastErr, w'')
                   | (Some err, w'') \<Rightarrow> (CompensationFailed lastErr err, w''))))"
  using assms
  by (simp add: process_def creditRetries_def eval_nat_numeral split: prod.splits option.splits)

text \<open>The event a delivery of \<open>p\<close> adds: a credit of the destination or a reversal at the origin.\<close>

definition settlement :: "(Event \<Rightarrow> string) \<Rightarrow> EventType \<Rightarrow> draw \<Rightarrow> string \<Rightarrow> TransferDebited \<Rightarrow> Event \<Rightarrow> bool" where
  "settlement transfer_of ty d g p f \<longleftrightarrow> eType f = ty \<and> eID f = NewID (rnd d) \<and> transfer_of f = tdTransferID p \<and>
     eAggregateID f = g \<and> signed_amount f = sint (tdAmount p)"

lemma credit_allowed:
  assumes "history es acc" and "0 < sint n" and "sint n \<le> 100000000"
  shows "\<exists>f. decide d (CCredit tid from n) acc = Inr f"
  using history_open [OF assms(1)] assms(2,3) by (auto simp: decide_simps NewEvent_def)

lemma reverse_allowed:
  assumes "history es acc" and "0 < sint n"
  shows "\<exists>f. decide d (CReverse tid n reason) acc = Inr f"
  using history_open [OF assms(1)] assms(2) by (auto simp: decide_simps NewEvent_def)

context reliable_store
begin

lemma decided_settlement:
  assumes "decide d c acc = Inr f"
    and "c = CCredit (tdTransferID p) from (tdAmount p) \<or> c = CReverse (tdTransferID p) (tdAmount p) reason"
    and "stored_as f f'" and "eID f' = eID f"
  shows "settlement transfer_of (cmd_type c) d (aID acc) p f'"
proof -
  have "cmd_transfer c = tdTransferID p" "cmd_delta c = sint (tdAmount p)"
    using assms(2) by (auto simp: cmd_delta_def)
  then show ?thesis
    using decide_event [OF assms(1)] transfer_of_decided [OF assms(1,3)] decide_signed_amount [OF assms(1)]
      signed_amount_stored [OF assms(3)] assms(3,4) by (simp add: settlement_def stored_as_def)
qed

lemmas credit_settlement = decided_settlement [OF _ disjI1 [OF refl], unfolded cmd_type.simps]
lemmas reverse_settlement = decided_settlement [OF _ disjI2 [OF refl], unfolded cmd_type.simps]

lemma credit_lands:
  assumes s: "inv s" "ledger (stream s)" and n: "0 < sint (tdAmount p)" "sint (tdAmount p) \<le> 100000000"
    and new: "tdTransferID p \<noteq> []" "\<not> seen (stream s) EventTransferCredited (tdTransferID p)"
    and len: "length (stream s (tdTo p)) < history_limit" and env: "appStore app = st" "fresh_draw (stream s) (dr 0)"
    and cr: "app_CreditTransfer app (quiet dr) (tdTo p) (tdTransferID p) src (tdAmount p) (s, b) = (r, s1, b1)"
  shows "inv s1" and "ledger (stream s1)"
    and "stream s (tdTo p) \<noteq> [] \<Longrightarrow> r = None \<and> (\<exists>f. settlement transfer_of EventTransferCredited (dr 0) (tdTo p) p f \<and>
        stream s1 = (stream s)(tdTo p := stream s (tdTo p) @ [f]))"
    and "stream s (tdTo p) = [] \<Longrightarrow> r = Some ErrAccountNotFound \<and> stream s1 = stream s \<and> b1 = b"
proof -
  note cq = checked_quiet [OF s len(1) new(1) env(2,1) cr [unfolded app_CreditTransfer_checked]]
  note mr = cq(4) [OF new(2)]
  show "inv s1" "ledger (stream s1)" using cq(1,2) by (simp_all add: reversal_limited_def)
  show "r = None \<and> (\<exists>f. settlement transfer_of EventTransferCredited (dr 0) (tdTo p) p f \<and>
        stream s1 = (stream s)(tdTo p := stream s (tdTo p) @ [f]))" if "stream s (tdTo p) \<noteq> []"
  proof -
    from mr that obtain acc where acc: "history (stream s (tdTo p)) acc" "aID acc = tdTo p"
      and c: "case decide (dr 0) (CCredit (tdTransferID p) src (tdAmount p)) acc of
           Inl err \<Rightarrow> r = Some err \<and> stream s1 = stream s \<and> b1 = b
         | Inr e \<Rightarrow> r = None \<and> (\<exists>f. stored_as e f \<and> eID f = eID e \<and> stream s1 = (stream s)(tdTo p := stream s (tdTo p) @ [f])) \<and>
             b1 = appPublish app b e"
      by (auto simp: mutate_result_def)
    from credit_allowed [OF acc(1) n] obtain f where
      f: "decide (dr 0) (CCredit (tdTransferID p) src (tdAmount p)) acc = Inr f" by blast
    then show ?thesis using c credit_settlement [OF f] acc(2) by auto
  qed
  show "r = Some ErrAccountNotFound \<and> stream s1 = stream s \<and> b1 = b" if "stream s (tdTo p) = []"
    using mr that history_nonempty by (fastforce simp: mutate_result_def)
qed

lemma reversal_lands:
  assumes s: "inv s" "ledger (stream s)" and n: "0 < sint (tdAmount p)" "sint (tdAmount p) \<le> 100000000"
    and new: "tdTransferID p \<noteq> []" "\<not> seen (stream s) EventTransferReversed (tdTransferID p)"
    and len: "length (stream s src) < history_limit" "stream s src \<noteq> []" and env: "appStore app = st" "fresh_draw (stream s) (rdr 0)"
    and rv: "app_ReverseTransfer app (quiet rdr) src (tdTransferID p) (tdAmount p) reason (s, b) = (r, s2, b2)"
  shows "inv s2 \<and> ledger (stream s2) \<and> r = None \<and> (\<exists>f. settlement transfer_of EventTransferReversed (rdr 0) src p f \<and>
        stream s2 = (stream s)(src := stream s src @ [f]))"
proof -
  note rq = checked_quiet [OF s len(1) new(1) env(2,1) rv [unfolded app_ReverseTransfer_checked]]
  have lim: "reversal_limited (CReverse (tdTransferID p) (tdAmount p) reason)" using n(2) by (simp add: reversal_limited_def)
  from rq(4) [OF new(2)] len(2) obtain acc where acc: "history (stream s src) acc" "aID acc = src"
    and c: "case decide (rdr 0) (CReverse (tdTransferID p) (tdAmount p) reason) acc of
         Inl err \<Rightarrow> r = Some err \<and> stream s2 = stream s \<and> b2 = b
       | Inr e \<Rightarrow> r = None \<and> (\<exists>f. stored_as e f \<and> eID f = eID e \<and> stream s2 = (stream s)(src := stream s src @ [f])) \<and>
           b2 = appPublish app b e"
    by (auto simp: mutate_result_def)
  from reverse_allowed [OF acc(1) n(1)] obtain f where
    f: "decide (rdr 0) (CReverse (tdTransferID p) (tdAmount p) reason) acc = Inr f" by blast
  then show ?thesis using rq(1) rq(2) [OF lim] c reverse_settlement [OF f] acc(2) by auto
qed

lemma process_settles:
  assumes s: "inv s" "ledger (stream s)"
    and e: "e \<in> set (stream s src)" "eType e = EventTransferDebited" "unmarshal_TransferDebited (eData e) = Inr p"
    and new: "tdTransferID p \<noteq> []" "\<not> seen (stream s) EventTransferCredited (tdTransferID p)"
      "\<not> seen (stream s) EventTransferReversed (tdTransferID p)"
    and len: "length (stream s (tdTo p)) < history_limit" "length (stream s src) < history_limit"
    and env: "appStore app = st" "envs 0 = quiet dr" "fresh_draw (stream s) (dr 0)" "fresh_draw (stream s) (rdr 0)"
    and run: "process (app_commands app envs (quiet rdr)) ctxDone e (s, b) = (res, s', b')"
  shows "inv s'" and "ledger (stream s')"
    and "stream s (tdTo p) \<noteq> [] \<Longrightarrow> res = TransferCompleted \<and>
      (\<exists>f. settlement transfer_of EventTransferCredited (dr 0) (tdTo p) p f \<and>
        stream s' = (stream s)(tdTo p := stream s (tdTo p) @ [f]))"
    and "stream s (tdTo p) = [] \<Longrightarrow> res = Compensated ErrAccountNotFound \<and>
      (\<exists>f. settlement transfer_of EventTransferReversed (rdr 0) src p f \<and>
        stream s' = (stream s)(src := stream s src @ [f]))"
proof -
  from ledgerD [OF s(2), of src] e(1) obtain a where a: "history (stream s src) a" "aID a = src" by force
  have src: "eAggregateID e = src"
    using e(1) a history_events [OF a(1)] by (metis in_set_conv_nth)
  have ne: "stream s src \<noteq> []" using e(1) by auto
  from history_debit [OF a(1) e(1,2)] e(3) have n: "0 < sint (tdAmount p)" "sint (tdAmount p) \<le> 100000000" by auto
  obtain r s1 b1 where cr: "app_CreditTransfer app (quiet dr) (tdTo p) (tdTransferID p) src (tdAmount p) (s, b) = (r, s1, b1)"
    by (metis prod_cases3)
  note c = credit_lands [OF s n new(1,2) len(1) env(1,3) cr]
  note pr = run [unfolded process_first_attempt [OF e(3)] src]
  obtain r2 s2 b2 where rv: "app_ReverseTransfer app (quiet rdr) src (tdTransferID p) (tdAmount p)
      (error_text ErrAccountNotFound) (s1, b1) = (r2, s2, b2)" by (metis prod_cases3)
  have credited: "res = TransferCompleted" "s' = s1" if "stream s (tdTo p) \<noteq> []"
    using c(3) [OF that] pr cr env(2) by (auto simp: app_commands_def)
  have reversed: "res = Compensated ErrAccountNotFound" "s' = s2" "inv s2" "ledger (stream s2)"
      "\<exists>f. settlement transfer_of EventTransferReversed (rdr 0) src p f \<and> stream s2 = (stream s)(src := stream s src @ [f])"
    if "stream s (tdTo p) = []"
  proof -
    have r: "r = Some ErrAccountNotFound" "stream s1 = stream s" using c(4) [OF that] by simp_all
    have l: "inv s2 \<and> ledger (stream s2) \<and> r2 = None \<and> (\<exists>f. settlement transfer_of EventTransferReversed (rdr 0) src p f \<and>
        stream s2 = (stream s)(src := stream s src @ [f]))"
      using reversal_lands [OF c(1,2) n new(1) _ _ _ env(1) _ rv] new(3) len(2) ne env(4) r(2) by simp
    then show "inv s2" "ledger (stream s2)"
      "\<exists>f. settlement transfer_of EventTransferReversed (rdr 0) src p f \<and> stream s2 = (stream s)(src := stream s src @ [f])"
      by blast+
    show "res = Compensated ErrAccountNotFound" "s' = s2"
      using l pr cr env(2) r rv by (auto simp: app_commands_def isBusinessError_def)
  qed
  show "inv s'" "ledger (stream s')" using c(1,2) credited(2) reversed(2-4) by (cases "stream s (tdTo p) = []"; simp)+
  show "res = TransferCompleted \<and> (\<exists>f. settlement transfer_of EventTransferCredited (dr 0) (tdTo p) p f \<and>
        stream s' = (stream s)(tdTo p := stream s (tdTo p) @ [f]))" if "stream s (tdTo p) \<noteq> []"
    using c(3) [OF that] credited [OF that] by simp
  show "res = Compensated ErrAccountNotFound \<and> (\<exists>f. settlement transfer_of EventTransferReversed (rdr 0) src p f \<and>
        stream s' = (stream s)(src := stream s src @ [f]))" if "stream s (tdTo p) = []"
    using reversed [OF that] by simp
qed

text \<open>A stored debit: its payload decodes, and the store reads the same transfer id from it.\<close>

lemma stored_debit:
  assumes "ledger (stream s)" and "e \<in> set (stream s src)" and "eType e = EventTransferDebited"
  shows "\<exists>p. unmarshal_TransferDebited (eData e) = Inr p \<and> transfer_of e = tdTransferID p"
proof -
  from ledgerD [OF assms(1), of src] assms(2) obtain a where a: "history (stream s src) a" by force
  from history_member [OF a assms(2)] assms(3) obtain d c acc f
    where f: "decide d c acc = Inr f" "stored_as f e" by auto
  with decide_debit [OF f(1)] assms(3) transfer_of_decided [OF f] show ?thesis
    by (auto simp: stored_as_def same_payload_def)
qed

end

section \<open>Resuming every pending transfer\<close>

text \<open>
  The account a pending debit ends up on: the destination if it exists, else the origin; and
  what an account receives when a list of debits is settled.
\<close>

definition payee :: "(string \<Rightarrow> Event list) \<Rightarrow> Event \<Rightarrow> string" where
  "payee str e = (case unmarshal_TransferDebited (eData e) of
     Inl err \<Rightarrow> eAggregateID e
   | Inr p \<Rightarrow> if str (tdTo p) = [] then eAggregateID e else tdTo p)"

definition received :: "(string \<Rightarrow> Event list) \<Rightarrow> Event list \<Rightarrow> string \<Rightarrow> int" where
  "received str es g = (\<Sum>e\<leftarrow>es. if payee str e = g then - signed_amount e else 0)"

text \<open>The event ids drawn while the \<open>i\<close>-th, \<open>i+1\<close>-th, ... event is processed: at most one is used each time.\<close>

fun resume_ids :: "(nat \<Rightarrow> nat \<Rightarrow> draw) \<Rightarrow> (nat \<Rightarrow> nat \<Rightarrow> draw) \<Rightarrow> nat \<Rightarrow> nat \<Rightarrow> string list" where
  "resume_ids dr rdr i 0 = []"
| "resume_ids dr rdr i (Suc n) = NewID (rnd (dr i 0)) # NewID (rnd (rdr i 0)) # resume_ids dr rdr (Suc i) n"

definition ids_fresh :: "(string \<Rightarrow> Event list) \<Rightarrow> string list \<Rightarrow> bool" where
  "ids_fresh str is \<longleftrightarrow> distinct is \<and> (\<forall>i \<in> set is. \<forall>g. i \<notin> eID ` set (str g))"

lemma payee_upd: "str h \<noteq> [] \<Longrightarrow> payee (str(h := str h @ [f])) e = payee str e"
  by (auto simp: payee_def split: sum.split)

lemma received_upd: "str h \<noteq> [] \<Longrightarrow> received (str(h := str h @ [f])) es g = received str es g"
  by (simp add: received_def payee_upd)

lemma ids_fresh_upd:
  "ids_fresh str (i # j # is) \<Longrightarrow> eID f \<in> {i, j} \<Longrightarrow> ids_fresh (str(h := str h @ [f])) is"
  by (auto simp: ids_fresh_def)

context reliable_store
begin

text \<open>One resumed transfer, in the form the induction over the queue needs.\<close>

definition unsettled :: "(string \<Rightarrow> Event list) \<Rightarrow> Event \<Rightarrow> bool" where
  "unsettled str e \<longleftrightarrow> e \<in> pending_set transfer_of str \<and> transfer_of e \<noteq> []"

lemma unsettled_upd:
  "unsettled str e \<Longrightarrow> transfer_of f \<noteq> transfer_of e \<Longrightarrow> unsettled (str(h := str h @ [f])) e"
  by (auto simp: unsettled_def pending_set_def; metis)

lemma process_resumes:
  assumes s: "inv s" "ledger (stream s)" and e: "unsettled (stream s) e"
    and len: "\<And>g. length (stream s g) < history_limit"
    and env: "appStore app = st" "envs 0 = quiet dr" "ids_fresh (stream s) (NewID (rnd (dr 0)) # NewID (rnd (rdr 0)) # is)"
    and run: "process (app_commands app envs (quiet rdr)) ctxDone e (s, b) = (res, s', b')"
  shows "inv s' \<and> ledger (stream s') \<and> res \<in> {TransferCompleted, Compensated ErrAccountNotFound} \<and>
    stream s (payee (stream s) e) \<noteq> [] \<and>
    (\<exists>f. settles f \<and> transfer_of f = transfer_of e \<and> signed_amount f = - signed_amount e \<and>
       eID f \<in> {NewID (rnd (dr 0)), NewID (rnd (rdr 0))} \<and>
       stream s' = (stream s)(payee (stream s) e := stream s (payee (stream s) e) @ [f]))"
proof -
  from e obtain src where src: "e \<in> set (stream s src)" "eType e = EventTransferDebited"
    by (auto simp: unsettled_def pending_set_def)
  from ledgerD [OF s(2), of src] src(1) obtain a where a: "history (stream s src) a" "aID a = src" by force
  have agg: "eAggregateID e = src" using src(1) a(2) history_events [OF a(1)] by (metis in_set_conv_nth)
  obtain p where p: "unmarshal_TransferDebited (eData e) = Inr p" "transfer_of e = tdTransferID p"
    using stored_debit [OF s(2) src] by blast
  have amount: "signed_amount e = - sint (tdAmount p)" using history_debit [OF a(1) src] p(1) by auto
  have new: "tdTransferID p \<noteq> []" "\<not> seen (stream s) EventTransferCredited (tdTransferID p)"
      "\<not> seen (stream s) EventTransferReversed (tdTransferID p)"
    using e p(2) by (auto simp: unsettled_def pending_set_def seen_def settles_def)
  have fr: "fresh_draw (stream s) (dr 0)" "fresh_draw (stream s) (rdr 0)"
    using env(3) by (auto simp: ids_fresh_def fresh_draw_def)
  note ps = process_settles [OF s src p(1) new len len env(1,2) fr run]
  show ?thesis
  proof (cases "stream s (tdTo p) = []")
    case True
    have "payee (stream s) e = src" using True p(1) agg by (simp add: payee_def)
    moreover have "stream s src \<noteq> []" using src(1) by auto
    ultimately show ?thesis
      using ps(1,2) ps(4) [OF True] p(2) amount by (auto simp: settlement_def settles_def)
  next
    case False
    then have "payee (stream s) e = tdTo p" using p(1) by (simp add: payee_def)
    then show ?thesis
      using ps(1,2) ps(3) [OF False] p(2) amount False by (auto simp: settlement_def settles_def)
  qed
qed

lemma saga_worker_resumes:
  assumes "inv s" and "ledger (stream s)" and "\<forall>e \<in> set es. unsettled (stream s) e"
    and "distinct (map transfer_of es)" and "\<And>g. length (stream s g) + length es \<le> history_limit"
    and "appStore app = st" and "\<And>i. envs i 0 = quiet (dr i)"
    and "ids_fresh (stream s) (resume_ids dr rdr i (length es))"
    and "saga_worker (\<lambda>i. app_commands app (envs i) (quiet (rdr i))) ctxDone i es (s, b) = (rs, s', b')"
  shows "inv s' \<and> ledger (stream s') \<and> set rs \<subseteq> {TransferCompleted, Compensated ErrAccountNotFound} \<and>
    (\<forall>e. e \<in> pending_set transfer_of (stream s') \<longleftrightarrow> e \<in> pending_set transfer_of (stream s) \<and> transfer_of e \<notin> transfer_of ` set es) \<and>
    (\<forall>g. net (stream s' g) = net (stream s g) + received (stream s) es g \<and> length (stream s' g) \<le> length (stream s g) + length es)"
  using assms(1-5,8,9)
proof (induction es arbitrary: i s b rs)
  case Nil
  then show ?case by (simp add: received_def)
next
  case (Cons e es)
  obtain r s1 b1 where p: "process (app_commands app (envs i) (quiet (rdr i))) (ctxDone i) e (s, b) = (r, s1, b1)"
    by (metis prod_cases3)
  obtain rs1 where w: "saga_worker (\<lambda>i. app_commands app (envs i) (quiet (rdr i))) ctxDone (Suc i) es (s1, b1) = (rs1, s', b')"
      "rs = r # rs1"
    using Cons.prems(7) p by (auto split: prod.splits)
  let ?h = "payee (stream s) e"
  have len: "length (stream s g) < history_limit" for g using Cons.prems(5) [of g] by simp
  from process_resumes [OF Cons.prems(1,2) _ len assms(6,7) _ p, of "resume_ids dr rdr (Suc i) (length es)"]
    Cons.prems(3,6)
  obtain f where s1: "inv s1" "ledger (stream s1)" "r \<in> {TransferCompleted, Compensated ErrAccountNotFound}"
      "stream s ?h \<noteq> []" and f: "settles f" "transfer_of f = transfer_of e" "signed_amount f = - signed_amount e"
      "eID f \<in> {NewID (rnd (dr i 0)), NewID (rnd (rdr i 0))}" "stream s1 = (stream s)(?h := stream s ?h @ [f])"
    by auto
  have uns: "\<forall>x \<in> set es. unsettled (stream s1) x"
    using Cons.prems(3,4) f(2) unfolding f(5) by (auto intro!: unsettled_upd simp: image_iff)
  have len1: "length (stream s1 g) + length es \<le> history_limit" for g
    using Cons.prems(5) [of g] unfolding f(5) by auto
  have fr: "ids_fresh (stream s1) (resume_ids dr rdr (Suc i) (length es))"
    unfolding f(5) using ids_fresh_upd [OF _ f(4)] Cons.prems(6) by simp
  note IH = Cons.IH [OF s1(1,2) uns _ len1 fr w(1)]
  have pend: "x \<in> pending_set transfer_of (stream s1) \<longleftrightarrow> x \<in> pending_set transfer_of (stream s) \<and> transfer_of x \<noteq> transfer_of e" for x
    using f(1,2) unfolding f(5) pending_set_def settles_def by (auto; metis)
  have rec: "received (stream s1) es g = received (stream s) es g" for g
    using received_upd [of "stream s" ?h] s1(4) unfolding f(5) by simp
  have one: "net (stream s1 g) = net (stream s g) + (if ?h = g then - signed_amount e else 0)"
      "length (stream s1 g) \<le> Suc (length (stream s g))" for g
    using f(3) unfolding f(5) by auto
  have two: "received (stream s) (e # es) g = (if ?h = g then - signed_amount e else 0) + received (stream s) es g" for g
    by (simp add: received_def)
  have rest: "net (stream s' g) = net (stream s1 g) + received (stream s1) es g"
      "length (stream s' g) \<le> length (stream s1 g) + length es" for g
    using IH Cons.prems(4) by simp_all
  have "net (stream s' g) = net (stream s g) + received (stream s) (e # es) g \<and>
      length (stream s' g) \<le> length (stream s g) + length (e # es)" for g
    using rest [of g] rec [of g] one [of g] two [of g] by simp
  then show ?case
    using IH Cons.prems(4) s1(3) w(2) pend by auto
qed

end

section \<open>Properties on the in-memory store\<close>

text \<open>The money in the accounts, and the money debited and not yet settled.\<close>

definition holdings :: "Memory \<Rightarrow> int" where
  "holdings s = net (mlog s)"

definition in_flight :: "Memory \<Rightarrow> int" where
  "in_flight s = (case fst (mem_PendingTransferDebits s) of
     Inl err \<Rightarrow> 0 | Inr es \<Rightarrow> (\<Sum>e\<leftarrow>es. - signed_amount e))"

lemma net_by_account:
  "finite A \<Longrightarrow> eAggregateID ` set es \<subseteq> A \<Longrightarrow> net es = (\<Sum>g\<in>A. net (filter (\<lambda>e. eAggregateID e = g) es))"
proof (induction es)
  case (Cons e es)
  have "(\<Sum>g\<in>A. net (filter (\<lambda>x. eAggregateID x = g) (e # es))) =
      (\<Sum>g\<in>A. (if g = eAggregateID e then signed_amount e else 0) + net (filter (\<lambda>x. eAggregateID x = g) es))"
    by (rule sum.cong) auto
  also have "\<dots> = signed_amount e + net es"
    using Cons by (simp add: sum.distrib)
  finally show ?case by simp
qed simp

lemma received_total:
  "finite A \<Longrightarrow> (\<forall>e \<in> set es. payee str e \<in> A) \<Longrightarrow> (\<Sum>g\<in>A. received str es g) = (\<Sum>e\<leftarrow>es. - signed_amount e)"
proof (induction es)
  case (Cons e es)
  have "(\<Sum>g\<in>A. received str (e # es) g) =
      (\<Sum>g\<in>A. (if g = payee str e then - signed_amount e else 0) + received str es g)"
    by (rule sum.cong) (auto simp: received_def)
  also have "\<dots> = - signed_amount e + (\<Sum>e\<leftarrow>es. - signed_amount e)"
    using Cons by (simp add: sum.distrib)
  finally show ?case by simp
qed (simp add: received_def)

text \<open>What a store must satisfy for the boot to resume its transfers: debits have distinct,
  non-empty transfer ids, and the event ids the resumption draws are new.\<close>

definition resumable :: "(nat \<Rightarrow> nat \<Rightarrow> draw) \<Rightarrow> (nat \<Rightarrow> nat \<Rightarrow> draw) \<Rightarrow> Memory \<Rightarrow> bool" where
  "resumable dr rdr s \<longleftrightarrow>
     (let debits = filter (\<lambda>e. eType e = EventTransferDebited) (mlog s);
          is = resume_ids dr rdr 0 (length debits)
      in distinct (map transferIDOf debits) \<and> [] \<notin> set (map transferIDOf debits) \<and>
         distinct is \<and> list_all (\<lambda>i. i \<notin> set (map eID (mlog s))) is \<and> 2 * length (mlog s) \<le> history_limit)"

lemma resume_ids_append:
  "resume_ids dr rdr i (m + n) = resume_ids dr rdr i m @ resume_ids dr rdr (i + m) n"
  by (induction m arbitrary: i) auto

lemma resumable_ids:
  assumes "mem_inv s" and "resumable dr rdr s"
    and "n \<le> length (filter (\<lambda>e. eType e = EventTransferDebited) (mlog s))" (is "n \<le> ?m")
  shows "ids_fresh (mem_stream s) (resume_ids dr rdr 0 n)"
proof -
  have "resume_ids dr rdr 0 ?m = resume_ids dr rdr 0 n @ resume_ids dr rdr n (?m - n)"
    using resume_ids_append [of dr rdr 0 n "?m - n"] assms(3) by simp
  then have "distinct (resume_ids dr rdr 0 n)" "\<forall>i \<in> set (resume_ids dr rdr 0 n). i \<notin> eID ` set (mlog s)"
    using assms(2) by (auto simp: resumable_def Let_def list_all_iff)
  then show ?thesis
    unfolding ids_fresh_def using mem_inv_stream_id [OF assms(1)] by blast
qed

lemma catch_up_run:
  assumes "mem_inv s" and "ledger (mem_stream s)" and "resumable dr rdr s"
    and "saga_CatchUp memory_store s [] = (None, s1, queue)"
    and "appStore app = memory_store" and "\<And>i. envs i 0 = quiet (dr i)"
    and "saga_worker (\<lambda>i. app_commands app (envs i) (quiet (rdr i))) ctxDone 0 queue (s1, b) = (rs, s', b')"
  shows "mem_PendingTransferDebits s = (Inr queue, s)" and "mem_inv s'" and "ledger (mem_stream s')"
    and "set rs \<subseteq> {TransferCompleted, Compensated ErrAccountNotFound}"
    and "mem_PendingTransferDebits s' = (Inr [], s')"
    and "net (mem_stream s' g) = net (mem_stream s g) + received (mem_stream s) queue g"
proof -
  show q: "mem_PendingTransferDebits s = (Inr queue, s)"
    using assms(4) by (auto simp: saga_CatchUp_def memory_store_def mem_PendingTransferDebits_def Let_def)
  then have s1: "s1 = s" using assms(4) by (simp add: saga_CatchUp_def memory_store_def)
  have set_q: "set queue = pending_set transferIDOf (mem_stream s)"
    using memory.pending_debits [OF assms(1)] q by (auto simp: memory_store_def)
  have queue: "queue = filter (\<lambda>e. transferIDOf e \<notin> set (map transferIDOf (filter settles (mlog s))))
      (filter (\<lambda>e. eType e = EventTransferDebited) (mlog s))"
    using q by (auto simp: mem_PendingTransferDebits_def Let_def intro: filter_cong)
  have "distinct (map transferIDOf queue)"
    unfolding queue by (rule distinct_map_filter) (use assms(3) in \<open>simp add: resumable_def Let_def\<close>)
  moreover have "[] \<notin> transferIDOf ` set queue"
    using assms(3) unfolding queue by (auto simp: resumable_def Let_def image_iff)
  moreover have lq: "length queue \<le> length (filter (\<lambda>e. eType e = EventTransferDebited) (mlog s))"
      "length queue \<le> length (mlog s)"
    unfolding queue by (meson le_trans length_filter_le)+
  moreover have "length (mem_stream s g) + length queue \<le> history_limit" for g
  proof -
    have "length (mem_stream s g) \<le> length (mlog s)" "2 * length (mlog s) \<le> history_limit"
      using mem_inv_short [OF assms(1)] assms(3) by (auto simp: mem_short_def resumable_def Let_def)
    then show ?thesis using lq(2) by linarith
  qed
  ultimately have w: "mem_inv s' \<and> ledger (mem_stream s') \<and> set rs \<subseteq> {TransferCompleted, Compensated ErrAccountNotFound} \<and>
    (\<forall>e. e \<in> pending_set transferIDOf (mem_stream s') \<longleftrightarrow>
       e \<in> pending_set transferIDOf (mem_stream s) \<and> transferIDOf e \<notin> transferIDOf ` set queue) \<and>
    (\<forall>g. net (mem_stream s' g) = net (mem_stream s g) + received (mem_stream s) queue g \<and>
       length (mem_stream s' g) \<le> length (mem_stream s g) + length queue)"
    using assms(7) resumable_ids [OF assms(1,3)] set_q unfolding s1
    by (intro memory.saga_worker_resumes [where envs = envs and dr = dr and rdr = rdr and app = app
        and ctxDone = ctxDone and i = 0 and b = b and b' = b', OF assms(1,2) _ _ _ assms(5,6)])
      (auto simp: memory.unsettled_def image_iff)
  then show "mem_inv s'" "ledger (mem_stream s')" "set rs \<subseteq> {TransferCompleted, Compensated ErrAccountNotFound}"
    "net (mem_stream s' g) = net (mem_stream s g) + received (mem_stream s) queue g" by blast+
  have "pending_set transferIDOf (mem_stream s') = {}" using w set_q by blast
  with memory.pending_debits [OF \<open>mem_inv s'\<close>] show "mem_PendingTransferDebits s' = (Inr [], s')"
    by (auto simp: memory_store_def mem_PendingTransferDebits_def Let_def)
qed

text \<open>
  C3. Boot recovery is complete: after \<open>saga_CatchUp\<close> has queued the pending debits and a worker
  has processed the queue, no debit is pending. Every transfer ended completed or
  compensated, and each account holds what it held plus the amounts of the pending
  transfers it is the payee of (the destination, or the origin when there is no
  destination account).
\<close>

theorem catch_up_settles_all:
  assumes "mem_inv s" and "ledger (mem_stream s)" and "resumable dr rdr s"
    and "saga_CatchUp memory_store s [] = (None, s1, queue)"
    and "appStore app = memory_store" and "\<And>i. envs i 0 = quiet (dr i)"
    and "saga_worker (\<lambda>i. app_commands app (envs i) (quiet (rdr i))) ctxDone 0 queue (s1, b) = (rs, s', b')"
  shows "mem_PendingTransferDebits s' = (Inr [], s') \<and>
    set rs \<subseteq> {TransferCompleted, Compensated ErrAccountNotFound} \<and>
    (\<forall>g. net (mem_stream s' g) = net (mem_stream s g) + received (mem_stream s) queue g)"
  using catch_up_run [OF assms] by blast

definition resume_dr :: "nat \<Rightarrow> nat \<Rightarrow> nat \<Rightarrow> draw" where
  "resume_dr k i j = sample_draw (k + 2 * i)"

definition resumed :: "saga_end list \<times> Memory \<times> Event list" where
  "resumed = saga_worker (\<lambda>i. app_commands sample_app (\<lambda>_. quiet (resume_dr 20 i)) (quiet (resume_dr 21 i)))
     (\<lambda>_ _. False) 0 [ana_debit] (transfer_started, [])"

lemma transfer_started_resumable: "resumable (resume_dr 20) (resume_dr 21) transfer_started"
proof -
  have "mlog transfer_started = [ana_opened, ana_deposit, bea_opened, bea_deposit, ana_debit]"
    by (simp add: transfer_started_def)
  moreover have "distinct (map transferIDOf (filter (\<lambda>e. eType e = EventTransferDebited) (mlog transfer_started)))"
    "[] \<notin> set (map transferIDOf (filter (\<lambda>e. eType e = EventTransferDebited) (mlog transfer_started)))"
    "length (filter (\<lambda>e. eType e = EventTransferDebited) (mlog transfer_started)) = 1"
    "distinct (resume_ids (resume_dr 20) (resume_dr 21) 0 1)"
    "list_all (\<lambda>i. i \<notin> set (map eID (mlog transfer_started))) (resume_ids (resume_dr 20) (resume_dr 21) 0 1)"
    by code_simp+
  ultimately show ?thesis by (simp add: resumable_def Let_def history_limit_def)
qed

lemma transfer_started_queue: "saga_CatchUp memory_store transfer_started [] = (None, transfer_started, [ana_debit])"
proof -
  have "fst (mem_PendingTransferDebits transfer_started) = Inr [ana_debit]" by code_simp
  then show ?thesis by (simp add: saga_CatchUp_def memory_store_def mem_PendingTransferDebits_def)
qed

lemma resumed_run:
  "saga_worker (\<lambda>i. app_commands sample_app (\<lambda>_. quiet (resume_dr 20 i)) (quiet (resume_dr 21 i))) (\<lambda>_ _. False) 0
     [ana_debit] (transfer_started, []) = (fst resumed, fst (snd resumed), snd (snd resumed))"
  by (simp add: resumed_def)

theorem catch_up_settles_all_witness:
  "mem_PendingTransferDebits (fst (snd resumed)) = (Inr [], fst (snd resumed)) \<and>
   net (mem_stream (fst (snd resumed)) bea) = net (mem_stream transfer_started bea) + 30"
proof -
  have "received (mem_stream transfer_started) [ana_debit] bea = 30" by code_simp
  then show ?thesis
    using catch_up_settles_all [OF transfer_started_ok transfer_started_resumable transfer_started_queue _ _ resumed_run]
    by (simp add: sample_app_def)
qed

text \<open>
  C4. On the in-memory store, with one worker, no other writer and no failing call (the first attempt of
  every command is undisturbed), no money is created or lost by recovery: the sum of all balances
  after the catch-up is the sum before it plus the amounts that were in flight, and nothing is in
  flight any more. On Postgres a commit whose answer is lost can break this (Postgres_App shows a run).
\<close>

theorem catch_up_conserves_money:
  assumes "mem_inv s" and "ledger (mem_stream s)" and "resumable dr rdr s"
    and "saga_CatchUp memory_store s [] = (None, s1, queue)"
    and "appStore app = memory_store" and "\<And>i. envs i 0 = quiet (dr i)"
    and "saga_worker (\<lambda>i. app_commands app (envs i) (quiet (rdr i))) ctxDone 0 queue (s1, b) = (rs, s', b')"
  shows "holdings s' = holdings s + in_flight s \<and> in_flight s' = 0"
proof -
  note run = catch_up_run [OF assms]
  let ?A = "eAggregateID ` (set (mlog s) \<union> set (mlog s')) \<union> payee (mem_stream s) ` set queue"
  have A: "finite ?A" "eAggregateID ` set (mlog s) \<subseteq> ?A" "eAggregateID ` set (mlog s') \<subseteq> ?A" by auto
  have "holdings s' = (\<Sum>g\<in>?A. net (mem_stream s' g))"
    unfolding holdings_def net_by_account [OF A(1,3)] by (simp add: mem_inv_filter [OF run(2)])
  also have "\<dots> = (\<Sum>g\<in>?A. net (mem_stream s g)) + (\<Sum>g\<in>?A. received (mem_stream s) queue g)"
    by (simp add: run(6) sum.distrib)
  also have "(\<Sum>g\<in>?A. net (mem_stream s g)) = holdings s"
    unfolding holdings_def net_by_account [OF A(1,2)] by (simp add: mem_inv_filter [OF assms(1)])
  also have "(\<Sum>g\<in>?A. received (mem_stream s) queue g) = in_flight s"
    using received_total [OF A(1), of queue "mem_stream s"] run(1) by (simp add: in_flight_def)
  finally show ?thesis using run(5) by (simp add: in_flight_def)
qed

theorem catch_up_conserves_money_witness:
  "holdings (fst (snd resumed)) = holdings transfer_started + 30 \<and> in_flight (fst (snd resumed)) = 0"
proof -
  have "in_flight transfer_started = 30" by code_simp
  then show ?thesis
    using catch_up_conserves_money [OF transfer_started_ok transfer_started_resumable transfer_started_queue _ _ resumed_run]
    by (simp add: sample_app_def)
qed

text \<open>
  C7. One delivery of an unsettled debit settles it: if the destination exists its stream gets one
  credit of the debited amount and the transfer completes; if not, the stream of the origin
  gets one reversal of that amount. No other stream changes.
\<close>

theorem delivery_settles:
  assumes "mem_inv s" and "ledger (mem_stream s)" and "e \<in> set (mlog s)" and "eType e = EventTransferDebited"
    and "unmarshal_TransferDebited (eData e) = Inr p" and "tdTransferID p \<noteq> []"
    and "list_all (\<lambda>f. settles f \<longrightarrow> transferIDOf f \<noteq> tdTransferID p) (mlog s)"
    and "length (mlog s) < history_limit" and "appStore app = memory_store" and "envs 0 = quiet dr"
    and "fresh_draw (mem_stream s) (dr 0)" and "fresh_draw (mem_stream s) (rdr 0)"
    and "process (app_commands app envs (quiet rdr)) ctxDone e (s, b) = (res, s', b')"
  shows "if mem_stream s (tdTo p) \<noteq> []
    then res = TransferCompleted \<and> (\<exists>f. settlement transferIDOf EventTransferCredited (dr 0) (tdTo p) p f \<and>
      mem_stream s' = (mem_stream s)(tdTo p := mem_stream s (tdTo p) @ [f]))
    else res = Compensated ErrAccountNotFound \<and>
      (\<exists>f. settlement transferIDOf EventTransferReversed (rdr 0) (eAggregateID e) p f \<and>
         mem_stream s' = (mem_stream s)(eAggregateID e := mem_stream s (eAggregateID e) @ [f]))"
proof -
  have e: "e \<in> set (mem_stream s (eAggregateID e))" using mem_inv_log [OF assms(1)] assms(3) by blast
  have len: "length (mem_stream s g) < history_limit" for g
    using mem_inv_short [OF assms(1)] assms(8) le_less_trans by (auto simp: mem_short_def)
  have new: "\<not> memory.seen (mem_stream s) EventTransferCredited (tdTransferID p)"
    "\<not> memory.seen (mem_stream s) EventTransferReversed (tdTransferID p)"
    using assms(7) mem_inv_stream_id [OF assms(1)]
    by (fastforce simp: memory.seen_def list_all_iff settles_def)+
  note ps = memory.process_settles [OF assms(1,2) e assms(4,5,6) new len len assms(9-13)]
  then show ?thesis by auto
qed

definition delivered :: "saga_end \<times> Memory \<times> Event list" where
  "delivered = process (app_commands sample_app (\<lambda>_. quiet (resume_dr 20 0)) (quiet (resume_dr 21 0))) (\<lambda>_. False)
     ana_debit (transfer_started, [])"

lemma ana_debit_values:
  "eType ana_debit = EventTransferDebited"
  "unmarshal_TransferDebited (eData ana_debit) = Inr \<lparr>tdTransferID = sample_tid, tdTo = bea, tdAmount = 30\<rparr>"
  "list_all (\<lambda>f. settles f \<longrightarrow> transferIDOf f \<noteq> sample_tid) (mlog transfer_started)"
  "mem_stream transfer_started bea \<noteq> []" "sample_tid \<noteq> []"
  by code_simp+

theorem delivery_settles_witness:
  "fst delivered = TransferCompleted \<and> length (mem_stream (fst (snd delivered)) bea) = 3"
proof -
  obtain r s' b' where run: "process (app_commands sample_app (\<lambda>_. quiet (resume_dr 20 0)) (quiet (resume_dr 21 0)))
      (\<lambda>_. False) ana_debit (transfer_started, []) = (r, s', b')" by (metis prod_cases3)
  have e: "ana_debit \<in> set (mlog transfer_started)" "length (mlog transfer_started) = 5"
      "length (mem_stream transfer_started bea) = 2" by code_simp+
  have "appStore sample_app = memory_store" by (simp add: sample_app_def)
  moreover have "fresh_draw (mem_stream transfer_started) (resume_dr 20 0 0)"
      "fresh_draw (mem_stream transfer_started) (resume_dr 21 0 0)"
    using transfer_started_fresh by (simp_all add: resume_dr_def)
  ultimately show ?thesis
    using delivery_settles [OF transfer_started_ok e(1) ana_debit_values(1,2) _ _ _ _ refl _ _ run] run
      ana_debit_values e(2,3) by (auto simp: delivered_def history_limit_def)
qed

section \<open>Redelivery\<close>

lemma no_destination:
  "mem_stream s to = [] \<Longrightarrow> \<not> list_ex (\<lambda>e. eType e = EventTransferCredited \<and> transferIDOf e = tid) (mlog s) \<Longrightarrow>
     appStore app = memory_store \<Longrightarrow>
     app_CreditTransfer app (quiet dr) to tid from n (s, b) = (Some ErrAccountNotFound, s, b)"
  by (simp add: app_CreditTransfer_def memory_store_def mem_HasTransferEvent_def mutate_def maxRetries_def eval_nat_numeral
      mutate_read_def mem_Load_def Let_def quiet_def)

text \<open>
  C13. A debit that is delivered again after its transfer was settled. If the transfer was credited,
  the delivery changes nothing and publishes nothing, whatever the environment. If it was reversed and
  the destination does not exist, neither. But if it was reversed and the destination exists (the
  reversal followed transient errors), the delivery credits the destination with the amount that
  the origin has already got back: \<open>CreditTransfer\<close> looks for credits only.
\<close>

theorem redelivery_of_settled:
  assumes "mem_inv s" and "ledger (mem_stream s)" and "e \<in> set (mlog s)" and "eType e = EventTransferDebited"
    and "unmarshal_TransferDebited (eData e) = Inr p" and "tdTransferID p \<noteq> []"
    and "length (mlog s) < history_limit" and "appStore app = memory_store"
    and "process (app_commands app envs renv) ctxDone e (s, b) = (res, s', b')"
    and "credited = (\<exists>f \<in> set (mlog s). eType f = EventTransferCredited \<and> transferIDOf f = tdTransferID p)"
    and "reversed = (\<exists>f \<in> set (mlog s). eType f = EventTransferReversed \<and> transferIDOf f = tdTransferID p)"
  shows "(credited \<longrightarrow> res = TransferCompleted \<and> s' = s \<and> b' = b) \<and>
    (\<not> credited \<and> reversed \<and> envs 0 = quiet dr \<and> mem_stream s (tdTo p) = [] \<longrightarrow>
      res = Compensated ErrAccountNotFound \<and> s' = s \<and> b' = b) \<and>
    (\<not> credited \<and> reversed \<and> envs 0 = quiet dr \<and> fresh_draw (mem_stream s) (dr 0) \<and> mem_stream s (tdTo p) \<noteq> [] \<longrightarrow>
      res = TransferCompleted \<and> (\<exists>f. settlement transferIDOf EventTransferCredited (dr 0) (tdTo p) p f \<and>
        mem_stream s' = (mem_stream s)(tdTo p := mem_stream s (tdTo p) @ [f])))"
proof (intro conjI impI)
  note run = assms(9) [unfolded process_first_attempt [OF assms(5)]]
  have new: "\<not> list_ex (\<lambda>f. eType f = EventTransferCredited \<and> transferIDOf f = tdTransferID p) (mlog s)" if "\<not> credited"
    using that assms(10) by (auto simp: list_ex_iff)
  show "res = TransferCompleted" "s' = s" "b' = b" if c: credited
  proof -
    obtain f where f: "f \<in> set (mlog s)" "eType f = EventTransferCredited" "transferIDOf f = tdTransferID p"
      using c assms(10) by blast
    note rep = repeated_call_is_noop [OF f(1) assms(8)]
    show "res = TransferCompleted" "s' = s" "b' = b"
      using run rep f(2,3) by (auto simp: app_commands_def)
  qed
  show "res = Compensated ErrAccountNotFound" "s' = s" "b' = b"
    if c: "\<not> credited \<and> reversed \<and> envs 0 = quiet dr \<and> mem_stream s (tdTo p) = []"
  proof -
    obtain f where f: "f \<in> set (mlog s)" "eType f = EventTransferReversed" "transferIDOf f = tdTransferID p"
      using c assms(11) by blast
    note rep = repeated_call_is_noop [OF f(1) assms(8)]
    show "res = Compensated ErrAccountNotFound" "s' = s" "b' = b"
      using run rep f(2,3) no_destination [OF _ new assms(8), of "tdTo p"] c
      by (auto simp: app_commands_def isBusinessError_def)
  qed
  show "res = TransferCompleted" "\<exists>f. settlement transferIDOf EventTransferCredited (dr 0) (tdTo p) p f \<and>
        mem_stream s' = (mem_stream s)(tdTo p := mem_stream s (tdTo p) @ [f])"
    if c: "\<not> credited \<and> reversed \<and> envs 0 = quiet dr \<and> fresh_draw (mem_stream s) (dr 0) \<and> mem_stream s (tdTo p) \<noteq> []"
  proof -
    let ?g = "eAggregateID e"
    have e: "e \<in> set (mem_stream s ?g)" using mem_inv_log [OF assms(1)] assms(3) by blast
    have len: "length (mem_stream s g) < history_limit" for g
      using mem_inv_short [OF assms(1)] assms(7) le_less_trans by (auto simp: mem_short_def)
    obtain a where a: "history (mem_stream s ?g) a" using ledgerD [OF assms(2), of ?g] e by force
    from history_debit [OF a e assms(4)] assms(5) have n: "0 < sint (tdAmount p)" "sint (tdAmount p) \<le> 100000000" by auto
    have seen: "\<not> memory.seen (mem_stream s) EventTransferCredited (tdTransferID p)"
      using c assms(10) memory_seen [OF assms(1)] by simp
    obtain r s1 b1 where cr: "app_CreditTransfer app (quiet dr) (tdTo p) (tdTransferID p) ?g (tdAmount p) (s, b) = (r, s1, b1)"
      by (metis prod_cases3)
    from c have ne: "mem_stream s (tdTo p) \<noteq> []" and fr: "fresh_draw (mem_stream s) (dr 0)" and q: "envs 0 = quiet dr" by auto
    note l = memory.credit_lands(3) [OF assms(1,2) n assms(6) seen len assms(8) fr cr ne]
    then show "res = TransferCompleted" "\<exists>f. settlement transferIDOf EventTransferCredited (dr 0) (tdTo p) p f \<and>
        mem_stream s' = (mem_stream s)(tdTo p := mem_stream s (tdTo p) @ [f])"
      using run cr q by (auto simp: app_commands_def)
  qed
qed

text \<open>The transfer of 30 was reversed after transient errors; its debit is delivered once more.\<close>

definition ana_reversal :: Event where
  "ana_reversal = \<lparr>eID = ''16161616-1616-4616-9616-161616161616'', eAggregateID = ana, eVersion = 4,
     eType = ''transfer.reversed'',
     eData = RawJSON (JObj [(''transfer_id'', JStr sample_tid), (''amount'', JInt 30), (''reason'', JStr ''timeout'')]),
     eOccurredAt = 22, eSeq = 6\<rparr>"

definition transfer_reversed :: Memory where
  "transfer_reversed = fst (snd (app_ReverseTransfer sample_app (sample_env 22) ana sample_tid 30 ''timeout'' (transfer_started, [])))"

lemma transfer_reversed_values:
  "mlog transfer_reversed = mlog transfer_started @ [ana_reversal]"
  "mem_stream transfer_reversed bea = [bea_opened, bea_deposit]"
  "eType ana_reversal = EventTransferReversed" "transferIDOf ana_reversal = sample_tid"
  "list_all (\<lambda>f. eType f \<noteq> EventTransferCredited) (mlog transfer_reversed)"
  "list_all (\<lambda>f. eID f \<noteq> NewID (rnd (sample_draw 23))) (mlog transfer_reversed)" "length (mlog transfer_reversed) = 6"
  "net (mem_stream transfer_reversed ana) = 100" "net (mem_stream transfer_reversed bea) = 50"
  by code_simp+

lemma transfer_reversed_ok: "mem_inv transfer_reversed" "ledger (mem_stream transfer_reversed)"
proof -
  define p where "p = \<lparr>tdTransferID = sample_tid, tdTo = bea, tdAmount = 30\<rparr>"
  obtain r b2 where rv: "app_ReverseTransfer sample_app (quiet (\<lambda>i. sample_draw (22 + i))) ana (tdTransferID p) (tdAmount p)
      ''timeout'' (transfer_started, []) = (r, transfer_reversed, b2)"
    unfolding transfer_reversed_def sample_env_def by (metis p_def TransferDebited.simps(1,3) prod.collapse)
  have f: "fresh_draw (mem_stream transfer_started) (sample_draw (22 + 0))"
    by (rule fresh_in_log [OF transfer_started_ok(1)]) code_simp
  have s: "\<not> memory.seen (mem_stream transfer_started) EventTransferReversed (tdTransferID p)"
    using ana_debit_values(3) memory_seen [OF transfer_started_ok(1)] by (auto simp: list_all_iff settles_def p_def)
  have "mem_inv transfer_reversed \<and> ledger (mem_stream transfer_reversed)"
    using memory.reversal_lands [OF transfer_started_ok _ _ _ s _ _ _ f rv] ana_debit_values(5)
    by (auto simp: p_def sample_app_def history_limit_def transfer_started_stream two_accounts_stream)
  then show "mem_inv transfer_reversed" "ledger (mem_stream transfer_reversed)" by simp_all
qed

theorem redelivery_of_settled_witness:
  "\<exists>s' b'. process (app_commands sample_app (\<lambda>_. sample_env 23) (sample_env 24)) (\<lambda>_. False) ana_debit (transfer_reversed, []) =
      (TransferCompleted, s', b') \<and>
    net (mem_stream transfer_reversed ana) = 100 \<and> net (mem_stream transfer_reversed bea) = 50 \<and>
    net (mem_stream s' ana) = 100 \<and> net (mem_stream s' bea) = 80"
proof -
  let ?dr = "\<lambda>i. sample_draw (23 + i)"
  obtain res s' b' where run: "process (app_commands sample_app (\<lambda>_. quiet ?dr) (sample_env 24)) (\<lambda>_. False) ana_debit
      (transfer_reversed, []) = (res, s', b')" by (metis prod_cases3)
  have e: "ana_debit \<in> set (mlog transfer_reversed)" by (simp add: transfer_reversed_values transfer_started_def)
  have f: "fresh_draw (mem_stream transfer_reversed) (?dr 0)"
    using transfer_reversed_values(6) by (intro fresh_in_log [OF transfer_reversed_ok(1)]) simp
  from redelivery_of_settled [OF transfer_reversed_ok e ana_debit_values(1,2) _ _ _ run refl refl, of ?dr]
  have "res = TransferCompleted \<and> (\<exists>f. signed_amount f = 30 \<and>
      mem_stream s' = (mem_stream transfer_reversed)(bea := mem_stream transfer_reversed bea @ [f]))"
    using f ana_debit_values(5) transfer_reversed_values
    by (auto simp: sample_app_def history_limit_def list_all_iff settlement_def)
  then show ?thesis
    using run transfer_reversed_values(8,9) by (auto simp: sample_env_def)
qed

text \<open>
  C12. When the credit cannot be made the debit is compensated: a business error at the first
  attempt leads to a reversal at once, three transient errors in a row (the context alive)
  lead to a reversal after the third; in both cases with the debited account, transfer
  and amount, and with the text of the last error as the reason. This holds for every
  implementation of the commands.
\<close>

theorem failed_credit_is_reversed:
  assumes "unmarshal_TransferDebited (eData e) = Inr p"
    and "credit = (\<lambda>i w. cmdCreditTransfer cmd i (tdTo p) (tdTransferID p) (eAggregateID e) (tdAmount p) w)"
    and "reverse = (\<lambda>err w. case cmdReverseTransfer cmd (eAggregateID e) (tdTransferID p) (tdAmount p) (error_text err) w of
       (None, w') \<Rightarrow> (Compensated err, w') | (Some err', w') \<Rightarrow> (CompensationFailed err err', w'))"
  shows "(credit 0 w = (Some err1, w1) \<and> isBusinessError err1 \<longrightarrow> process cmd ctxDone e w = reverse err1 w1) \<and>
    (credit 0 w = (Some err1, w1) \<and> credit 1 w1 = (Some err2, w2) \<and> credit 2 w2 = (Some err3, w3) \<and>
     \<not> isBusinessError err1 \<and> \<not> isBusinessError err2 \<and> \<not> isBusinessError err3 \<and>
     \<not> ctxDone 0 \<and> \<not> ctxDone 1 \<and> \<not> ctxDone 2 \<longrightarrow> process cmd ctxDone e w = reverse err3 w3)"
  using assms(1)
  by (auto simp: assms(2,3) process_def creditRetries_def eval_nat_numeral split: prod.split option.split)

text \<open>Commands that count the calls; the credit times out.\<close>

definition down_commands :: "nat Commands" where
  "down_commands = \<lparr>cmdCreditTransfer = (\<lambda>i to tid from n w. (Some DeadlineExceeded, Suc w)),
     cmdReverseTransfer = (\<lambda>from tid n reason w. (None, w + 10))\<rparr>"

theorem failed_credit_is_reversed_witness:
  "process down_commands (\<lambda>_. False) ana_debit 0 = (Compensated DeadlineExceeded, 13)"
  using failed_credit_is_reversed [OF ana_debit_values(2) refl refl, where cmd = down_commands and w = 0
      and ?err1.0 = DeadlineExceeded and ?err2.0 = DeadlineExceeded and ?err3.0 = DeadlineExceeded
      and ?w1.0 = 1 and ?w2.0 = 2 and ?w3.0 = 3 and ctxDone = "\<lambda>_. False"]
  by (simp add: down_commands_def isBusinessError_def)

end
