(* ===== verification/Postgres_App.thy ===== *)
theory Postgres_App
  imports Postgres_Store Sample_Server Concurrency Saga
begin

text \<open>
  Properties of the event store on Postgres and of the commands and the saga over it. The
  facts come from the contract of \<^verbatim>\<open>Store\<close>, which \<^verbatim>\<open>Postgres_Store\<close> derives for every server that
  meets \<^const>\<open>postgres_server\<close>; the examples run on the server of \<^verbatim>\<open>Sample_Server\<close>.
\<close>

section \<open>The sample database\<close>

definition healthy_server :: server where
  "healthy_server = sample_server (\<lambda>_. Works)"

definition stored_row :: "Event \<Rightarrow> EventRow" where
  "stored_row e = \<lparr>evSeq = eSeq e, evEventID = eID e, evAggregateID = eAggregateID e, evVersion = eVersion e,
     evType = eType e, evData = projr (sample_jsonb_in (eData e)), evOccurredAt = eOccurredAt e\<rparr>"

definition pg_two_accounts :: DB where
  "pg_two_accounts = empty_DB\<lparr>events := map stored_row [ana_opened, ana_deposit, bea_opened, bea_deposit], sequence := 4\<rparr>"

lemma stored_row_events:
  "row_event (stored_row ana_opened) = ana_opened" "row_event (stored_row ana_deposit) = ana_deposit"
  "row_event (stored_row bea_opened) = bea_opened" "row_event (stored_row bea_deposit) = bea_deposit"
  by code_simp+

lemma stored_row_aggregate [simp]:
  "evAggregateID (stored_row ana_opened) = ana" "evAggregateID (stored_row ana_deposit) = ana"
  "evAggregateID (stored_row bea_opened) = bea" "evAggregateID (stored_row bea_deposit) = bea"
  "evVersion (stored_row ana_opened) = 1" "evVersion (stored_row ana_deposit) = 2"
  "evVersion (stored_row bea_opened) = 1" "evVersion (stored_row bea_deposit) = 2"
  by (simp_all add: stored_row_def ana_opened_def ana_deposit_def bea_opened_def bea_deposit_def)

lemma pg_two_accounts_rows:
  "pg_rows pg_two_accounts g = (if g = ana then [stored_row ana_opened, stored_row ana_deposit]
     else if g = bea then [stored_row bea_opened, stored_row bea_deposit] else [])"
  by (simp add: pg_rows_def pg_two_accounts_def empty_DB_def)

lemma pg_two_accounts_stream: "pg_stream pg_two_accounts = mem_stream two_accounts"
  by (simp add: fun_eq_iff pg_stream_def pg_two_accounts_rows stored_row_events two_accounts_stream)

lemma sample_valid: "pg_valid (sample_server flt) ana" "pg_valid (sample_server flt) bea"
proof -
  have "sample_uuid_in ana = Some ana" "sample_uuid_in bea = Some bea" by code_simp+
  then show "pg_valid (sample_server flt) ana" "pg_valid (sample_server flt) bea"
    by (simp_all add: pg_valid_def sample_server_def)
qed

lemma pg_two_accounts_inv: "pg_inv (sample_server flt) pg_two_accounts"
  using sample_valid [of flt]
  by (auto simp: pg_inv_def rows_ok_def pg_two_accounts_rows history_limit_def)
    (auto simp: pg_two_accounts_def empty_DB_def)

section \<open>Snapshots are an optimisation\<close>

lemma exec_works: "faults srv (ticks db) = Works \<Longrightarrow> exec srv stmt db = stmt (tick db)"
  by (simp add: exec_def)

lemma query_events_works:
  "faults srv (ticks db) = Works \<Longrightarrow> stmt (tick db) = (Inr rows, db') \<Longrightarrow>
     query_events srv what stmt db = (Inr (map row_event rows), db')"
  by (simp add: query_events_def scanEvents_def)

lemma load_base_works:
  assumes "pg_inv srv db" and "uuid_in srv aggID = Some g"
  shows "\<exists>base. pg_load_base (fst (select_snapshot srv aggID db)) = Inr base"
proof (cases "snapshots db g")
  case None
  then show ?thesis using assms(2) by (simp add: select_snapshot_def uuid_param_def pg_load_base_def)
next
  case (Some sn)
  then have "snapshot_ok (pg_stream db g) sn" using assms(1) by (simp add: pg_inv_def)
  then show ?thesis
    using Some assms(2) by (auto simp: select_snapshot_def uuid_param_def pg_load_base_def snapshot_ok_def)
qed

text \<open>
  C25. Loading with a snapshot is loading without: on a server that answers both queries of
  \<open>Load\<close>, the result is the full replay of the stream as it is at the second query, and
  \<open>ErrAccountNotFound\<close> if there is no event, whatever snapshot there is and whatever other
  connections append or snapshot between the two queries.
\<close>

theorem pg_load_equals_replay:
  assumes "pg_inv srv db" and "only_grows srv db (mid (tick db))" and "uuid_in srv aggID = Some g"
    and "faults srv (ticks db) = Works" and "faults srv (ticks (mid (tick db))) = Works"
  shows "fst (pg_Load srv mid db aggID) =
    (if pg_stream (mid (tick db)) g = [] then Inl ErrAccountNotFound
     else Replay zero_Account (pg_stream (mid (tick db)) g))"
proof -
  let ?m = "mid (tick db)"
  have ex: "exec srv (select_snapshot srv aggID) db = (fst (select_snapshot srv aggID (tick db)), tick db)"
    using reads_select(1) [of srv aggID] by (simp add: exec_works [OF assms(4)] reads_def prod_eq_iff)
  have inv: "pg_inv srv (tick db)" using assms(1) pg_inv_same [of "tick db" db] by simp
  obtain base where b: "pg_load_base (fst (select_snapshot srv aggID (tick db))) = Inr base"
    using load_base_works [OF inv assms(3)] by blast
  obtain n where n: "n \<le> length (pg_stream db g)" "Version base = of_nat n"
      "Replay zero_Account (take n (pg_stream db g)) = Inr base"
    using load_base_value [OF ex b assms(1,3)] by blast
  obtain fs where fs: "pg_stream ?m g = pg_stream db g @ fs" and r: "rows_ok srv ?m"
    using assms(2) unfolding only_grows_def pg_inv_def by blast
  have n': "n \<le> length (pg_rows ?m g)" "Replay zero_Account (take n (pg_stream ?m g)) = Inr base"
  proof -
    have "length (pg_rows ?m g) = length (pg_stream db g) + length fs"
      using fs by (metis length_append length_map pg_stream_def)
    then show "n \<le> length (pg_rows ?m g)" using n(1) by simp
    show "Replay zero_Account (take n (pg_stream ?m g)) = Inr base" using n fs by simp
  qed
  have "select_after srv aggID (Version base) (tick ?m) = (Inr (drop n (pg_rows ?m g)), tick ?m)"
    using select_after_rows [OF r n'(1)] assms(3) n(2) by (simp add: select_after_def uuid_param_def)
  then have q: "query_events srv ''load events'' (select_after srv aggID (Version base)) ?m =
      (Inr (drop n (pg_stream ?m g)), tick ?m)"
    using query_events_works [OF assms(5)] by (simp add: pg_stream_def drop_map)
  have "n \<le> history_limit" using n'(1) r unfolding rows_ok_def by (metis le_trans)
  then have v0: "Version base = 0 \<longleftrightarrow> n = 0"
    using n(2) of_nat_int64_eq [of n 0] by (auto simp: history_limit_def)
  have "Replay base (drop n (pg_stream ?m g)) = Replay zero_Account (pg_stream ?m g)"
    using Replay_append [of zero_Account "take n (pg_stream ?m g)" "drop n (pg_stream ?m g)"] n'(2) by simp
  then show ?thesis
    using ex b q v0 n'(1) by (auto simp: pg_Load_def pg_load_rest_def pg_stream_def)
qed

text \<open>The sample database with a snapshot of \<open>ana\<close>; before the second query a transfer of \<open>ana\<close> is appended.\<close>

definition pg_snapshotted :: DB where
  "pg_snapshotted = saveSnapshot healthy_server (\<lambda>d. d) ana pg_two_accounts"

definition debit_meanwhile :: "DB \<Rightarrow> DB" where
  "debit_meanwhile db = snd (pg_Append healthy_server db ana 2 [ana_debit])"

lemma healthy_postgres: "postgres_server healthy_server"
  unfolding healthy_server_def by (rule sample.postgres_server_axioms)

lemma pg_snapshotted_inv: "pg_inv healthy_server pg_snapshotted"
  unfolding pg_snapshotted_def
  by (intro postgres_server.saveSnapshot_inv [OF healthy_postgres] only_grows_id)
    (simp_all add: healthy_server_def pg_two_accounts_inv)

lemma pg_snapshotted_stream: "pg_stream pg_snapshotted = mem_stream two_accounts"
  using pg_stream_same [OF saveSnapshot_events [of healthy_server ana pg_two_accounts]]
  by (simp add: pg_snapshotted_def pg_two_accounts_stream)

lemma ana_debit_encoded: "encoded ana_debit"
  unfolding encoded_def
  by (intro exI [of _ "PTransferDebited \<lparr>tdTransferID = sample_tid, tdTo = bea, tdAmount = 30\<rparr>"]) (simp add: ana_debit_def)

lemma debit_meanwhile_grows: "only_grows healthy_server pg_snapshotted (debit_meanwhile (tick pg_snapshotted))"
proof -
  obtain r db' where a: "pg_Append healthy_server (tick pg_snapshotted) ana (of_nat 2) [ana_debit] = (r, db')"
    by (metis surj_pair)
  have st: "pg_stream (tick pg_snapshotted) = mem_stream two_accounts"
    using pg_stream_same [of "tick pg_snapshotted" pg_snapshotted] pg_snapshotted_stream by simp
  have "pg_inv healthy_server (tick pg_snapshotted)"
    using pg_snapshotted_inv pg_inv_same [of "tick pg_snapshotted" pg_snapshotted] by simp
  moreover have "continues ana (of_nat 2) [ana_debit]" by (simp add: continues_Cons ana_debit_def)
  ultimately have "pg_inv healthy_server db'"
    using postgres_server.pg_Append_atomic [OF healthy_postgres _ _ _ _ _ _ _ a] sample_valid
    by (auto simp: st two_accounts_stream history_limit_def ana_debit_encoded healthy_server_def)
  moreover have "\<exists>fs. pg_stream db' g = pg_stream pg_snapshotted g @ fs" for g
    using pg_Append_only [OF a] st pg_snapshotted_stream by simp
  ultimately show ?thesis using a by (simp add: only_grows_def debit_meanwhile_def)
qed

theorem pg_load_equals_replay_witness:
  "snapshots pg_snapshotted ana \<noteq> None \<and>
   fst (pg_Load healthy_server debit_meanwhile pg_snapshotted ana) =
     Inr \<lparr>aID = ana, Owner = ''ana'', Balance = 70, Open = True, Version = 3\<rparr>"
proof -
  have "snapshots pg_snapshotted ana \<noteq> None"
    "pg_stream (debit_meanwhile (tick pg_snapshotted)) ana \<noteq> []"
    "Replay zero_Account (pg_stream (debit_meanwhile (tick pg_snapshotted)) ana) =
       Inr \<lparr>aID = ana, Owner = ''ana'', Balance = 70, Open = True, Version = 3\<rparr>"
    by code_simp+
  moreover have "uuid_in healthy_server ana = Some ana"
    using sample_valid(1) by (simp add: pg_valid_def healthy_server_def)
  ultimately show ?thesis
    using pg_load_equals_replay [where mid = debit_meanwhile, OF pg_snapshotted_inv debit_meanwhile_grows, of ana ana]
    by (simp add: healthy_server_def sample_server_def)
qed

section \<open>Optimistic locking by the unique constraint\<close>

text \<open>The server takes the row of \<open>e\<close> if it collides with none.\<close>

definition insertable :: "server \<Rightarrow> Event \<Rightarrow> bool" where
  "insertable srv e \<longleftrightarrow> uuid_in srv (eID e) \<noteq> None \<and> (\<exists>v. jsonb_in srv (eData e) = Inr v)"

definition fresh_ids :: "server \<Rightarrow> DB \<Rightarrow> Event list \<Rightarrow> bool" where
  "fresh_ids srv db es \<longleftrightarrow> distinct (map (\<lambda>e. uuid_in srv (eID e)) es) \<and>
     (\<forall>e \<in> set es. \<forall>r \<in> set (events db). uuid_in srv (eID e) \<noteq> Some (evEventID r))"

lemma insert_event_conflict:
  assumes "insertable srv e" and "uuid_in srv (eAggregateID e) = Some g" and "0 < sint (eVersion e)"
    and "sequence db \<noteq> 9223372036854775807"
    and "r \<in> set (events db)" and "evAggregateID r = g" and "evVersion r = eVersion e"
  shows "\<exists>c db'. insert_event srv e db = (Inl (unique_violation c), db')"
  using assms by (auto simp: insertable_def insert_event_def uuid_param_def list_ex_iff Let_def)

lemma insert_event_fresh:
  assumes "insertable srv e" and "uuid_in srv (eAggregateID e) = Some g" and "0 < sint (eVersion e)"
    and "sequence db \<noteq> 9223372036854775807" and "fresh_ids srv db [e]"
    and "\<And>r. r \<in> set (events db) \<Longrightarrow> evAggregateID r = g \<Longrightarrow> evVersion r \<noteq> eVersion e"
  shows "\<exists>db'. insert_event srv e db = (Inr (), db') \<and> sequence db' = sequence db + 1"
  using assms by (auto simp: insertable_def fresh_ids_def insert_event_def uuid_param_def list_ex_iff Let_def)

lemma fresh_ids_step:
  assumes "fresh_ids srv db (e # es)" and "events db' = events db @ [r]" and "inserted srv old e r"
  shows "fresh_ids srv db [e] \<and> fresh_ids srv db' es"
proof -
  have "uuid_in srv (eID e) = Some (evEventID r)" using assms(3) by (simp add: inserted_def)
  with assms(1,2) show ?thesis by (auto simp: fresh_ids_def image_iff)
qed

lemma pg_insert_loop_works:
  assumes "\<And>t. faults srv t = Works"
  shows "continues aggID (of_nat (n + i)) es \<Longrightarrow> uuid_in srv aggID = Some g \<Longrightarrow> list_all (insertable srv) es \<Longrightarrow>
    fresh_ids srv db es \<Longrightarrow> n + i + length es \<le> history_limit \<Longrightarrow>
    sint (sequence db) + int (length es) \<le> 9223372036854775807 \<Longrightarrow>
    (\<And>r. r \<in> set (events db) \<Longrightarrow> evAggregateID r = g \<Longrightarrow> sint (evVersion r) \<le> int (n + i)) \<Longrightarrow>
    \<exists>db'. pg_insert_loop srv aggID (of_nat n) i es db = (None, db')"
proof (induction es arbitrary: i db)
  case (Cons e es)
  have e: "eAggregateID e = aggID" "eVersion e = of_nat (Suc (n + i))" "continues aggID (of_nat (n + Suc i)) es"
    using Cons.prems(1) by (simp_all add: continues_Cons algebra_simps)
  have ve: "sint (eVersion e) = int (Suc (n + i))"
    unfolding e(2) using Cons.prems(5) by (intro sint64_of_nat) (simp add: history_limit_def)
  have sq: "sint (sequence db) < 9223372036854775807" using Cons.prems(6) by simp
  then have sq': "sequence db \<noteq> 9223372036854775807" by auto
  have fr: "fresh_ids srv (tick db) [e]" using Cons.prems(4) by (auto simp: fresh_ids_def)
  have nov: "evVersion r \<noteq> eVersion e" if "r \<in> set (events (tick db))" "evAggregateID r = g" for r
    using Cons.prems(7) [of r] that ve by fastforce
  have "insertable srv e" "0 < sint (eVersion e)" "sequence (tick db) \<noteq> 9223372036854775807"
    using Cons.prems(3) ve sq' by simp_all
  from insert_event_fresh [OF this(1) _ this(2,3) fr nov] Cons.prems(2) e(1)
  obtain db1 where ins: "insert_event srv e (tick db) = (Inr (), db1)" "sequence db1 = sequence db + 1" by auto
  then have x: "exec srv (insert_event srv e) db = (Inr (), db1)" by (simp add: exec_works assms)
  from exec_insert_ok(1) [OF x] obtain r where r: "events db1 = events db @ [r]" "inserted srv (events db) e r" by blast
  have "\<exists>db'. pg_insert_loop srv aggID (of_nat n) (Suc i) es db1 = (None, db')"
  proof (rule Cons.IH [OF e(3) Cons.prems(2)])
    show "list_all (insertable srv) es" using Cons.prems(3) by simp
    show "fresh_ids srv db1 es" using fresh_ids_step [OF Cons.prems(4) r] by simp
    show "n + Suc i + length es \<le> history_limit" using Cons.prems(5) by simp
    show "sint (sequence db1) + int (length es) \<le> 9223372036854775807"
      using Cons.prems(6) sint_step [OF sq'] ins(2) by simp
    show "sint (evVersion q) \<le> int (n + Suc i)" if "q \<in> set (events db1)" "evAggregateID q = g" for q
      using that Cons.prems(7) [of q] r ve by (auto simp: inserted_def)
  qed
  then show ?case using x e by (simp add: Let_def add.assoc)
qed simp

lemma pg_Append_works:
  assumes "\<And>t. faults srv t = Works" and "pg_inv srv db" and "pg_valid srv aggID"
    and "continues aggID (of_nat (length (pg_stream db aggID))) es"
    and "list_all (insertable srv) es" and "fresh_ids srv db es" and "length (pg_stream db aggID) + length es \<le> history_limit"
    and "sint (sequence db) + int (length es) \<le> 9223372036854775807"
  shows "fst (pg_Append srv db aggID (of_nat (length (pg_stream db aggID))) es) = None"
proof -
  let ?n = "length (pg_stream db aggID)"
  have "sint (evVersion r) \<le> int ?n" if "r \<in> set (events (tick db))" "evAggregateID r = aggID" for r
  proof -
    have "r \<in> set (pg_rows db aggID)" using that by (simp add: pg_rows_def)
    then obtain k where "k < length (pg_rows db aggID)" "pg_rows db aggID ! k = r" by (auto simp: in_set_conv_nth)
    with rows_ok_version(2) [of srv db k aggID] assms(2) show ?thesis by (auto simp: pg_inv_def pg_stream_def)
  qed
  moreover have "fresh_ids srv (tick db) es" using assms(6) by (simp add: fresh_ids_def)
  ultimately have "\<exists>db'. pg_insert_loop srv aggID (of_nat ?n) 0 es (tick db) = (None, db')"
    using assms(3-5,7,8) by (intro pg_insert_loop_works [OF assms(1), where g = aggID]) (simp_all add: pg_valid_def)
  moreover have "BeginTx srv db = (Inr (), tick db)" by (simp add: BeginTx_def exec_works assms(1))
  ultimately show ?thesis by (auto simp: pg_Append_def Commit_def assms(1) split: prod.split option.split)
qed

lemma pg_Append_conflict:
  assumes "faults srv (ticks db) = Works" and "faults srv (Suc (ticks db)) = Works"
    and "pg_inv srv db" and "pg_valid srv aggID" and "n < length (pg_stream db aggID)"
    and "continues aggID (of_nat n) (e # es)" and "insertable srv e" and "sequence db \<noteq> 9223372036854775807"
  shows "fst (pg_Append srv db aggID (of_nat n) (e # es)) = Some ErrConcurrency"
proof -
  have k: "n < length (pg_rows db aggID)" using assms(5) by (simp add: pg_stream_def)
  have e: "eAggregateID e = aggID" "eVersion e = of_nat n + 1" using assms(6) by (simp_all add: continues_Cons)
  have rok: "rows_ok srv db" using assms(3) by (simp add: pg_inv_def)
  let ?r = "pg_rows db aggID ! n"
  have r: "?r \<in> set (events (tick (tick db)))" "evAggregateID ?r = aggID"
    using nth_mem [OF k] by (auto simp: pg_rows_def)
  have v: "evVersion ?r = eVersion e" "0 < sint (eVersion e)"
    using rows_ok_version(1,2) [OF rok k] e(2) by (simp_all add: add.commute)
  obtain c db' where ins: "insert_event srv e (tick (tick db)) = (Inl (unique_violation c), db')"
    using insert_event_conflict [OF assms(7) _ v(2) _ r v(1)] assms(4,8) e(1) by (auto simp: pg_valid_def)
  have "exec srv (insert_event srv e) (tick db) = (Inl (unique_violation c), db')"
    using assms(2) ins by (simp add: exec_def)
  moreover have "BeginTx srv db = (Inr (), tick db)" using assms(1) by (simp add: BeginTx_def exec_works)
  ultimately show ?thesis using e by (simp add: pg_Append_def Let_def unique_violation_def)
qed

text \<open>
  C24. The append on Postgres, with any pattern of failing statements, lost answers and lost
  connections: the invariant (consecutive versions, snapshots that are replays) is kept; the
  batch is written whole or not at all, and only at the version the writer has read; a
  success means it was written. When the server answers, an outdated version gives
  \<open>ErrConcurrency\<close> and a current one succeeds.
\<close>

theorem pg_append_contract:
  assumes "postgres_server srv" and "pg_inv srv db" and "pg_valid srv aggID" and "n \<le> length (pg_stream db aggID)"
    and "es \<noteq> []" and "length (pg_stream db aggID) + length es \<le> history_limit" and "continues aggID (of_nat n) es"
    and "list_all encoded es" and "pg_Append srv db aggID (of_nat n) es = (r, db')"
  shows "pg_inv srv db' \<and>
    (r \<noteq> None \<and> pg_stream db' = pg_stream db \<or>
     n = length (pg_stream db aggID) \<and>
       (\<exists>fs. stamped es fs \<and> pg_stream db' = (pg_stream db)(aggID := pg_stream db aggID @ fs))) \<and>
    ((\<forall>t. faults srv t = Works) \<and> list_all (insertable srv) es \<and> fresh_ids srv db es \<and>
       sint (sequence db) + int (length es) \<le> 9223372036854775807 \<longrightarrow>
     r = (if n = length (pg_stream db aggID) then None else Some ErrConcurrency))"
proof (intro conjI impI)
  note atomic = postgres_server.pg_Append_atomic [OF assms]
  from atomic show "pg_inv srv db'" ..
  from atomic show "r \<noteq> None \<and> pg_stream db' = pg_stream db \<or> n = length (pg_stream db aggID) \<and>
      (\<exists>fs. stamped es fs \<and> pg_stream db' = (pg_stream db)(aggID := pg_stream db aggID @ fs))" ..
next
  assume w: "(\<forall>t. faults srv t = Works) \<and> list_all (insertable srv) es \<and> fresh_ids srv db es \<and>
       sint (sequence db) + int (length es) \<le> 9223372036854775807"
  show "r = (if n = length (pg_stream db aggID) then None else Some ErrConcurrency)"
  proof (cases "n = length (pg_stream db aggID)")
    case True
    then show ?thesis using pg_Append_works [of srv db aggID es] w assms(2,3,6,7,9) by simp
  next
    case False
    then have n: "n < length (pg_stream db aggID)" using assms(4) by simp
    obtain e es' where es: "es = e # es'" using assms(5) by (cases es) auto
    have "sequence db \<noteq> 9223372036854775807" using w es by auto
    with pg_Append_conflict [OF _ _ assms(2,3) n, of e es'] w assms(7,9) es False show ?thesis by simp
  qed
qed

definition pg_debited :: "error option \<times> DB" where
  "pg_debited = pg_Append healthy_server pg_two_accounts ana 2 [ana_debit]"

theorem pg_append_contract_witness:
  "fst pg_debited = None \<and> (\<exists>f. stored_as ana_debit f \<and>
     pg_stream (snd pg_debited) = (mem_stream two_accounts)(ana := mem_stream two_accounts ana @ [f]))"
proof -
  have "insertable healthy_server ana_debit" "fresh_ids healthy_server pg_two_accounts [ana_debit]"
    unfolding insertable_def fresh_ids_def
    by (simp add: healthy_server_def sample_server_def ana_debit_def sample_jsonb_in_def sample_uuid_in_def
        lower_hex_def hex_digits_def Let_def)
      (simp add: healthy_server_def sample_server_def ana_debit_def sample_uuid_in_def lower_hex_def hex_digits_def
        Let_def pg_two_accounts_def empty_DB_def stored_row_def ana_opened_def ana_deposit_def bea_opened_def bea_deposit_def)
  moreover have "\<forall>t. faults healthy_server t = Works" by (simp add: healthy_server_def sample_server_def)
  moreover have "sint (sequence pg_two_accounts) = 4" by (simp add: pg_two_accounts_def)
  moreover have "continues ana (of_nat 2) [ana_debit]" by (simp add: continues_Cons ana_debit_def)
  moreover have "length (mem_stream two_accounts ana) = 2" by (simp add: two_accounts_stream)
  moreover have "pg_inv healthy_server pg_two_accounts" "pg_valid healthy_server ana"
    using pg_two_accounts_inv sample_valid by (simp_all add: healthy_server_def)
  ultimately show ?thesis
    using pg_append_contract [OF healthy_postgres, of pg_two_accounts ana 2 "[ana_debit]" "fst pg_debited" "snd pg_debited"]
    by (auto simp: pg_debited_def pg_two_accounts_stream history_limit_def ana_debit_encoded stamped_Cons)
qed

section \<open>Concurrent commands on Postgres\<close>

context postgres_server
begin

lemma pg_event_store: "event_store (postgres_store srv) pg_stream (pg_inv srv) (pg_valid srv)"
  by unfold_locales

end

lemma pg_stream_length: "length (pg_stream db g) \<le> length (events db)"
  by (simp add: pg_stream_def pg_rows_def)

text \<open>
  C23. Concurrent commands on a database that fails: however any number of commands interleave and
  whichever statements fail, time out or lose their answer, every account whose stream is not
  empty replays as open, to the sum of its stream, never negative, with consecutive
  versions; and \<open>Load\<close> returns this account or an error, never another account.
\<close>

theorem pg_concurrent_balances:
  assumes "postgres_server srv" and "app_run (postgres_store srv) N job db0 x" and "pg_inv srv db0"
    and "ledger (pg_stream db0)" and "\<And>i. reversal_limited (snd (job i))"
    and "length (events (shared x)) + 2 \<le> history_limit" and "pg_stream (shared x) g \<noteq> []"
  shows "\<exists>a. Replay zero_Account (pg_stream (shared x) g) = Inr a \<and> aID a = g \<and> Open a \<and>
    sint (Balance a) = net (pg_stream (shared x) g) \<and> 0 \<le> sint (Balance a) \<and>
    Version a = of_nat (length (pg_stream (shared x) g)) \<and>
    (\<forall>r db'. pg_Load srv (\<lambda>d. d) (shared x) g = (r, db') \<longrightarrow> r = Inr a \<or> (\<exists>err. r = Inl err))"
proof -
  have bd: "bounded (pg_stream (shared x))"
    unfolding bounded_def using pg_stream_length assms(6) by (meson add_le_mono1 le_trans)
  have store: "event_store (postgres_store srv) pg_stream (pg_inv srv) (pg_valid srv)"
    using assms(1) by (rule postgres_server.pg_event_store)
  from event_store.app_run_safe [OF store assms(2-5) bd]
  have inv: "pg_inv srv (shared x)" and led: "ledger (pg_stream (shared x))"
    by (auto simp: event_store.safe_def [OF store])
  from ledgerD [OF led assms(7)] obtain a where a: "history (pg_stream (shared x) g) a" "aID a = g" by blast
  have "length (pg_stream (shared x) g) \<le> history_limit"
    using bd [unfolded bounded_def, rule_format, of g] by linarith
  note hb = history_balance [OF a(1) this] history_open [OF a(1)] history_Version [OF a(1)] history_Replay [OF a(1)]
  have gv: "uuid_in srv g = Some g"
    using postgres_server.pg_stream_valid [OF assms(1) inv assms(7)] by (simp add: pg_valid_def)
  have "r = Inr a \<or> (\<exists>err. r = Inl err)" if l: "pg_Load srv (\<lambda>d. d) (shared x) g = (r, db')" for r db'
  proof (cases r)
    case (Inr b)
    from pg_Load_db [OF l] have "pg_stream db' = pg_stream (shared x)" by (auto intro: pg_stream_same)
    with pg_Load_value [where mid = "\<lambda>d. d", OF l [unfolded Inr] inv only_grows_id [OF inv]] gv hb show ?thesis
      using Inr by auto
  qed simp
  with hb a(2) show ?thesis by (intro exI [of _ a]) simp
qed

text \<open>The race of \<^const>\<open>race_job\<close> on Postgres; the commit of the first writer loses its answer.\<close>

definition losing_commit :: "nat \<Rightarrow> fault" where
  "losing_commit t = (if t = 6 then Lost (Errorf ''driver: bad connection'') else Works)"

definition pg_race :: "DB sys" where
  "pg_race = execute (postgres_store (sample_server losing_commit)) 2 race_job pg_two_accounts race"

lemma pg_race_values:
  "length (events (shared pg_race)) = 5" "pg_stream (shared pg_race) ana \<noteq> []"
  "pcs pg_race 0 = Finished (Some (Wrapf ''commit'' (Errorf ''driver: bad connection'')))"
  "pcs pg_race 1 = Finished (Some ErrInsufficientFunds)"
  by code_simp+

theorem pg_concurrent_balances_witness:
  "\<exists>a. Replay zero_Account (pg_stream (shared pg_race) ana) = Inr a \<and> 0 \<le> sint (Balance a)"
proof -
  have run: "app_run (postgres_store (sample_server losing_commit)) 2 race_job pg_two_accounts pg_race"
    unfolding pg_race_def by (rule execute_run)
  have led: "ledger (pg_stream pg_two_accounts)" using two_accounts_ok(2) by (simp add: pg_two_accounts_stream)
  show ?thesis
    using pg_concurrent_balances [OF sample.postgres_server_axioms run pg_two_accounts_inv led race_limited, of ana]
      pg_race_values(1,2) by (auto simp: history_limit_def)
qed

section \<open>A credit whose commit is not reported\<close>

definition flaky :: "nat \<Rightarrow> fault" where
  "flaky t = (if t = 5 then Lost (Errorf ''driver: bad connection'')
     else if t = 6 \<or> t = 7 then Fails (Errorf ''driver: bad connection'') else Works)"

definition pg_transfer_started :: DB where
  "pg_transfer_started = pg_two_accounts\<lparr>events := events pg_two_accounts @ [stored_row ana_debit], sequence := 5\<rparr>"

definition pg_delivered :: "saga_end \<times> DB \<times> Event list" where
  "pg_delivered = process (app_commands \<lparr>appStore = postgres_store (sample_server flaky), appPublish = (\<lambda>b e. b @ [e])\<rparr>
       (\<lambda>i. sample_env (20 + i)) (sample_env 30)) (\<lambda>_. False) ana_debit (pg_transfer_started, [])"

text \<open>
  C26. A transfer can be credited and reversed: the credit is committed but the answer of the commit
  is lost, the database stays away for the two further attempts, so the saga gives up and
  reverses. The log then holds the credit and the reversal of one transfer, and the two
  accounts together hold 180 where they held 150 before the transfer.
\<close>

theorem lost_commit_pays_twice:
  "fst pg_delivered = Compensated (Wrapf ''has transfer event'' (Errorf ''driver: bad connection'')) \<and>
   map evType (drop 5 (events (fst (snd pg_delivered)))) = [EventTransferCredited, EventTransferReversed] \<and>
   map (\<lambda>r. arrow_text healthy_server (evData r) ''transfer_id'') (drop 4 (events (fst (snd pg_delivered)))) =
     [Some sample_tid, Some sample_tid, Some sample_tid] \<and>
   net (pg_stream pg_two_accounts ana) + net (pg_stream pg_two_accounts bea) = 150 \<and>
   net (pg_stream (fst (snd pg_delivered)) ana) + net (pg_stream (fst (snd pg_delivered)) bea) = 180"
proof (intro conjI)
  show "fst pg_delivered = Compensated (Wrapf ''has transfer event'' (Errorf ''driver: bad connection''))" by code_simp
  show "map evType (drop 5 (events (fst (snd pg_delivered)))) = [EventTransferCredited, EventTransferReversed]" by code_simp
  show "map (\<lambda>r. arrow_text healthy_server (evData r) ''transfer_id'') (drop 4 (events (fst (snd pg_delivered)))) =
     [Some sample_tid, Some sample_tid, Some sample_tid]" by code_simp
  show "net (pg_stream pg_two_accounts ana) + net (pg_stream pg_two_accounts bea) = 150" by code_simp
  show "net (pg_stream (fst (snd pg_delivered)) ana) + net (pg_stream (fst (snd pg_delivered)) bea) = 180" by code_simp
qed

end
