(* ===== verification/Read_Model.thy ===== *)
theory Read_Model
  imports Projector Postgres_App App_Memory
begin

text \<open>
  The read models against the event store: the projected balance of an account is the balance
  its events replay to. The deliveries to the projector may come in any order, several times
  and with failures; what counts is which events are marked as processed.
\<close>

section \<open>Stored events\<close>

lemma history_opening:
  "history es a \<Longrightarrow> f \<in> set es \<Longrightarrow> eType f = EventAccountOpened \<Longrightarrow>
     \<exists>d. unmarshal_AccountOpened (eData f) = Inr d \<and> aoOwner d = Owner a \<and> signed_amount f = 0"
proof (induction rule: history.induct)
  case (opened d accID own e a f')
  have "\<exists>p. unmarshal_AccountOpened (eData e) = Inr p \<and> aoOwner p = TrimSpace own"
    using opened.hyps(1)
    by (auto simp: OpenAccount_def Let_def NewEvent_Inr simp del: marshal.simps split: if_splits dest!: unmarshal_marshal)
  moreover have "Owner a = TrimSpace own" using OpenAccount_ApplyD [OF opened.hyps(1,3)] by simp
  moreover have "unmarshal_AccountOpened (eData f') = unmarshal_AccountOpened (eData e)"
    using opened.hyps(4) by (simp add: stored_as_def same_payload_def)
  moreover have "signed_amount f' = 0"
    using signed_amount_stored [OF opened.hyps(4)] OpenAccount_event(4) [OF opened.hyps(1)] by simp
  moreover have "f = f'" using opened.prems by simp
  ultimately show ?case by simp
next
  case (decided es a d c e b f')
  have "eType f' \<noteq> EventAccountOpened" using decide_event(3) [OF decided.hyps(2)] decided.hyps(5)
    by (cases c) (auto simp: stored_as_def)
  then have "f \<in> set es" using decided.prems by auto
  moreover have "Owner b = Owner a" using decide_ApplyD [OF decided.hyps(2,4)] by simp
  ultimately show ?case using decided.IH decided.prems(2) by simp
qed

lemma posting_stored: "stored_as e f \<Longrightarrow> posting f = posting e"
  by (simp add: posting_def stored_as_def same_payload_def)

lemma decide_posting:
  assumes "decide d c a = Inr e"
  shows "posting e = Some (if cmd_delta c < 0 then - cmd_amount c else cmd_amount c)"
  using assms decide_event(7) [OF assms]
  by (cases c) (auto simp: decide_simps NewEvent_Inr posting_def cmd_delta_def simp del: marshal.simps
      split: if_splits dest!: unmarshal_marshal)

lemma sint_uminus: "0 < sint (n :: int64) \<Longrightarrow> sint (- n) = - sint n"
  using sint64_sub [of 0 n] sint64_upper [of n] by simp

text \<open>An event of a history is the opening or posts an amount within the limit.\<close>

definition posts :: "Event \<Rightarrow> bool" where
  "posts e \<longleftrightarrow> eType e \<noteq> EventAccountOpened \<and>
     (\<exists>w. posting e = Some w \<and> sint w = signed_amount e \<and> w \<noteq> 0 \<and> \<bar>signed_amount e\<bar> \<le> 100000000)"

lemma history_posts:
  assumes "history es a" and "f \<in> set es" and "eType f \<noteq> EventAccountOpened"
  shows "posts f"
proof -
  obtain d c acc e where e: "decide d c acc = Inr e" "reversal_limited c" "stored_as e f"
    using history_member [OF assms] by blast
  note amount = decide_event(7) [OF e(1)]
  have delta: "cmd_delta c = sint (cmd_amount c) \<or> cmd_delta c = - sint (cmd_amount c)"
    by (cases c) (auto simp: cmd_delta_def)
  have sg: "signed_amount f = cmd_delta c"
    using decide_signed_amount [OF e(1)] signed_amount_stored [OF e(3)] by simp
  have "posting f = Some (if cmd_delta c < 0 then - cmd_amount c else cmd_amount c)"
    using decide_posting [OF e(1)] posting_stored [OF e(3)] by simp
  moreover have "sint (if cmd_delta c < 0 then - cmd_amount c else cmd_amount c) = cmd_delta c"
    using delta amount sint_uminus [OF amount] by auto
  moreover have "\<bar>cmd_delta c\<bar> \<le> 100000000" using decide_delta_bounds [OF e(1,2)] by auto
  moreover have "(if cmd_delta c < 0 then - cmd_amount c else cmd_amount c) \<noteq> 0" using amount by auto
  ultimately show ?thesis using assms(3) sg unfolding posts_def by simp
qed

section \<open>The relation between read models and events\<close>

definition opening_of :: "Event list \<Rightarrow> string set \<Rightarrow> string \<Rightarrow> string \<Rightarrow> bool" where
  "opening_of E P g owner \<longleftrightarrow> (\<exists>e \<in> set E. \<exists>d. eAggregateID e = g \<and> eType e = EventAccountOpened \<and> eID e \<in> P \<and>
     unmarshal_AccountOpened (eData e) = Inr d \<and> aoOwner d = owner)"

definition counted :: "Event list \<Rightarrow> string set \<Rightarrow> string \<Rightarrow> int" where
  "counted E P g = net (filter (\<lambda>e. eAggregateID e = g \<and> eID e \<in> P) E)"

definition views_of :: "Event list \<Rightarrow> DB \<Rightarrow> bool" where
  "views_of E db \<longleftrightarrow>
     (\<forall>g. balances db g = None \<longrightarrow> (\<forall>e \<in> set E. eAggregateID e = g \<longrightarrow> eID e \<notin> processed db)) \<and>
     (\<forall>g row. balances db g = Some row \<longrightarrow> brOpen row \<and> sint (brBalance row) = counted E (processed db) g \<and>
         opening_of E (processed db) g (brOwner row))"

text \<open>The events of a store: unique ids in normal form, openings that decode and amounts that post.\<close>

definition stored_ok :: "server \<Rightarrow> Event list \<Rightarrow> bool" where
  "stored_ok srv E \<longleftrightarrow> distinct (map eID E) \<and>
     (\<forall>e \<in> set E. uuid_in srv (eID e) = Some (eID e) \<and> uuid_in srv (eAggregateID e) = Some (eAggregateID e) \<and>
        (eType e = EventAccountOpened \<and> signed_amount e = 0 \<and> (\<exists>d. unmarshal_AccountOpened (eData e) = Inr d) \<or> posts e))"

lemma counted_insert:
  assumes "distinct (map eID E)" and "e \<in> set E" and "eID e \<notin> P"
  shows "counted E (insert (eID e) P) g = counted E P g + (if eAggregateID e = g then signed_amount e else 0)"
proof -
  obtain xs ys where E: "E = xs @ e # ys" using split_list [OF assms(2)] by blast
  have "eID e \<notin> eID ` (set xs \<union> set ys)" using assms(1) E by auto
  then have ne: "eID x \<noteq> eID e" if "x \<in> set xs \<union> set ys" for x using that by (metis image_eqI)
  have "filter (\<lambda>x. eAggregateID x = g \<and> eID x \<in> insert (eID e) P) zs =
      filter (\<lambda>x. eAggregateID x = g \<and> eID x \<in> P) zs" if "set zs \<subseteq> set xs \<union> set ys" for zs
    using ne that by (intro filter_cong) auto
  then show ?thesis using assms(3) by (simp add: counted_def E)
qed

lemma opening_of_insert: "opening_of E P g own \<Longrightarrow> opening_of E (insert i P) g own"
  by (auto simp: opening_of_def)

lemma views_of_same: "same_views db db' \<Longrightarrow> views_of E db' = views_of E db"
  by (simp add: same_views_def views_of_def cong: conj_cong)

lemma views_ofD_None: "views_of E db \<Longrightarrow> balances db g = None \<Longrightarrow> e \<in> set E \<Longrightarrow> eAggregateID e = g \<Longrightarrow> eID e \<notin> processed db"
  by (simp add: views_of_def)

lemma views_ofD_Some: "views_of E db \<Longrightarrow> balances db g = Some row \<Longrightarrow>
    brOpen row \<and> sint (brBalance row) = counted E (processed db) g \<and> opening_of E (processed db) g (brOwner row)"
  unfolding views_of_def by blast

lemma views_ofI:
  "(\<And>g e. balances db g = None \<Longrightarrow> e \<in> set E \<Longrightarrow> eAggregateID e = g \<Longrightarrow> eID e \<notin> processed db) \<Longrightarrow>
   (\<And>g row. balances db g = Some row \<Longrightarrow> brOpen row \<and> sint (brBalance row) = counted E (processed db) g \<and>
      opening_of E (processed db) g (brOwner row)) \<Longrightarrow> views_of E db"
  unfolding views_of_def by blast

lemma id_unique: "distinct (map eID E) \<Longrightarrow> x \<in> set E \<Longrightarrow> e \<in> set E \<Longrightarrow> eID x = eID e \<Longrightarrow> x = e"
  by (auto simp: distinct_map dest: inj_onD)

text \<open>An event of the store that is applied: marked before, its effect after.\<close>

lemma applied_opening:
  assumes "views_of E db" and "stored_ok srv E" and "e \<in> set E" and "eType e = EventAccountOpened"
    and "eID e \<notin> processed db" and "processed db2 = insert (eID e) (processed db)" and "balances db2 = balances db"
    and "opened_view srv e db2 db3"
  shows "views_of E db3"
proof -
  let ?g = "eAggregateID e"
  have e: "uuid_in srv ?g = Some ?g" "signed_amount e = 0" "distinct (map eID E)"
    using assms(2-4) by (auto simp: stored_ok_def posts_def)
  have cnt: "counted E (insert (eID e) (processed db)) h = counted E (processed db) h" for h
    using counted_insert [OF e(3) assms(3,5)] e(2) by simp
  obtain d where d: "unmarshal_AccountOpened (eData e) = Inr d" "processed db3 = insert (eID e) (processed db)"
      "balances db ?g \<noteq> None \<and> balances db3 = balances db \<or> balances db ?g = None \<and>
       (\<exists>row. balances db3 = (balances db)(?g \<mapsto> row) \<and> brOwner row = aoOwner d \<and> brBalance row = 0 \<and> brOpen row)"
    using assms(6-8) e(1) unfolding opened_view_def by auto
  have op: "opening_of E (processed db3) ?g (aoOwner d)"
    using assms(3,4) d(1,2) by (auto simp: opening_of_def)
  have other: "counted E (processed db) ?g = 0" if "balances db ?g = None"
    using views_ofD_None [OF assms(1) that] by (auto simp: counted_def filter_empty_conv)
  show ?thesis
  proof (rule views_ofI)
    fix h x assume x: "balances db3 h = None" "x \<in> set E" "eAggregateID x = h"
    then have h: "balances db h = None" "h \<noteq> ?g" using d(3) by (auto split: if_splits)
    then have "eID x \<noteq> eID e" using id_unique [OF e(3) x(2) assms(3)] x(3) by auto
    with x h(1) show "eID x \<notin> processed db3" using d(2) views_ofD_None [OF assms(1)] by auto
  next
    fix h row assume "balances db3 h = Some row"
    then show "brOpen row \<and> sint (brBalance row) = counted E (processed db3) h \<and> opening_of E (processed db3) h (brOwner row)"
      using d(2,3) views_ofD_Some [OF assms(1), of h] cnt op other opening_of_insert
      by (auto split: if_splits)
  qed
qed

lemma applied_posting:
  assumes "views_of E db" and "stored_ok srv E" and "e \<in> set E" and "posting e = Some w" and "posts e"
    and "eID e \<notin> processed db" and "processed db2 = insert (eID e) (processed db)" and "balances db2 = balances db"
    and "posted srv e w db2 db3"
  shows "views_of E db3"
proof -
  let ?g = "eAggregateID e"
  have e: "uuid_in srv ?g = Some ?g" "distinct (map eID E)" "sint w = signed_amount e"
    using assms(2-5) by (auto simp: stored_ok_def posts_def)
  obtain d1 d2 where post: "bumped srv e w db2 d1" "noted srv e w d1 d2" "same_views d2 db3"
    using assms(9) unfolding posted_def by blast
  have d2: "processed d2 = processed d1" "balances d2 = balances d1" using post(2) unfolding noted_def by blast+
  obtain row where row: "balances db ?g = Some row" "sint (brBalance row + w) = sint (brBalance row) + sint w"
      "processed db3 = insert (eID e) (processed db)"
      "balances db3 = (balances db)(?g \<mapsto> row\<lparr>brBalance := brBalance row + w, brLastVersion := eVersion e,
         brUpdatedAt := timestamp_in srv (eOccurredAt e)\<rparr>)"
    using post(1,3) d2 assms(7,8) e(1) by (auto simp: bumped_def same_views_def sint64_add)
  define row' where "row' = row\<lparr>brBalance := brBalance row + w, brLastVersion := eVersion e,
    brUpdatedAt := timestamp_in srv (eOccurredAt e)\<rparr>"
  have row': "balances db3 = (balances db)(?g \<mapsto> row')" "brBalance row' = brBalance row + w"
      "brOwner row' = brOwner row" "brOpen row' = brOpen row" using row(4) by (simp_all add: row'_def)
  note cnt = counted_insert [OF e(2) assms(3,6)]
  show ?thesis
  proof (rule views_ofI)
    fix h x assume x: "balances db3 h = None" "x \<in> set E" "eAggregateID x = h"
    then have "eID x \<noteq> eID e" using row'(1) id_unique [OF e(2) x(2) assms(3)] by (auto split: if_splits)
    with x show "eID x \<notin> processed db3"
      using row(3) row'(1) views_ofD_None [OF assms(1)] by (auto split: if_splits)
  next
    fix h rw assume "balances db3 h = Some rw"
    then show "brOpen rw \<and> sint (brBalance rw) = counted E (processed db3) h \<and> opening_of E (processed db3) h (brOwner rw)"
      using row(1-3) row' e(3) cnt [of h] views_ofD_Some [OF assms(1), of h] opening_of_insert by (auto split: if_splits)
  qed
qed

lemma proj_Handle_views:
  assumes "views_of E db" and "stored_ok srv E" and "e \<in> set E"
  shows "views_of E (proj_Handle srv e db)"
proof -
  obtain r db' where a: "proj_Apply srv e db = (r, db')" by (metis surj_pair)
  then have "views_of E db'"
  proof (cases rule: proj_Apply_cases)
    case unchanged
    then show ?thesis using assms(1) views_of_same by simp
  next
    case (applied i db2 db3)
    have i: "i = eID e" using assms(2,3) applied(1) by (simp add: stored_ok_def)
    have pr: "processed db2 = insert (eID e) (processed db)" "eID e \<notin> processed db" using applied(2,4) i by simp_all
    consider (op) "eType e = EventAccountOpened" "opened_view srv e db2 db3"
      | (po) w where "posting e = Some w" "posts e" "posted srv e w db2 db3"
      using applyEvent_ok [OF applied(3)] assms(2,3) by (auto simp: stored_ok_def posts_def posting_def)
    then have "views_of E db3"
    proof cases
      case op
      then show ?thesis using applied_opening [OF assms(1-3) _ pr(2,1) applied(5)] by blast
    next
      case (po w)
      then show ?thesis using applied_posting [OF assms(1-3) _ _ pr(2,1) applied(5)] by blast
    qed
    then show ?thesis using views_of_same [OF applied(7)] by simp
  qed
  then show ?thesis using a by (simp add: proj_Handle_def)
qed

section \<open>The projected account is the replayed account\<close>

definition stored_events :: "DB \<Rightarrow> Event list" where
  "stored_events db = map row_event (events db)"

definition no_views :: "DB \<Rightarrow> bool" where
  "no_views db \<longleftrightarrow> processed db = {} \<and> balances db = Map.empty \<and> statements db = [] \<and> transfers db = Map.empty"

lemma stream_stored: "pg_stream db g = filter (\<lambda>e. eAggregateID e = g) (stored_events db)"
  by (simp add: pg_stream_def pg_rows_def stored_events_def filter_map comp_def)

lemma stored_in_stream: "e \<in> set (stored_events db) \<Longrightarrow> e \<in> set (pg_stream db (eAggregateID e))"
  by (simp add: stream_stored)

lemma pg_stored_ok:
  assumes "pg_inv srv db" and "log_ok srv db" and "ledger (pg_stream db)"
  shows "stored_ok srv (stored_events db)"
  unfolding stored_ok_def
proof (intro conjI ballI)
  show "distinct (map eID (stored_events db))" using assms(2) by (simp add: log_ok_def stored_events_def comp_def)
  fix e assume e: "e \<in> set (stored_events db)"
  then obtain r where r: "r \<in> set (events db)" "e = row_event r" by (auto simp: stored_events_def)
  show "uuid_in srv (eID e) = Some (eID e)" using assms(2) r by (simp add: log_ok_def)
  show "uuid_in srv (eAggregateID e) = Some (eAggregateID e)"
    using assms(1) r by (simp add: pg_inv_def rows_ok_def pg_valid_def)
  note es = stored_in_stream [OF e]
  then obtain a where "history (pg_stream db (eAggregateID e)) a" using ledgerD [OF assms(3)] by (metis empty_iff list.set(1))
  from history_opening [OF this es] history_posts [OF this es]
  show "eType e = EventAccountOpened \<and> signed_amount e = 0 \<and> (\<exists>d. unmarshal_AccountOpened (eData e) = Inr d) \<or> posts e"
    by blast
qed

lemma no_views_of: "no_views db \<Longrightarrow> views_of E db"
  by (simp add: no_views_def views_of_def)

lemma fold_Handle_views:
  "views_of E db \<Longrightarrow> stored_ok srv E \<Longrightarrow> set ds \<subseteq> set E \<Longrightarrow> views_of E (fold (proj_Handle srv) ds db)"
  by (induction ds arbitrary: db) (auto intro: proj_Handle_views)

text \<open>
  C27. The read model refines the event store: whatever the projector has been handed (any
  selection of the stored events, in any order, with repetitions) and whichever of its
  statements failed, once all events of an account are marked as processed its row shows
  exactly the account the events replay to: the owner, the balance and the open flag.
\<close>

theorem projection_refines_replay:
  assumes "pg_inv srv db0" and "log_ok srv db0" and "ledger (pg_stream db0)" and "no_views db0"
    and "set deliveries \<subseteq> set (stored_events db0)" and "db = fold (proj_Handle srv) deliveries db0"
    and "pg_stream db0 g \<noteq> []" and "\<And>e. e \<in> set (pg_stream db0 g) \<Longrightarrow> eID e \<in> processed db"
  shows "\<exists>a row. Replay zero_Account (pg_stream db0 g) = Inr a \<and> balances db g = Some row \<and>
    brOwner row = Owner a \<and> brBalance row = Balance a \<and> brOpen row = Open a"
proof -
  let ?E = "stored_events db0"
  have v: "views_of ?E db"
    unfolding assms(6) using no_views_of [OF assms(4)] pg_stored_ok [OF assms(1-3)] assms(5) by (rule fold_Handle_views)
  obtain a where a: "history (pg_stream db0 g) a" "aID a = g" using ledgerD [OF assms(3,7)] by blast
  obtain e where e: "e \<in> set (pg_stream db0 g)" using assms(7) by (meson last_in_set)
  then have "balances db g \<noteq> None"
    using views_ofD_None [OF v, of g e] assms(8) [OF e] by (auto simp: stream_stored)
  then obtain row where row: "balances db g = Some row" by blast
  note vr = views_ofD_Some [OF v row]
  have "filter (\<lambda>e. eAggregateID e = g \<and> eID e \<in> processed db) ?E = pg_stream db0 g"
    using assms(8) by (auto simp: stream_stored intro!: filter_cong)
  moreover have "length (pg_stream db0 g) \<le> history_limit" using assms(1) by (simp add: pg_inv_def rows_ok_def pg_stream_def)
  ultimately have "sint (brBalance row) = sint (Balance a)"
    using vr history_balance [OF a(1)] by (simp add: counted_def)
  then have "brBalance row = Balance a" by (rule signed_word_eqI)
  moreover obtain ev d where "ev \<in> set (pg_stream db0 g)" "eType ev = EventAccountOpened"
      "unmarshal_AccountOpened (eData ev) = Inr d" "aoOwner d = brOwner row"
    using vr by (auto simp: opening_of_def stream_stored)
  then have "brOwner row = Owner a" using history_opening [OF a(1)] by fastforce
  ultimately show ?thesis using vr row history_open [OF a(1)] history_Replay [OF a(1)] by auto
qed

text \<open>Deliveries out of order, with a repetition; the first transaction cannot begin.\<close>

definition busy_start :: "nat \<Rightarrow> fault" where
  "busy_start t = (if t = 0 then Fails (PqError ''53300'' ''too many connections'') else Works)"

definition sample_deliveries :: "Event list" where
  "sample_deliveries = [ana_opened, bea_opened, ana_opened, ana_deposit, ana_deposit]"

definition projected_sample :: DB where
  "projected_sample = fold (proj_Handle (sample_server busy_start)) sample_deliveries pg_two_accounts"

lemma pg_two_accounts_log: "log_ok (sample_server flt) pg_two_accounts"
proof -
  have "list_all (\<lambda>r. sample_uuid_in (evEventID r) = Some (evEventID r)) (events pg_two_accounts)" by code_simp
  moreover have "distinct (map evEventID (events pg_two_accounts))"
    "sorted (map (\<lambda>r. sint (evSeq r)) (events pg_two_accounts))"
    "list_all (\<lambda>r. sint (evSeq r) \<le> sint (sequence pg_two_accounts)) (events pg_two_accounts)" by code_simp+
  ultimately show ?thesis by (simp add: log_ok_def list_all_iff sample_server_def)
qed

lemma pg_two_accounts_stored: "stored_events pg_two_accounts = [ana_opened, ana_deposit, bea_opened, bea_deposit]"
  by (simp add: stored_events_def pg_two_accounts_def stored_row_events)

theorem projection_refines_replay_witness:
  "\<exists>row. balances projected_sample ana = Some row \<and> brOwner row = ''ana'' \<and> brBalance row = 100 \<and> brOpen row"
proof -
  have led: "ledger (pg_stream pg_two_accounts)" using two_accounts_ok(2) by (simp add: pg_two_accounts_stream)
  have nv: "no_views pg_two_accounts" by (simp add: no_views_def pg_two_accounts_def empty_DB_def)
  have ds: "set sample_deliveries \<subseteq> set (stored_events pg_two_accounts)"
    by (simp add: sample_deliveries_def pg_two_accounts_stored)
  have st: "pg_stream pg_two_accounts ana = [ana_opened, ana_deposit]"
    by (simp add: pg_two_accounts_stream two_accounts_stream)
  have "eID ana_opened \<in> processed projected_sample" "eID ana_deposit \<in> processed projected_sample" by code_simp+
  then have all: "eID e \<in> processed projected_sample" if "e \<in> set (pg_stream pg_two_accounts ana)" for e
    using that st by auto
  have ne: "pg_stream pg_two_accounts ana \<noteq> []" using st by simp
  from projection_refines_replay [OF pg_two_accounts_inv pg_two_accounts_log led nv ds projected_sample_def ne all]
  obtain a row where "Replay zero_Account [ana_opened, ana_deposit] = Inr a" "balances projected_sample ana = Some row"
      "brOwner row = Owner a" "brBalance row = Balance a" "brOpen row = Open a" unfolding st by blast
  then show ?thesis using ana_replay by (auto simp del: Replay.simps)
qed

section \<open>The catch-up of the boot\<close>

text \<open>The identifiers in the payload of \<open>e\<close> are UUIDs.\<close>

definition payload_uuids :: "server \<Rightarrow> Event \<Rightarrow> bool" where
  "payload_uuids srv e \<longleftrightarrow>
     (eType e = EventTransferDebited \<longrightarrow> (\<forall>p. unmarshal_TransferDebited (eData e) = Inr p \<longrightarrow>
        uuid_in srv (tdTo p) \<noteq> None \<and> uuid_in srv (tdTransferID p) \<noteq> None \<and> 0 < sint (tdAmount p))) \<and>
     (eType e = EventTransferCredited \<longrightarrow> (\<forall>p. unmarshal_TransferCredited (eData e) = Inr p \<longrightarrow>
        uuid_in srv (tcFrom p) \<noteq> None \<and> uuid_in srv (tcTransferID p) \<noteq> None)) \<and>
     (eType e = EventTransferReversed \<longrightarrow> (\<forall>p. unmarshal_TransferReversed (eData e) = Inr p \<longrightarrow>
        uuid_in srv (trTransferID p) \<noteq> None))"

lemma nullable_uuid_ok: "s = [] \<or> uuid_in srv s \<noteq> None \<Longrightarrow> \<exists>x. nullable_uuid srv s = Inr x"
  by (auto simp: nullable_uuid_def uuid_param_def)

lemma bump_works:
  assumes "faults srv (ticks db) = Works" and "uuid_in srv (eAggregateID e) = Some g" and "balances db g = Some row"
    and "- 9223372036854775808 \<le> sint (brBalance row) + sint w" and "sint (brBalance row) + sint w \<le> 9223372036854775807"
    and "0 \<le> sint (eVersion e)"
  shows "\<exists>db'. bump srv e w db = (None, db')"
  using assms by (simp add: bump_def exec_works update_balance_def uuid_param_def Let_def)

lemma statement_works:
  assumes "faults srv (ticks db) = Works" and "uuid_in srv (eID e) = Some i" and "uuid_in srv (eAggregateID e) = Some g"
    and "cp = [] \<or> uuid_in srv cp \<noteq> None" and "tid = [] \<or> uuid_in srv tid \<noteq> None"
    and "kind \<in> set statement_kinds" and "w \<noteq> 0"
  shows "\<exists>db'. statement srv e kind w cp tid desc db = (None, db')"
  using nullable_uuid_ok [OF assms(4)] nullable_uuid_ok [OF assms(5)] assms(1-3,6,7)
  by (auto simp: statement_def run_def exec_works insert_statement_def uuid_param_def)

lemma transfer_statements_work:
  assumes "\<And>t. faults srv t = Works" and "uuid_in srv tid \<noteq> None"
  shows "\<exists>db'. run srv (update_transfer srv tid f) db = (None, db')"
    and "uuid_in srv fr \<noteq> None \<Longrightarrow> uuid_in srv to \<noteq> None \<Longrightarrow> 0 < sint n \<Longrightarrow>
      \<exists>db'. run srv (insert_transfer srv tid fr to n at) db = (None, db')"
  using assms(2) by (auto simp: run_def exec_works [OF assms(1)] update_transfer_def insert_transfer_def uuid_param_def
      split: option.split)

lemma and_then_works: "\<exists>db1. f db = (None, db1) \<Longrightarrow> (\<And>db1. f db = (None, db1) \<Longrightarrow> \<exists>db2. g db1 = (None, db2)) \<Longrightarrow>
    \<exists>db2. and_then f g db = (None, db2)"
  by (auto simp: and_then_def)

lemma kinds [simp]: "''deposit'' \<in> set statement_kinds" "''withdrawal'' \<in> set statement_kinds"
  "''transfer_out'' \<in> set statement_kinds" "''transfer_in'' \<in> set statement_kinds" "''transfer_reversal'' \<in> set statement_kinds"
  by (simp_all add: statement_kinds_def)

lemma applyEvent_works:
  assumes wk: "\<And>t. faults srv t = Works" and id: "uuid_in srv (eID e) = Some i" "uuid_in srv (eAggregateID e) = Some g"
    and v: "0 \<le> sint (eVersion e)" and pu: "payload_uuids srv e"
    and ev: "eType e = EventAccountOpened \<and> (\<exists>d. unmarshal_AccountOpened (eData e) = Inr d) \<or>
      posts e \<and> (\<exists>row w. balances db g = Some row \<and> posting e = Some w \<and>
        - 9223372036854775808 \<le> sint (brBalance row) + sint w \<and> sint (brBalance row) + sint w \<le> 9223372036854775807)"
  shows "\<exists>db'. applyEvent srv e db = (None, db')"
  using ev
proof (elim disjE conjE exE)
  fix d assume "eType e = EventAccountOpened" "unmarshal_AccountOpened (eData e) = Inr d"
  then show ?thesis using id(2) v
    by (auto simp: applyEvent_def run_def exec_works [OF wk] insert_balance_def uuid_param_def split: option.split)
next
  fix row w assume p: "posts e" and b: "balances db g = Some row" and w: "posting e = Some w"
    and r: "- 9223372036854775808 \<le> sint (brBalance row) + sint w" "sint (brBalance row) + sint w \<le> 9223372036854775807"
  have bw: "\<exists>db1. bump srv e w db = (None, db1)" using bump_works [OF wk id(2) b r v] .
  have nz: "w \<noteq> 0" "eType e \<noteq> EventAccountOpened" using p w by (auto simp: posts_def)
  note st = statement_works [OF wk id _ _ _ nz(1)]
  note tw = transfer_statements_work [OF wk]
  from w show ?thesis
    unfolding posting_def applyEvent_def using nz(2) bw st tw pu id(2)
    by (auto split: if_splits sum.splits intro!: and_then_works simp: payload_uuids_def)
qed

lemma run_events: "(\<And>d. events (snd (stmt d)) = events d) \<Longrightarrow> run srv stmt db = (r, db') \<Longrightarrow> events db' = events db"
  by (auto simp: run_def exec_def split: fault.splits prod.splits sum.splits) (metis snd_conv tick_simps(1))+

lemma and_then_events:
  "(\<And>d r d'. f d = (r, d') \<Longrightarrow> events d' = events d) \<Longrightarrow> (\<And>d r d'. g d = (r, d') \<Longrightarrow> events d' = events d) \<Longrightarrow>
     and_then f g db = (r, db') \<Longrightarrow> events db' = events db"
  by (auto simp: and_then_def split: prod.splits option.splits)

lemma statement_events:
  "events (snd (insert_statement srv i g k w cp tid desc at d)) = events d"
  "events (snd (insert_transfer srv tid fr to n at d)) = events d"
  "events (snd (update_transfer srv tid f d)) = events d"
  "events (snd (insert_balance srv g own v d)) = events d"
  "events (snd (update_balance srv g w v at d)) = events d"
  "events (snd (insert_processed srv i d)) = events d"
  by (simp_all add: insert_statement_def insert_transfer_def update_transfer_def insert_balance_def update_balance_def
      insert_processed_def Let_def split: sum.split option.split)

lemma exec_events: "(\<And>d. events (snd (stmt d)) = events d) \<Longrightarrow> exec srv stmt db = (r, db') \<Longrightarrow> events db' = events db"
  by (auto simp: exec_def split: fault.splits) (metis snd_conv tick_simps(1))+

lemma bump_events: "bump srv e w db = (r, db') \<Longrightarrow> events db' = events db"
  using exec_events [OF statement_events(5)] by (auto simp: bump_def split: prod.splits sum.splits if_splits)

lemma applyEvent_events: "applyEvent srv e db = (r, db') \<Longrightarrow> events db' = events db"
  unfolding applyEvent_def statement_def
  by (auto split: if_splits sum.splits
      elim!: and_then_events [rotated 2] run_events [rotated] bump_events simp: statement_events)

lemma proj_Apply_events:
  assumes "proj_Apply srv e db = (r, db')"
  shows "events db' = events db"
proof -
  obtain b db1 where b: "BeginTx srv db = (b, db1)" by (metis surj_pair)
  then have db1: "events db1 = events db" using BeginTx_db by fastforce
  obtain m db2 where m: "exec srv (insert_processed srv (eID e)) db1 = (m, db2)" by (metis surj_pair)
  obtain x db3 where x: "applyEvent srv e db2 = (x, db3)" by (metis surj_pair)
  have ev: "events db2 = events db" "events db3 = events db"
    using exec_events [OF statement_events(6) m] applyEvent_events [OF x] db1 by simp_all
  have "events d' = events db" if "Commit srv db1 d = (q, d')" "events d = events db" for d q d'
    using that db1 by (auto simp: Commit_def split: fault.splits)
  then show ?thesis
    using assms b m x ev db1 by (auto simp: proj_Apply_def split: sum.splits if_splits option.splits)
qed

lemma counted_bound:
  assumes "stored_ok srv E"
  shows "\<bar>counted E P g\<bar> \<le> 100000000 * int (length E)"
proof -
  have each: "\<bar>signed_amount e\<bar> \<le> 100000000" if "e \<in> set E" for e
    using assms that by (auto simp: stored_ok_def posts_def)
  have "\<bar>net xs\<bar> \<le> 100000000 * int (length xs)" if "set xs \<subseteq> set E" for xs
    using that
  proof (induction xs)
    case (Cons x xs)
    then have "\<bar>signed_amount x\<bar> \<le> 100000000" "\<bar>net xs\<bar> \<le> 100000000 * int (length xs)" using each by simp_all
    then show ?case by simp
  qed simp
  then have "\<bar>counted E P g\<bar> \<le> 100000000 * int (length (filter (\<lambda>e. eAggregateID e = g \<and> eID e \<in> P) E))"
    unfolding counted_def by simp
  also have "\<dots> \<le> 100000000 * int (length E)" by simp
  finally show ?thesis .
qed

lemma posted_tables:
  assumes "posted srv e w db db'" and "uuid_in srv (eAggregateID e) = Some g"
  shows "processed db' = processed db \<and> dom (balances db') = insert g (dom (balances db))"
proof -
  obtain d1 d2 where d: "bumped srv e w db d1" "noted srv e w d1 d2" "same_views d2 db'"
    using assms(1) unfolding posted_def by blast
  have "processed d2 = processed d1" "balances d2 = balances d1" using d(2) unfolding noted_def by blast+
  moreover have "processed d1 = processed db" "dom (balances d1) = insert g (dom (balances db))"
    using d(1) assms(2) unfolding bumped_def by auto
  ultimately show ?thesis using d(3) by (simp add: same_views_def)
qed

lemma opened_tables:
  "opened_view srv e db db' \<Longrightarrow> uuid_in srv (eAggregateID e) = Some g \<Longrightarrow>
     processed db' = processed db \<and> dom (balances db') = insert g (dom (balances db))"
  unfolding opened_view_def by (elim exE conjE disjE) auto

lemma posting_fits:
  assumes v: "views_of E db" and ok: "stored_ok srv E" and len: "length E < history_limit"
    and p: "posts e" and "balances db (eAggregateID e) \<noteq> None"
  shows "\<exists>row w. balances db (eAggregateID e) = Some row \<and> posting e = Some w \<and>
      - 9223372036854775808 \<le> sint (brBalance row) + sint w \<and> sint (brBalance row) + sint w \<le> 9223372036854775807"
proof -
  obtain w where w: "posting e = Some w" "sint w = signed_amount e" "\<bar>signed_amount e\<bar> \<le> 100000000"
    using p by (auto simp: posts_def)
  obtain row where row: "balances db (eAggregateID e) = Some row" using assms(5) by auto
  have "\<bar>sint (brBalance row)\<bar> \<le> 100000000 * int (length E)"
    using views_ofD_Some [OF v row] counted_bound [OF ok] by simp
  moreover have "int (length E) < 92233720368" using len by (simp add: history_limit_def)
  ultimately show ?thesis using row w by (intro exI [of _ row] exI [of _ w]) auto
qed

lemma proj_Apply_works:
  assumes wk: "\<And>t. faults srv t = Works" and v: "views_of E db" and ok: "stored_ok srv E" and e: "e \<in> set E"
    and new: "eID e \<notin> processed db" and pu: "payload_uuids srv e" and ver: "0 \<le> sint (eVersion e)"
    and len: "length E < history_limit" and rdy: "eType e = EventAccountOpened \<or> balances db (eAggregateID e) \<noteq> None"
  shows "\<exists>db'. proj_Apply srv e db = (None, db') \<and> processed db' = insert (eID e) (processed db) \<and>
    dom (balances db') = insert (eAggregateID e) (dom (balances db)) \<and> views_of E db'"
proof -
  let ?g = "eAggregateID e"
  have id: "uuid_in srv (eID e) = Some (eID e)" "uuid_in srv ?g = Some ?g" using ok e by (auto simp: stored_ok_def)
  let ?db2 = "(tick (tick db))\<lparr>processed := insert (eID e) (processed db)\<rparr>"
  have m: "exec srv (insert_processed srv (eID e)) (tick db) = (Inr 1, ?db2)"
    using id(1) new by (simp add: exec_works [OF wk] insert_processed_def uuid_param_def)
  have fit: "\<exists>row w. balances ?db2 ?g = Some row \<and> posting e = Some w \<and>
      - 9223372036854775808 \<le> sint (brBalance row) + sint w \<and> sint (brBalance row) + sint w \<le> 9223372036854775807"
    if "posts e"
    using posting_fits [OF v ok len that] rdy that by (simp add: posts_def)
  have kind: "eType e = EventAccountOpened \<and> (\<exists>d. unmarshal_AccountOpened (eData e) = Inr d) \<or> posts e"
    using ok e by (auto simp: stored_ok_def)
  obtain db3 where x: "applyEvent srv e ?db2 = (None, db3)"
  proof (cases "posts e")
    case True
    from applyEvent_works [OF wk id ver pu disjI2 [OF conjI [OF True fit [OF True]]]] that show ?thesis by blast
  next
    case False
    with kind applyEvent_works [OF wk id ver pu disjI1] that show ?thesis by blast
  qed
  have "BeginTx srv db = (Inr (), tick db)" by (simp add: BeginTx_def exec_works [OF wk])
  then have a: "proj_Apply srv e db = (None, tick db3)" using m x by (simp add: proj_Apply_def Commit_def wk)
  have "views_of E (proj_Handle srv e db)" using proj_Handle_views [OF v ok e] .
  moreover have f: "processed ?db2 = insert (eID e) (processed db)" "balances ?db2 = balances db" by simp_all
  moreover have "processed db3 = insert (eID e) (processed db) \<and> dom (balances db3) = insert ?g (dom (balances db))"
    using applyEvent_ok [OF x]
  proof (elim disjE conjE exE)
    assume "opened_view srv e ?db2 db3"
    from opened_tables [OF this id(2)] show ?thesis unfolding f .
  next
    fix w assume "posted srv e w ?db2 db3"
    from posted_tables [OF this id(2)] show ?thesis unfolding f .
  next
    assume "eType e \<noteq> EventAccountOpened" "posting e = None"
    then show ?thesis using kind by (simp add: posts_def)
  qed
  ultimately show ?thesis using a by (simp add: proj_Handle_def)
qed

text \<open>Every event of the list is an opening or its account is there already, given the accounts \<open>B\<close> that exist.\<close>

fun ready :: "string set \<Rightarrow> Event list \<Rightarrow> bool" where
  "ready B [] \<longleftrightarrow> True"
| "ready B (e # es) \<longleftrightarrow> (eType e = EventAccountOpened \<or> eAggregateID e \<in> B) \<and> ready (insert (eAggregateID e) B) es"

lemma proj_CatchUp_works:
  assumes wk: "\<And>t. faults srv t = Works" and ok: "stored_ok srv E" and len: "length E < history_limit"
    and pu: "\<And>e. e \<in> set E \<Longrightarrow> payload_uuids srv e \<and> 0 \<le> sint (eVersion e)"
  shows "views_of E db \<Longrightarrow> set es \<subseteq> set E \<Longrightarrow> distinct (map eID es) \<Longrightarrow> (\<And>e. e \<in> set es \<Longrightarrow> eID e \<notin> processed db) \<Longrightarrow>
    ready (dom (balances db)) es \<Longrightarrow>
    \<exists>db'. proj_CatchUp srv es db = (None, db') \<and> processed db' = processed db \<union> eID ` set es \<and> views_of E db' \<and>
      events db' = events db"
proof (induction es arbitrary: db)
  case (Cons e es)
  have e: "e \<in> set E" "eID e \<notin> processed db" using Cons.prems(2,4) by simp_all
  have rdy: "eType e = EventAccountOpened \<or> balances db (eAggregateID e) \<noteq> None" using Cons.prems(5) by auto
  obtain db1 where a: "proj_Apply srv e db = (None, db1)" "processed db1 = insert (eID e) (processed db)"
      "dom (balances db1) = insert (eAggregateID e) (dom (balances db))" "views_of E db1"
    using proj_Apply_works [OF wk Cons.prems(1) ok e _ _ len rdy] pu [OF e(1)] by blast
  have "eID x \<notin> processed db1" if "x \<in> set es" for x
    using that Cons.prems(3,4) a(2) by (auto simp: image_iff)
  moreover have "ready (dom (balances db1)) es" using Cons.prems(5) a(3) by simp
  ultimately obtain db' where "proj_CatchUp srv es db1 = (None, db')" "processed db' = processed db1 \<union> eID ` set es"
      "views_of E db'" "events db' = events db1"
    using Cons.IH [OF a(4)] Cons.prems(2,3) by auto
  then show ?case using a(1,2) proj_Apply_events [OF a(1)] by auto
qed simp

lemma history_first: "history es a \<Longrightarrow> eType (hd es) = EventAccountOpened"
proof (induction rule: history.induct)
  case (opened d accID own e a f)
  then show ?case using OpenAccount_event(3) by (simp add: stored_as_def)
next
  case (decided es a d c e b f)
  then show ?case using history_nonempty by (cases es) auto
qed

lemma opening_before:
  assumes "ledger (pg_stream db)" and "stored_events db = xs @ e # ys" and "eType e \<noteq> EventAccountOpened"
  shows "\<exists>f \<in> set xs. eAggregateID f = eAggregateID e"
proof (rule ccontr)
  assume "\<not> ?thesis"
  then have "filter (\<lambda>x. eAggregateID x = eAggregateID e) xs = []" by (auto simp: filter_empty_conv)
  then have st: "pg_stream db (eAggregateID e) = e # filter (\<lambda>x. eAggregateID x = eAggregateID e) ys"
    by (simp add: stream_stored assms(2))
  then have "pg_stream db (eAggregateID e) \<noteq> []" by simp
  then obtain a where "history (pg_stream db (eAggregateID e)) a" using ledgerD [OF assms(1)] by blast
  from history_first [OF this] st assms(3) show False by simp
qed

lemma ready_suffix:
  assumes "\<And>as f bs. E = as @ f # bs \<Longrightarrow> eType f \<noteq> EventAccountOpened \<Longrightarrow> \<exists>o' \<in> set as. eAggregateID o' = eAggregateID f"
    and "\<And>f. f \<in> set E \<Longrightarrow> eID f \<in> P \<Longrightarrow> eAggregateID f \<in> B"
  shows "E = xs @ ys \<Longrightarrow> ready (B \<union> eAggregateID ` {f \<in> set xs. eID f \<notin> P}) (filter (\<lambda>f. eID f \<notin> P) ys)"
proof (induction ys arbitrary: xs)
  case (Cons f ys)
  have IH: "ready (B \<union> eAggregateID ` {x \<in> set (xs @ [f]). eID x \<notin> P}) (filter (\<lambda>f. eID f \<notin> P) ys)"
    using Cons.prems by (intro Cons.IH) simp
  show ?case
  proof (cases "eID f \<in> P")
    case True
    then have "{x \<in> set (xs @ [f]). eID x \<notin> P} = {x \<in> set xs. eID x \<notin> P}" by auto
    with IH True show ?thesis by simp
  next
    case False
    have "eAggregateID f \<in> B \<union> eAggregateID ` {x \<in> set xs. eID x \<notin> P}" if nf: "eType f \<noteq> EventAccountOpened"
    proof -
      obtain x where x: "x \<in> set xs" "eAggregateID x = eAggregateID f" using assms(1) [OF Cons.prems nf] by blast
      show ?thesis
      proof (cases "eID x \<in> P")
        case True
        then show ?thesis using assms(2) [of x] x Cons.prems by simp
      next
        case False
        then show ?thesis using x by (metis (mono_tags, lifting) UnI2 imageI mem_Collect_eq)
      qed
    qed
    moreover have "{x \<in> set (xs @ [f]). eID x \<notin> P} = insert f {x \<in> set xs. eID x \<notin> P}" using False by auto
    ultimately show ?thesis using IH False by auto
  qed
qed simp

lemma select_unprocessed_rows:
  assumes "log_ok srv db"
  shows "select_unprocessed db = (Inr (filter (\<lambda>r. evEventID r \<notin> processed db) (events db)), db)"
proof -
  have "sorted (map (\<lambda>r. sint (evSeq r)) (filter (\<lambda>r. evEventID r \<notin> processed db) (events db)))"
    using assms by (intro sorted_filter) (simp add: log_ok_def)
  then show ?thesis by (simp add: select_unprocessed_def sort_key_id_if_sorted)
qed

lemma pg_LoadUnprocessed_works:
  assumes "faults srv (ticks db) = Works" and "log_ok srv db"
  shows "pg_LoadUnprocessed srv db = (Inr (filter (\<lambda>e. eID e \<notin> processed db) (stored_events db)), tick db)"
proof -
  have "log_ok srv (tick db)" using assms(2) by (simp add: log_ok_def)
  from query_events_works [where stmt = select_unprocessed, OF assms(1) select_unprocessed_rows [OF this]] show ?thesis
    by (simp add: pg_LoadUnprocessed_def stored_events_def filter_map comp_def)
qed

lemma stored_versions:
  assumes "pg_inv srv db" and "e \<in> set (stored_events db)"
  shows "0 \<le> sint (eVersion e)"
proof -
  obtain r where r: "r \<in> set (events db)" "e = row_event r" using assms(2) by (auto simp: stored_events_def)
  then have "r \<in> set (pg_rows db (evAggregateID r))" by (simp add: pg_rows_def)
  then obtain k where "k < length (pg_rows db (evAggregateID r))" "pg_rows db (evAggregateID r) ! k = r"
    by (auto simp: in_set_conv_nth)
  with rows_ok_version(2) [of srv db k "evAggregateID r"] assms(1) r(2) show ?thesis by (auto simp: pg_inv_def)
qed

text \<open>
  The catch-up of the boot brings the read models up to date: on a server that works, with all
  identifiers in payloads being UUIDs, \<open>LoadUnprocessed\<close> followed by the projector's \<open>CatchUp\<close>
  succeeds, afterwards no event is unprocessed, and the read models are those of all stored
  events.
\<close>

lemma catch_up_projects_all:
  assumes wk: "\<And>t. faults srv t = Works" and inv: "pg_inv srv db" "log_ok srv db" "ledger (pg_stream db)"
    and v: "views_of (stored_events db) db" and len: "length (events db) < history_limit"
    and pu: "\<And>e. e \<in> set (stored_events db) \<Longrightarrow> payload_uuids srv e"
  shows "\<exists>es db1 db2. pg_LoadUnprocessed srv db = (Inr es, db1) \<and> proj_CatchUp srv es db1 = (None, db2) \<and>
    fst (pg_LoadUnprocessed srv db2) = Inr [] \<and> views_of (stored_events db2) db2 \<and> stored_events db2 = stored_events db"
proof -
  let ?E = "stored_events db" and ?P = "processed db"
  let ?es = "filter (\<lambda>e. eID e \<notin> ?P) ?E"
  have ok: "stored_ok srv ?E" using inv by (rule pg_stored_ok)
  have v1: "views_of ?E (tick db)" using v views_of_same [of db "tick db"] by (simp add: same_views_def)
  have "ready (dom (balances db) \<union> eAggregateID ` {f \<in> set ([] :: Event list). eID f \<notin> ?P}) ?es"
  proof (rule ready_suffix [where E = "stored_events db" and P = "processed db" and xs = "[]" and ys = "stored_events db"])
    show "\<exists>x\<in>set as. eAggregateID x = eAggregateID f" if "?E = as @ f # bs" "eType f \<noteq> EventAccountOpened" for as f bs
      using opening_before [OF inv(3) that] .
    show "eAggregateID f \<in> dom (balances db)" if "f \<in> set ?E" "eID f \<in> ?P" for f
      using views_ofD_None [OF v _ that(1) refl] that(2) by blast
  qed simp
  then have rd: "ready (dom (balances (tick db))) ?es" by simp
  have "distinct (map eID ?es)" using ok by (simp add: stored_ok_def distinct_map_filter)
  then obtain db2 where db2: "proj_CatchUp srv ?es (tick db) = (None, db2)"
      "processed db2 = ?P \<union> eID ` set ?es" "views_of ?E db2" "events db2 = events db"
    using proj_CatchUp_works [OF wk ok _ _ v1 _ _ _ rd] pu stored_versions [OF inv(1)] len
    by (auto simp: stored_events_def)
  have E2: "stored_events db2 = ?E" using db2(4) by (simp add: stored_events_def)
  have all: "filter (\<lambda>e. eID e \<notin> processed db2) ?E = []"
    using db2(2) by (auto simp: filter_empty_conv)
  have "sort_key (\<lambda>r. sint (evSeq r)) (filter (\<lambda>r. evEventID r \<notin> processed db2) (events db2)) = []"
    using all db2(4) by (simp add: stored_events_def filter_map comp_def)
  then have "fst (pg_LoadUnprocessed srv db2) = Inr []"
    using query_events_works [OF wk, of select_unprocessed db2 "[]"]
    by (simp add: pg_LoadUnprocessed_def select_unprocessed_def)
  then show ?thesis
    using pg_LoadUnprocessed_works [OF wk inv(2)] db2(1,3) E2 by auto
qed

section \<open>An event that can never be projected\<close>

lemma nullable_uuid_bad: "s \<noteq> [] \<Longrightarrow> uuid_in srv s = None \<Longrightarrow> \<exists>err. nullable_uuid srv s = Inl err"
  by (simp add: nullable_uuid_def uuid_param_def)

lemma statement_bad:
  assumes "cp \<noteq> []" and "uuid_in srv cp = None" and "statement srv e kind w cp tid desc db = (r, db')"
  shows "r \<noteq> None"
  using nullable_uuid_bad [OF assms(1,2)] assms(3) unfolding statement_def run_def exec_def insert_statement_def
  by (auto split: fault.splits prod.splits sum.splits)

lemma and_then_bad:
  "(\<And>d. fst (g d) \<noteq> None) \<Longrightarrow> fst (and_then f g db) \<noteq> None"
  "(\<And>d. fst (f d) \<noteq> None) \<Longrightarrow> fst (and_then f g db) \<noteq> None"
proof -
  obtain r d where f: "f db = (r, d)" by (metis surj_pair)
  show "fst (and_then f g db) \<noteq> None" if "\<And>d. fst (g d) \<noteq> None"
    using that [of d] f by (cases r) (simp_all add: and_then_def)
  show "fst (and_then f g db) \<noteq> None" if "\<And>d. fst (f d) \<noteq> None"
    using that [of db] f by (cases r) (simp_all add: and_then_def)
qed

lemma poison_applyEvent:
  assumes "eType e = EventTransferDebited" and "unmarshal_TransferDebited (eData e) = Inr p"
    and "tdTo p \<noteq> []" and "uuid_in srv (tdTo p) = None"
  shows "fst (applyEvent srv e db) \<noteq> None"
proof -
  have bad: "fst (statement srv e k w (tdTo p) tid desc d) \<noteq> None" for k w tid desc d
    using statement_bad [OF assms(3,4)] by (metis prod.collapse)
  have "applyEvent srv e db = and_then (bump srv e (- tdAmount p))
      (and_then (statement srv e ''transfer_out'' (- tdAmount p) (tdTo p) (tdTransferID p) [])
        (run srv (insert_transfer srv (tdTransferID p) (eAggregateID e) (tdTo p) (tdAmount p) (eOccurredAt e)))) db"
    using assms(1,2) by (simp add: applyEvent_def)
  then show ?thesis using and_then_bad(1) [OF and_then_bad(2) [OF bad]] by simp
qed

lemma applyEvent_processed:
  assumes "applyEvent srv e db = (None, db')"
  shows "processed db' = processed db"
proof -
  have "processed db' = processed db" if "posted srv e w db db'" for w
  proof -
    obtain d1 d2 where d: "bumped srv e w db d1" "noted srv e w d1 d2" "same_views d2 db'"
      using \<open>posted srv e w db db'\<close> unfolding posted_def by blast
    have "processed d1 = processed db" using d(1) unfolding bumped_def by blast
    moreover have "processed d2 = processed d1" using d(2) unfolding noted_def by blast
    ultimately show ?thesis using d(3) by (simp add: same_views_def)
  qed
  then show ?thesis using applyEvent_ok [OF assms] by (auto simp: opened_view_def same_views_def)
qed

lemma proj_Apply_unmarked:
  assumes "proj_Apply srv e db = (r, db')" and "i \<notin> processed db"
    and "\<And>d. fst (applyEvent srv e d) = None \<Longrightarrow> uuid_in srv (eID e) \<noteq> Some i"
  shows "i \<notin> processed db'"
  using assms(1)
proof (cases rule: proj_Apply_cases)
  case unchanged
  then show ?thesis using assms(2) by (simp add: same_views_def)
next
  case (applied j db2 db3)
  have "j \<noteq> i" using assms(3) [of db2] applied(1,3) by auto
  then show ?thesis using applied(4,7) assms(2) applyEvent_processed [OF applied(3)] by (simp add: same_views_def)
qed

lemma proj_Apply_fails:
  assumes "\<And>d. fst (applyEvent srv e d) \<noteq> None" and "uuid_in srv (eID e) = Some i" and "i \<notin> processed db"
  shows "fst (proj_Apply srv e db) \<noteq> None"
proof -
  obtain b db1 where b: "BeginTx srv db = (b, db1)" by (metis surj_pair)
  then have db1: "db1 = tick db" by (rule BeginTx_db)
  obtain m db2 where m: "exec srv (insert_processed srv (eID e)) db1 = (m, db2)" by (metis surj_pair)
  have "n = 1" if "m = Inr n" for n
    using m that db1 assms(2,3) by (auto simp: exec_def insert_processed_def uuid_param_def split: fault.splits)
  moreover obtain r db3 where "applyEvent srv e db2 = (Some r, db3)" using assms(1) [of db2] by (metis not_None_eq prod.collapse)
  ultimately show ?thesis using b m by (cases b; cases m) (simp_all add: proj_Apply_def)
qed

lemma proj_CatchUp_blocked:
  assumes "\<And>d. fst (applyEvent srv e d) \<noteq> None" and "uuid_in srv (eID e) = Some i"
  shows "i \<notin> processed db \<Longrightarrow> e \<in> set es \<Longrightarrow> (\<And>f. f \<in> set es \<Longrightarrow> uuid_in srv (eID f) = Some i \<Longrightarrow> f = e) \<Longrightarrow>
    fst (proj_CatchUp srv es db) \<noteq> None"
proof (induction es arbitrary: db)
  case (Cons f es)
  obtain r db' where a: "proj_Apply srv f db = (r, db')" by (metis surj_pair)
  show ?case
  proof (cases r)
    case None
    have "f \<noteq> e" using proj_Apply_fails [OF assms Cons.prems(1)] a None by auto
    then have "i \<notin> processed db'" using proj_Apply_unmarked [OF a Cons.prems(1)] Cons.prems(3) [of f] by auto
    with Cons.IH [of db'] Cons.prems \<open>f \<noteq> e\<close> a None show ?thesis by simp
  qed (use a in simp)
qed simp

text \<open>
  The entry of a debit to a destination that is not a UUID cannot be written to the read model, on
  any server and in any state.
\<close>

lemma poison_transfer:
  assumes "DebitTransfer d a tid to n = Inr e0" and "stored_as e0 e" and "to \<noteq> []" and "uuid_in srv to = None"
  shows "fst (applyEvent srv e x) \<noteq> None"
proof -
  have dec: "decide d (CDebit tid to n) a = Inr e0" using assms(1) by simp
  have "eType e0 = EventTransferDebited" using decide_event(3) [OF dec] by simp
  then have "unmarshal_TransferDebited (eData e0) = Inr \<lparr>tdTransferID = tid, tdTo = to, tdAmount = n\<rparr>"
    using decide_debit [OF dec] by auto
  with \<open>eType e0 = EventTransferDebited\<close> assms(2-4) show ?thesis
    by (intro poison_applyEvent) (auto simp: stored_as_def same_payload_def)
qed

definition bob_debit :: Event where
  "bob_debit = ana_debit\<lparr>eData := RawJSON (JObj [(''transfer_id'', JStr sample_tid), (''to'', JStr ''bob''), (''amount'', JInt 30)])\<rparr>"

section \<open>A completed transfer that stays pending\<close>

text \<open>The transaction of the debit cannot begin when the debit is first delivered.\<close>

definition missed_debit :: "nat \<Rightarrow> fault" where
  "missed_debit t = (if t = 18 then Fails DeadlineExceeded else Works)"

definition late_debit :: "error option \<times> DB" where
  "late_debit = proj_CatchUp (sample_server missed_debit) [ana_debit]
     (fold (proj_Handle (sample_server missed_debit))
       [ana_opened, ana_deposit, bea_opened, bea_deposit, ana_debit, bea_credit] empty_DB)"

text \<open>
  Only the credit and the reversal of a transfer change its row once it is there; a step that applies
  neither, or finds it processed already, leaves the row alone.
\<close>

definition keeps_row :: "string \<Rightarrow> (DB \<Rightarrow> 'a \<times> DB) \<Rightarrow> bool" where
  "keeps_row tid f \<longleftrightarrow> (\<forall>db. transfers db tid \<noteq> None \<longrightarrow> transfers (snd (f db)) tid = transfers db tid)"

lemma keeps_rowD: "keeps_row tid f \<Longrightarrow> f db = (r, db') \<Longrightarrow> transfers db tid \<noteq> None \<Longrightarrow> transfers db' tid = transfers db tid"
  unfolding keeps_row_def by (metis snd_conv)

lemma keeps_row_exec: "keeps_row tid stmt \<Longrightarrow> keeps_row tid (exec srv stmt)"
  by (auto simp: keeps_row_def exec_def split: fault.splits)

lemma keeps_row_run:
  assumes "keeps_row tid stmt"
  shows "keeps_row tid (run srv stmt)"
proof -
  have "transfers (snd (run srv stmt db)) tid = transfers (snd (exec srv stmt db)) tid" for db
    by (auto simp: run_def split: prod.splits sum.splits)
  then show ?thesis using keeps_row_exec [OF assms, of srv] by (simp add: keeps_row_def)
qed

lemma keeps_row_and_then:
  assumes "keeps_row tid f" and "keeps_row tid g"
  shows "keeps_row tid (and_then f g)"
  unfolding keeps_row_def
proof (intro allI impI)
  fix db :: DB
  assume t: "transfers db tid \<noteq> None"
  obtain r db1 where f: "f db = (r, db1)" by (cases "f db")
  from keeps_rowD [OF assms(1) f t] have 1: "transfers db1 tid = transfers db tid" .
  then show "transfers (snd (and_then f g db)) tid = transfers db tid"
    using assms(2) f t by (auto simp: keeps_row_def and_then_def split: option.split)
qed

lemma keeps_row_bump: "keeps_row tid (bump srv e w)"
proof -
  have "keeps_row tid (update_balance srv g w v at)" for g v at
    by (auto simp: keeps_row_def update_balance_def Let_def split: sum.splits option.splits)
  from keeps_row_exec [OF this] have k: "keeps_row tid (exec srv (update_balance srv g w v at))" for g v at .
  show ?thesis unfolding keeps_row_def
    using keeps_rowD [OF k] by (auto simp: bump_def split: prod.splits sum.splits)
qed

lemma keeps_row_statement: "keeps_row tid (statement srv e kind w cp t desc)"
proof -
  have "keeps_row tid (insert_statement srv (eID e) (eAggregateID e) kind w cp t desc at)" for at
    by (auto simp: keeps_row_def insert_statement_def split: sum.splits)
  then show ?thesis unfolding statement_def by (rule keeps_row_run)
qed

lemma keeps_row_inserts:
  "keeps_row tid (run srv (insert_balance srv g own v))"
  "keeps_row tid (run srv (insert_transfer srv t f to n at))"
  by (rule keeps_row_run, simp add: keeps_row_def insert_balance_def insert_transfer_def split: sum.split option.split)+

lemma keeps_row_update: "uuid_in srv t \<noteq> Some tid \<Longrightarrow> keeps_row tid (run srv (update_transfer srv t f))"
  by (rule keeps_row_run) (auto simp: keeps_row_def update_transfer_def uuid_param_def split: option.splits)

definition settles_row :: "server \<Rightarrow> string \<Rightarrow> Event \<Rightarrow> bool" where
  "settles_row srv tid e \<longleftrightarrow>
     eType e = EventTransferCredited \<and>
       (case unmarshal_TransferCredited (eData e) of Inl _ \<Rightarrow> False | Inr p \<Rightarrow> uuid_in srv (tcTransferID p) = Some tid) \<or>
     eType e = EventTransferReversed \<and>
       (case unmarshal_TransferReversed (eData e) of Inl _ \<Rightarrow> False | Inr p \<Rightarrow> uuid_in srv (trTransferID p) = Some tid)"

lemma keeps_row_if:
  "(P \<Longrightarrow> keeps_row tid f) \<Longrightarrow> (\<not> P \<Longrightarrow> keeps_row tid g) \<Longrightarrow> keeps_row tid (\<lambda>db. if P then f db else g db)"
  by (cases P) simp_all

lemma keeps_row_decoded:
  "(\<And>err. r = Inl err \<Longrightarrow> keeps_row tid (f err)) \<Longrightarrow> (\<And>d. r = Inr d \<Longrightarrow> keeps_row tid (g d)) \<Longrightarrow>
     keeps_row tid (\<lambda>db. case r of Inl err \<Rightarrow> f err db | Inr d \<Rightarrow> g d db)"
  by (cases r) simp_all

lemma keeps_row_applyEvent:
  assumes "\<not> settles_row srv tid e"
  shows "keeps_row tid (applyEvent srv e)"
proof -
  note k = keeps_row_and_then keeps_row_bump keeps_row_statement keeps_row_inserts keeps_row_update
  have id: "keeps_row tid (\<lambda>db. (x, db))" for x :: "error option" by (simp add: keeps_row_def)
  have c: "uuid_in srv (tcTransferID p) \<noteq> Some tid" if "eType e = EventTransferCredited" "unmarshal_TransferCredited (eData e) = Inr p" for p
    using assms that by (auto simp: settles_row_def)
  have v: "uuid_in srv (trTransferID p) \<noteq> Some tid" if "eType e = EventTransferReversed" "unmarshal_TransferReversed (eData e) = Inr p" for p
    using assms that by (auto simp: settles_row_def)
  show ?thesis
    unfolding applyEvent_def [abs_def] by (intro keeps_row_if keeps_row_decoded k id; rule c v; assumption)
qed

lemma keeps_row_Apply:
  assumes "settles_row srv tid e \<Longrightarrow> \<exists>i. uuid_in srv (eID e) = Some i \<and> i \<in> processed db"
    and "transfers db tid \<noteq> None" and "proj_Apply srv e db = (r, db')"
  shows "transfers db' tid = transfers db tid" and "processed db \<subseteq> processed db'"
proof -
  obtain b db1 where b: "BeginTx srv db = (b, db1)" by (metis surj_pair)
  then have db1: "db1 = tick db" by (rule BeginTx_db)
  obtain m db2 where m: "exec srv (insert_processed srv (eID e)) db1 = (m, db2)" by (metis surj_pair)
  have 2: "transfers db2 tid = transfers db tid"
    using m db1 by (auto simp: exec_def insert_processed_def split: fault.splits sum.splits if_splits)
  obtain x db3 where x: "applyEvent srv e db2 = (x, db3)" by (metis surj_pair)
  have 3: "transfers db3 tid = transfers db tid" if "m = Inr n" "n \<noteq> 0" for n
  proof (cases "settles_row srv tid e")
    case True
    with assms(1) obtain i where "uuid_in srv (eID e) = Some i" "i \<in> processed db" by blast
    then have "n = 0" using m db1 that(1)
      by (auto simp: exec_def insert_processed_def uuid_param_def split: fault.splits)
    with that(2) show ?thesis by simp
  next
    case False
    from keeps_rowD [OF keeps_row_applyEvent [OF False] x] 2 assms(2) show ?thesis by simp
  qed
  have com: "transfers d'' tid = transfers db tid" if "Commit srv db1 d = (q, d'')" "transfers d tid = transfers db tid" for q d d''
    using that db1 by (auto elim!: Commit_cases simp: Rollback_def)
  show "transfers db' tid = transfers db tid"
    using assms(3) b m x 2 3 db1 com by (auto simp: proj_Apply_def Rollback_def split: sum.splits if_splits option.splits)
  from assms(3) show "processed db \<subseteq> processed db'"
  proof (cases rule: proj_Apply_cases)
    case (applied i d2 d3)
    then have "processed d3 = processed d2" using applyEvent_ok [OF applied(3)]
      by (auto simp: opened_view_def posted_def bumped_def noted_def same_views_def)
    with applied show ?thesis by (auto simp: same_views_def)
  qed (simp add: same_views_def)
qed

text \<open>What the projector is called with: a delivery of the bus, or the catch-up of a boot.\<close>

datatype projection = Delivery Event | Boot_CatchUp "Event list"

fun project :: "server \<Rightarrow> projection \<Rightarrow> DB \<Rightarrow> DB" where
  "project srv (Delivery e) db = proj_Handle srv e db"
| "project srv (Boot_CatchUp es) db = snd (proj_CatchUp srv es db)"

fun projected :: "projection \<Rightarrow> Event list" where
  "projected (Delivery e) = [e]"
| "projected (Boot_CatchUp es) = es"

lemma keeps_row_CatchUp:
  "(\<And>e. e \<in> set es \<Longrightarrow> settles_row srv tid e \<Longrightarrow> \<exists>i. uuid_in srv (eID e) = Some i \<and> i \<in> processed db) \<Longrightarrow>
     transfers db tid \<noteq> None \<Longrightarrow> proj_CatchUp srv es db = (r, db') \<Longrightarrow>
     transfers db' tid = transfers db tid \<and> processed db \<subseteq> processed db'"
proof (induction es arbitrary: db r)
  case (Cons e es)
  obtain x db1 where a: "proj_Apply srv e db = (x, db1)" by (metis surj_pair)
  have 1: "transfers db1 tid = transfers db tid" "processed db \<subseteq> processed db1"
    using keeps_row_Apply [OF Cons.prems(1) Cons.prems(2) a] by auto
  show ?case
  proof (cases x)
    case None
    have "transfers db' tid = transfers db1 tid \<and> processed db1 \<subseteq> processed db'"
    proof (rule Cons.IH)
      show "\<exists>i. uuid_in srv (eID f) = Some i \<and> i \<in> processed db1" if "f \<in> set es" "settles_row srv tid f" for f
        using Cons.prems(1) [of f] that 1(2) by auto
      show "transfers db1 tid \<noteq> None" "proj_CatchUp srv es db1 = (r, db')" using 1(1) Cons.prems(2,3) a None by auto
    qed
    with 1 show ?thesis by auto
  next
    case (Some err)
    with 1 Cons.prems(3) a show ?thesis by auto
  qed
qed simp

lemma keeps_row_project:
  assumes "\<And>e. e \<in> set (projected c) \<Longrightarrow> settles_row srv tid e \<Longrightarrow> \<exists>i. uuid_in srv (eID e) = Some i \<and> i \<in> processed db"
    and "transfers db tid \<noteq> None"
  shows "transfers (project srv c db) tid = transfers db tid \<and> processed db \<subseteq> processed (project srv c db)"
proof (cases c)
  case (Delivery e)
  with keeps_row_Apply [OF assms(1) assms(2) prod.collapse [symmetric], of e] show ?thesis by (auto simp: proj_Handle_def)
next
  case (Boot_CatchUp es)
  with keeps_row_CatchUp [OF assms(1) assms(2) prod.collapse [symmetric], of es] show ?thesis by auto
qed

text \<open>Once the settling events of a transfer are processed, its row never changes again.\<close>

lemma settled_row_is_final:
  "(\<And>c e. c \<in> set cs \<Longrightarrow> e \<in> set (projected c) \<Longrightarrow> settles_row srv tid e \<Longrightarrow>
      \<exists>i. uuid_in srv (eID e) = Some i \<and> i \<in> processed db) \<Longrightarrow>
     transfers db tid \<noteq> None \<Longrightarrow> transfers (fold (project srv) cs db) tid = transfers db tid"
proof (induction cs arbitrary: db)
  case (Cons c cs)
  have 1: "transfers (project srv c db) tid = transfers db tid" "processed db \<subseteq> processed (project srv c db)"
    using keeps_row_project [of c srv tid db] Cons.prems by auto
  have "transfers (fold (project srv) cs (project srv c db)) tid = transfers (project srv c db) tid"
  proof (rule Cons.IH)
    show "\<exists>i. uuid_in srv (eID e) = Some i \<and> i \<in> processed (project srv c db)"
      if "d \<in> set cs" "e \<in> set (projected d)" "settles_row srv tid e" for d e
      using Cons.prems(1) [of d e] that 1(2) by auto
  qed (use 1(1) Cons.prems(2) in simp)
  with 1(1) show ?case by simp
qed simp

lemma late_debit_values:
  "fst late_debit = None"
  "list_all (\<lambda>e. eID e \<in> processed (snd late_debit)) [ana_opened, ana_deposit, bea_opened, bea_deposit, ana_debit, bea_credit]"
  "map_option brBalance (balances (snd late_debit) ana) = Some 70"
  "map_option brBalance (balances (snd late_debit) bea) = Some 80"
  "map_option tfStatus (transfers (snd late_debit) sample_tid) = Some ''pending''"
  by code_simp+

text \<open>
  C32. The status of a transfer depends on the order of the projections: when the projection of the
  debit fails once, the credit that is projected meanwhile updates no row, and the debit, projected
  by the next catch-up, inserts the transfer as pending. All events are processed and both balances
  are right. From then on the transfer shows as pending for good: after any number of deliveries of
  any events and of catch-ups of any events, in any order, with any faults of the database, as long
  as this transfer gets no second credit and no reversal, its status is still pending.
\<close>

theorem completed_transfer_stays_pending:
  "fst late_debit = None \<and>
   list_all (\<lambda>e. eID e \<in> processed (snd late_debit)) [ana_opened, ana_deposit, bea_opened, bea_deposit, ana_debit, bea_credit] \<and>
   map_option brBalance (balances (snd late_debit) ana) = Some 70 \<and>
   map_option brBalance (balances (snd late_debit) bea) = Some 80 \<and>
   map_option tfStatus (transfers (snd late_debit) sample_tid) = Some ''pending'' \<and>
   (\<forall>flt cs. (\<forall>c \<in> set cs. \<forall>e \<in> set (projected c). settles_row (sample_server flt) sample_tid e \<longrightarrow> e = bea_credit) \<longrightarrow>
      map_option tfStatus (transfers (fold (project (sample_server flt)) cs (snd late_debit)) sample_tid) = Some ''pending'')"
proof -
  have "uuid_in (sample_server flt) (eID bea_credit) = Some (eID bea_credit)" for flt
  proof -
    have "uuid_in (sample_server (\<lambda>_. Works)) (eID bea_credit) = Some (eID bea_credit)" by code_simp
    then show ?thesis by (simp add: sample_server_def)
  qed
  then have "transfers (fold (project (sample_server flt)) cs (snd late_debit)) sample_tid = transfers (snd late_debit) sample_tid"
    if "\<forall>c \<in> set cs. \<forall>e \<in> set (projected c). settles_row (sample_server flt) sample_tid e \<longrightarrow> e = bea_credit" for flt cs
    using late_debit_values(2,5) that by (intro settled_row_is_final) auto
  then show ?thesis using late_debit_values by simp
qed

theorem completed_transfer_stays_pending_witness:
  "settles_row (sample_server missed_debit) sample_tid bea_credit \<and>
   map_option tfStatus (transfers (fold (project (sample_server missed_debit))
     [Delivery ana_debit, Delivery bea_credit, Boot_CatchUp [ana_deposit, bea_credit]] (snd late_debit)) sample_tid) = Some ''pending''"
proof -
  have n: "\<not> settles_row (sample_server missed_debit) sample_tid ana_debit"
    "\<not> settles_row (sample_server missed_debit) sample_tid ana_deposit"
    "settles_row (sample_server missed_debit) sample_tid bea_credit" by code_simp+
  let ?cs = "[Delivery ana_debit, Delivery bea_credit, Boot_CatchUp [ana_deposit, bea_credit]]"
  have "\<forall>c \<in> set ?cs. \<forall>e \<in> set (projected c). settles_row (sample_server missed_debit) sample_tid e \<longrightarrow> e = bea_credit"
    using n by auto
  with completed_transfer_stays_pending n(3) show ?thesis by blast
qed

end
