(* ===== verification/Query.thy ===== *)
theory Query
  imports Read_Model "HOL-Library.List_Lexorder" "HOL-Library.Char_ord"
begin

text \<open>
  \<^verbatim>\<open>internal/query/query.go\<close>: the reads from the read models. Rows of \<^verbatim>\<open>statement_entries\<close> are ordered
  by time and, for equal times, by event id; the text of a UUID in normal form orders as its
  bytes do.
\<close>

section \<open>Results\<close>

record Balance =
  bAccountID :: string
  bOwner :: string
  bBalance :: int64
  bOpen :: bool
  bUpdatedAt :: int

record StatementEntry =
  sEventID :: string
  sKind :: string
  sAmount :: int64
  sCounterparty :: string
  sTransferID :: string
  sDescription :: string
  sOccurredAt :: int

record Transfer =
  tTransferID :: string
  tFromID :: string
  tToID :: string
  tAmount :: int64
  tStatus :: string
  tReason :: string
  tCreatedAt :: int
  tUpdatedAt :: int

section \<open>Statements\<close>

definition select_balance :: "server \<Rightarrow> string \<Rightarrow> Balance stmt" where
  "select_balance srv accountID db =
     (case uuid_param srv accountID of
        Inl err \<Rightarrow> (Inl err, db)
      | Inr g \<Rightarrow> (case balances db g of
            None \<Rightarrow> (Inl ErrNoRows, db)
          | Some r \<Rightarrow> (Inr \<lparr>bAccountID = g, bOwner = brOwner r, bBalance = brBalance r, bOpen = brOpen r,
                            bUpdatedAt = brUpdatedAt r\<rparr>, db)))"

definition entry_of :: "StatementRow \<Rightarrow> StatementEntry" where
  "entry_of r = \<lparr>sEventID = srEventID r, sKind = srKind r, sAmount = srAmount r,
     sCounterparty = (case srCounterparty r of None \<Rightarrow> [] | Some u \<Rightarrow> u),
     sTransferID = (case srTransferID r of None \<Rightarrow> [] | Some u \<Rightarrow> u),
     sDescription = srDescription r, sOccurredAt = srOccurredAt r\<rparr>"

text \<open>\<^verbatim>\<open>ORDER BY occurred_at DESC, event_id DESC\<close>.\<close>

definition newest_first :: "StatementRow list \<Rightarrow> StatementRow list" where
  "newest_first rows = rev (sort_key srOccurredAt (sort_key srEventID rows))"

definition select_statement :: "server \<Rightarrow> string \<Rightarrow> int \<Rightarrow> nat \<Rightarrow> StatementEntry list stmt" where
  "select_statement srv accountID before limit db =
     (case uuid_param srv accountID of
        Inl err \<Rightarrow> (Inl err, db)
      | Inr g \<Rightarrow> (Inr (map entry_of (take limit (newest_first
          (filter (\<lambda>r. srAccountID r = g \<and> srOccurredAt r < timestamp_in srv before) (statements db))))), db))"

definition select_transfer :: "server \<Rightarrow> string \<Rightarrow> Transfer stmt" where
  "select_transfer srv transferID db =
     (case uuid_param srv transferID of
        Inl err \<Rightarrow> (Inl err, db)
      | Inr tid \<Rightarrow> (case transfers db tid of
            None \<Rightarrow> (Inl ErrNoRows, db)
          | Some r \<Rightarrow> (Inr \<lparr>tTransferID = tid, tFromID = tfFromID r, tToID = tfToID r, tAmount = tfAmount r,
                            tStatus = tfStatus r, tReason = tfReason r, tCreatedAt = tfCreatedAt r,
                            tUpdatedAt = tfUpdatedAt r\<rparr>, db)))"

section \<open>Operations\<close>

text \<open>\<open>configured\<close> says that the handle of the database is not \<^verbatim>\<open>nil\<close>.\<close>

definition q_Ping :: "server \<Rightarrow> bool \<Rightarrow> DB \<Rightarrow> error option \<times> DB" where
  "q_Ping srv configured db =
     (if \<not> configured then (Some (Errorf ''query database is not configured''), db)
      else run srv (\<lambda>d. (Inr (), d)) db)"

definition q_Balance :: "server \<Rightarrow> string \<Rightarrow> Balance stmt" where
  "q_Balance srv accountID db =
     (case exec srv (select_balance srv accountID) db of
        (Inl err, db') \<Rightarrow> if errors_Is err ErrNoRows then (Inl ErrAccountNotFound, db') else (Inl err, db')
      | (Inr b, db') \<Rightarrow> (Inr b, db'))"

text \<open>An error at any point of the query, also while the rows are read, is returned as it is.\<close>

definition q_Statement :: "server \<Rightarrow> string \<Rightarrow> int \<Rightarrow> int \<Rightarrow> StatementEntry list stmt" where
  "q_Statement srv accountID limit before =
     (let n = (if limit \<le> 0 \<or> 100 < limit then 20 else limit)
      in exec srv (select_statement srv accountID before (nat n)))"

definition q_Transfer :: "server \<Rightarrow> string \<Rightarrow> Transfer stmt" where
  "q_Transfer srv transferID db =
     (case exec srv (select_transfer srv transferID) db of
        (Inl err, db') \<Rightarrow> if errors_Is err ErrNoRows then (Inl ErrNoRows, db') else (Inl err, db')
      | (Inr t, db') \<Rightarrow> (Inr t, db'))"

section \<open>Reading a statement page by page\<close>

text \<open>A client that asks for the next page with the time of the last entry it got, until a page is empty or fails.\<close>

fun read_pages :: "server \<Rightarrow> string \<Rightarrow> int \<Rightarrow> nat \<Rightarrow> int \<Rightarrow> DB \<Rightarrow> StatementEntry list option" where
  "read_pages srv accountID limit 0 before db = None"
| "read_pages srv accountID limit (Suc fuel) before db =
     (case q_Statement srv accountID limit before db of
        (Inl err, db') \<Rightarrow> None
      | (Inr es, db') \<Rightarrow>
          if es = [] then Some []
          else map_option (append es) (read_pages srv accountID limit fuel (sOccurredAt (last es)) db'))"

definition entries_before :: "DB \<Rightarrow> string \<Rightarrow> int \<Rightarrow> StatementRow list" where
  "entries_before db g t = newest_first (filter (\<lambda>r. srAccountID r = g \<and> srOccurredAt r < t) (statements db))"

lemma newest_first_set [simp]: "set (newest_first rows) = set rows"
  by (simp add: newest_first_def)

lemma newest_first_sorted: "sorted (rev (map srOccurredAt (newest_first rows)))"
  by (simp add: newest_first_def rev_map)

lemma newest_first_length [simp]: "length (newest_first rows) = length rows"
  by (simp add: newest_first_def)

lemma newest_first_Nil [simp]: "newest_first [] = []"
  by (simp add: newest_first_def)

text \<open>Sorting commutes with the selection of rows.\<close>

lemma newest_first_filter: "newest_first (filter P rows) = filter P (newest_first rows)"
  by (simp add: newest_first_def rev_filter [symmetric] flip: filter_sort)

lemma entries_before_filter:
  assumes "t' \<le> t"
  shows "entries_before db g t' = filter (\<lambda>r. srOccurredAt r < t') (entries_before db g t)"
proof -
  have "filter (\<lambda>r. srAccountID r = g \<and> srOccurredAt r < t') (statements db) =
      filter (\<lambda>r. srOccurredAt r < t') (filter (\<lambda>r. srAccountID r = g \<and> srOccurredAt r < t) (statements db))"
    using assms by (auto intro: filter_cong)
  then show ?thesis by (simp only: entries_before_def newest_first_filter)
qed

definition distinct_times :: "DB \<Rightarrow> string \<Rightarrow> bool" where
  "distinct_times db g \<longleftrightarrow> distinct (map srOccurredAt (filter (\<lambda>r. srAccountID r = g) (statements db)))"

lemma entries_before_desc:
  assumes "distinct_times db g" and "i < j" and "j < length (entries_before db g t)"
  shows "srOccurredAt (entries_before db g t ! j) < srOccurredAt (entries_before db g t ! i)"
proof -
  let ?R = "entries_before db g t" and ?f = "filter (\<lambda>r. srAccountID r = g \<and> srOccurredAt r < t) (statements db)"
  have "?f = filter (\<lambda>r. srOccurredAt r < t) (filter (\<lambda>r. srAccountID r = g) (statements db))" by (simp add: conj_commute)
  then have "distinct (map srOccurredAt ?f)"
    using assms(1) by (simp add: distinct_times_def distinct_map_filter del: filter_filter)
  moreover have "mset (map srOccurredAt ?R) = mset (map srOccurredAt ?f)"
    by (simp add: entries_before_def newest_first_def)
  ultimately have d: "distinct (map srOccurredAt ?R)" by (metis mset_eq_imp_distinct_iff)
  have "sorted_wrt (\<ge>) (map srOccurredAt ?R)"
    using newest_first_sorted [of ?f] by (simp add: entries_before_def sorted_wrt_rev)
  then have "srOccurredAt (?R ! j) \<le> srOccurredAt (?R ! i)"
    using assms(2,3) by (simp add: sorted_wrt_iff_nth_less)
  moreover have "srOccurredAt (?R ! j) \<noteq> srOccurredAt (?R ! i)"
    using nth_eq_iff_index_eq [OF d, of j i] assms(2,3) by simp
  ultimately show ?thesis by simp
qed

lemma next_page:
  assumes "distinct_times db g" and "R = entries_before db g t" and "0 < n" and "R \<noteq> []"
    and "t' = srOccurredAt (last (take n R))"
  shows "entries_before db g t' = drop n R"
proof -
  let ?k = "min n (length R)"
  have k: "0 < ?k" "?k - 1 < length R" using assms(3,4) by (cases R; auto)+
  have last: "last (take n R) = R ! (?k - 1)" using assms(3,4) by (simp add: last_conv_nth min_def)
  have "t' < t"
  proof -
    have "R ! (?k - 1) \<in> set R" using k(2) by simp
    then have "srOccurredAt (R ! (?k - 1)) < t" by (auto simp: assms(2) entries_before_def)
    then show ?thesis by (simp only: assms(5) last)
  qed
  then have "entries_before db g t' = filter (\<lambda>r. srOccurredAt r < t') R"
    using entries_before_filter [of t' t db g] assms(2) by simp
  also have "\<dots> = drop ?k R"
  proof (rule filter_eq_drop)
    fix i assume i: "i < length R"
    have t': "t' = srOccurredAt (R ! (?k - 1))" by (simp only: assms(5) last)
    consider (left) "i < ?k - 1" | (at) "i = ?k - 1" | (right) "?k - 1 < i" by linarith
    then show "srOccurredAt (R ! i) < t' \<longleftrightarrow> ?k \<le> i"
    proof cases
      case left
      then have "t' < srOccurredAt (R ! i)"
        using entries_before_desc [OF assms(1) _ k(2) [unfolded assms(2)], of i] by (simp only: t' assms(2))
      with left show ?thesis by linarith
    next
      case at
      with k(1) show ?thesis by (simp only: t') linarith
    next
      case right
      then have "srOccurredAt (R ! i) < t'"
        using entries_before_desc [OF assms(1) _ i [unfolded assms(2)]] by (simp only: t' assms(2))
      with right show ?thesis by linarith
    qed
  qed
  also have "\<dots> = drop n R" by (simp add: min_def)
  finally show ?thesis .
qed

lemma entries_before_tick [simp]: "entries_before (tick db) g t = entries_before db g t"
  by (simp add: entries_before_def)

lemma q_Statement_works:
  assumes "faults srv (ticks db) = Works" and "uuid_in srv accountID = Some g" and "0 < limit" and "limit \<le> 100"
  shows "q_Statement srv accountID limit before db =
    (Inr (map entry_of (take (nat limit) (entries_before db g (timestamp_in srv before)))), tick db)"
  using assms by (simp add: q_Statement_def exec_def select_statement_def uuid_param_def entries_before_def)

lemma read_pages_all:
  assumes wk: "\<And>t. faults srv t = Works" and g: "uuid_in srv accountID = Some g" and lim: "0 < limit" "limit \<le> 100"
    and nt: "\<And>r. r \<in> set rows \<Longrightarrow> timestamp_in srv (srOccurredAt r) = srOccurredAt r"
  shows "statements db = rows \<Longrightarrow> distinct_times db g \<Longrightarrow> length (entries_before db g (timestamp_in srv before)) < fuel \<Longrightarrow>
    read_pages srv accountID limit fuel before db = Some (map entry_of (entries_before db g (timestamp_in srv before)))"
proof (induction fuel arbitrary: before db)
  case (Suc fuel)
  define R where "R = entries_before db g (timestamp_in srv before)"
  have q: "q_Statement srv accountID limit before db = (Inr (map entry_of (take (nat limit) R)), tick db)"
    using q_Statement_works [OF wk g lim] by (simp add: R_def)
  show ?case
  proof (cases "R = []")
    case True
    then show ?thesis using q by (simp add: R_def)
  next
    case False
    let ?t = "srOccurredAt (last (take (nat limit) R))"
    have ne: "take (nat limit) R \<noteq> []" using False lim by simp
    then have "last (take (nat limit) R) \<in> set R" by (meson in_set_takeD last_in_set)
    then have "last (take (nat limit) R) \<in> set rows" using Suc.prems(1) by (auto simp: R_def entries_before_def)
    then have t: "timestamp_in srv ?t = ?t" by (rule nt)
    have nx: "entries_before (tick db) g (timestamp_in srv ?t) = drop (nat limit) R"
      using next_page [OF Suc.prems(2) R_def _ False refl] lim t by simp
    have l: "sOccurredAt (last (map entry_of (take (nat limit) R))) = ?t"
      using ne by (simp add: last_map entry_of_def)
    have "length R < Suc fuel" using Suc.prems(3) by (simp add: R_def)
    then have "length (drop (nat limit) R) < fuel" using False lim by (cases R) auto
    then have "read_pages srv accountID limit fuel ?t (tick db) = Some (map entry_of (drop (nat limit) R))"
      using Suc.IH [of "tick db" ?t] Suc.prems(1,2) nx by (simp add: distinct_times_def)
    then show ?thesis using q l ne by (simp add: R_def [symmetric] flip: map_append)
  qed
qed simp

section \<open>Every entry is on exactly one page\<close>

text \<open>
  C30. Reading a statement page by page, each page asked for with the time of the last entry of
  the one before, ends and gives exactly the entries before the first cursor, newest first, each
  once and none left out, for every page size the query takes, when no two entries of the
  account have the same time.
\<close>

theorem pages_cover_statement:
  assumes "\<And>t. faults srv t = Works" and "uuid_in srv accountID = Some g" and "0 < limit" and "limit \<le> 100"
    and "\<And>r. r \<in> set (statements db) \<Longrightarrow> timestamp_in srv (srOccurredAt r) = srOccurredAt r"
    and "distinct_times db g" and "length (statements db) < fuel"
  shows "read_pages srv accountID limit fuel before db = Some (map entry_of (newest_first
    (filter (\<lambda>r. srAccountID r = g \<and> srOccurredAt r < timestamp_in srv before) (statements db))))"
proof -
  have "length (entries_before db g (timestamp_in srv before)) \<le> length (statements db)"
    by (simp add: entries_before_def)
  with assms(7) have "length (entries_before db g (timestamp_in srv before)) < fuel" by linarith
  from read_pages_all [OF assms(1-5) refl assms(6) this] show ?thesis by (simp add: entries_before_def)
qed

definition paid_in :: "string \<Rightarrow> int64 \<Rightarrow> int \<Rightarrow> StatementRow" where
  "paid_in eid amount t = \<lparr>srEventID = eid, srAccountID = ana, srKind = ''deposit'', srAmount = amount,
     srCounterparty = None, srTransferID = None, srDescription = [], srOccurredAt = t\<rparr>"

definition three_entries :: DB where
  "three_entries = empty_DB\<lparr>statements := [paid_in sample_tid 5 1000, paid_in bea 7 3000, paid_in ana 9 2000]\<rparr>"

theorem pages_cover_statement_witness:
  "map_option (map sAmount) (read_pages healthy_server ana 2 4 9000 three_entries) = Some [7, 9, 5]"
proof -
  have u: "uuid_in healthy_server ana = Some ana" by code_simp
  have t: "timestamp_in healthy_server (srOccurredAt r) = srOccurredAt r" if "r \<in> set (statements three_entries)" for r
    using that by (auto simp: healthy_server_def sample_server_def three_entries_def paid_in_def)
  have d: "distinct_times three_entries ana"
    by (simp add: distinct_times_def three_entries_def paid_in_def)
  have "read_pages healthy_server ana 2 4 9000 three_entries = Some (map entry_of (newest_first
      (filter (\<lambda>r. srAccountID r = ana \<and> srOccurredAt r < timestamp_in healthy_server 9000) (statements three_entries))))"
    by (rule pages_cover_statement [OF _ u _ _ t d])
      (simp_all add: healthy_server_def sample_server_def three_entries_def)
  also have "map_option (map sAmount) \<dots> = Some [7, 9, 5]" by code_simp
  finally show ?thesis .
qed

section \<open>Entries of the same time\<close>

text \<open>
  The column keeps microseconds. Here the deposit that opened \<open>ana\<close>'s account and the debit of a
  transfer fall into the same one.
\<close>

definition same_microsecond :: DB where
  "same_microsecond = fold (proj_Handle healthy_server) [ana_opened, bea_opened, ana_deposit, ana_debit] empty_DB"

text \<open>
  C33. The cursor of a statement is a time alone, although the order of the entries is by time and
  event id: of two entries of one account in the same microsecond, a page that ends between them
  makes the next page skip the second. One page of 20 shows both entries; pages of one entry show
  the debit only.
\<close>

theorem page_boundary_loses_entry:
  "map_option (map sAmount) (read_pages healthy_server ana 20 5 1000 same_microsecond) = Some [- 30, 100] \<and>
   map_option (map sAmount) (read_pages healthy_server ana 1 5 1000 same_microsecond) = Some [- 30]"
proof
  show "map_option (map sAmount) (read_pages healthy_server ana 20 5 1000 same_microsecond) = Some [- 30, 100]"
    by code_simp
  show "map_option (map sAmount) (read_pages healthy_server ana 1 5 1000 same_microsecond) = Some [- 30]"
    by code_simp
qed

end
