(* ===== verification/Path.thy ===== *)
theory Path
  imports Prelude
begin

text \<open>
  What \<^verbatim>\<open>http.ServeMux\<close> (Go 1.22, the version in \<^verbatim>\<open>go.mod\<close>) does with the path of a request before a
  pattern is chosen: \<^verbatim>\<open>path.Clean\<close>, the clean path of a request, its segments, and the escaping of the
  address it redirects to.
\<close>

section \<open>Clean paths\<close>

definition slash :: char where
  "slash = CHR 0x2F"

text \<open>\<^verbatim>\<open>strings.Split(p, "/")\<close> and its inverse on paths that start with a slash.\<close>

fun split_path :: "string \<Rightarrow> string list" where
  "split_path [] = [[]]"
| "split_path (c # cs) =
     (if c = slash then [] # split_path cs
      else (case split_path cs of s # ss \<Rightarrow> (c # s) # ss | [] \<Rightarrow> [[c]]))"

definition rooted :: "string list \<Rightarrow> string" where
  "rooted ss = concat (map ((#) slash) ss)"

text \<open>
  \<^verbatim>\<open>path.Clean\<close> of a rooted path: empty and single-dot elements go, a double dot takes the element before
  it along, and none goes above the root. \<open>out\<close> is the path so far, last element first.
\<close>

fun clean_segs :: "string list \<Rightarrow> string list \<Rightarrow> string list" where
  "clean_segs out [] = rev out"
| "clean_segs out (s # ss) =
     (if s = [] \<or> s = ''.'' then clean_segs out ss
      else if s = ''..'' then clean_segs (drop 1 out) ss
      else clean_segs (s # out) ss)"

definition Clean :: "string \<Rightarrow> string" where
  "Clean p = (case clean_segs [] (split_path p) of [] \<Rightarrow> [slash] | s # ss \<Rightarrow> rooted (s # ss))"

text \<open>\<^verbatim>\<open>cleanPath\<close> of \<^verbatim>\<open>net/http\<close>: a slash at the end stays.\<close>

definition clean_path :: "string \<Rightarrow> string" where
  "clean_path p =
     (let q = (if p = [] \<or> hd p \<noteq> slash then slash # p else p); np = Clean q
      in if last q = slash \<and> np \<noteq> [slash] then np @ [slash] else np)"

definition plain_seg :: "string \<Rightarrow> bool" where
  "plain_seg s \<longleftrightarrow> s \<noteq> [] \<and> s \<noteq> ''.'' \<and> s \<noteq> ''..'' \<and> slash \<notin> set s"

lemma split_path_nonempty [simp]: "split_path p \<noteq> []"
  by (cases p) (auto split: list.split)

lemma split_path_append: "slash \<notin> set s \<Longrightarrow> split_path (s @ slash # p) = s # split_path p"
  by (induction s) auto

lemma split_path_single: "slash \<notin> set s \<Longrightarrow> split_path s = [s]"
  by (induction s) auto

lemma split_rooted: "list_all plain_seg ss \<Longrightarrow> split_path (rooted ss) = [] # ss \<or> ss = []"
proof (induction ss)
  case (Cons s ss)
  have s: "slash \<notin> set s" using Cons.prems by (simp add: plain_seg_def)
  show ?case
  proof (cases ss)
    case Nil
    with s show ?thesis by (simp add: rooted_def split_path_single)
  next
    case (Cons t ts)
    then have "rooted ss = slash # tl (rooted ss)" by (simp add: rooted_def)
    moreover have "split_path (rooted ss) = [] # ss" using Cons.IH Cons.prems Cons by simp
    ultimately have "split_path (tl (rooted ss)) = ss" by (metis list.inject split_path.simps(2))
    then have "split_path (s @ rooted ss) = s # ss"
      using split_path_append [OF s] \<open>rooted ss = slash # tl (rooted ss)\<close> by metis
    then show ?thesis by (simp add: rooted_def)
  qed
qed simp

lemma split_path_slashless: "s \<in> set (split_path p) \<Longrightarrow> slash \<notin> set s"
proof (induction p arbitrary: s)
  case (Cons c cs)
  then show ?case by (auto split: if_splits list.splits)
qed simp

lemma clean_segs_plain: "list_all plain_seg ss \<Longrightarrow> clean_segs out (ss @ rest) = clean_segs (rev ss @ out) rest"
  by (induction ss arbitrary: out) (auto simp: plain_seg_def)

lemma clean_segs_result:
  "list_all plain_seg out \<Longrightarrow> \<forall>s \<in> set ss. slash \<notin> set s \<Longrightarrow> list_all plain_seg (clean_segs out ss)"
proof (induction out ss rule: clean_segs.induct)
  case (1 out)
  then show ?case by (simp add: list_all_iff)
next
  case (2 out s ss)
  have "list_all plain_seg (drop 1 out)" using 2 by (auto simp: list_all_iff dest: in_set_dropD)
  moreover have "plain_seg s" if "s \<noteq> []" "s \<noteq> ''.''" "s \<noteq> ''..''"
    using that "2.prems" by (simp add: plain_seg_def)
  ultimately show ?case using 2 by simp
qed

lemma rooted_ends: "ss \<noteq> [] \<Longrightarrow> rooted ss \<noteq> [] \<and> hd (rooted ss) = slash"
  by (cases ss) (auto simp: rooted_def)

lemma last_rooted: "list_all plain_seg ss \<Longrightarrow> ss \<noteq> [] \<Longrightarrow> last (rooted ss) \<noteq> slash"
proof (induction ss)
  case (Cons s ss)
  then show ?case
    by (cases ss) (auto simp: rooted_def plain_seg_def dest: last_in_set)
qed simp

lemma rooted_not_slash: "list_all plain_seg ss \<Longrightarrow> rooted ss \<noteq> [slash]"
  using last_rooted [of ss] by (cases "ss = []") (auto simp: rooted_def)

text \<open>A path in normal form: its plain elements, and possibly a slash at the end.\<close>

definition canonical :: "string list \<Rightarrow> bool \<Rightarrow> string" where
  "canonical ss trailing = (if ss = [] then [slash] else rooted ss @ (if trailing then [slash] else []))"

lemma Clean_elements: "\<exists>ss. list_all plain_seg ss \<and> Clean p = canonical ss False"
proof (intro exI conjI)
  show "list_all plain_seg (clean_segs [] (split_path p))"
    by (rule clean_segs_result) (auto dest: split_path_slashless)
  show "Clean p = canonical (clean_segs [] (split_path p)) False"
    by (simp add: Clean_def canonical_def split: list.split)
qed

lemma clean_path_canonical: "\<exists>ss b. list_all plain_seg ss \<and> clean_path p = canonical ss b"
proof -
  define q where "q = (if p = [] \<or> hd p \<noteq> slash then slash # p else p)"
  obtain ss where "list_all plain_seg ss" "Clean q = canonical ss False" using Clean_elements by blast
  moreover have "clean_path p = canonical ss (last q = slash)"
    using calculation rooted_not_slash by (auto simp: clean_path_def q_def [symmetric] canonical_def Let_def)
  ultimately show ?thesis by blast
qed

lemma split_rooted_end: "list_all plain_seg ss \<Longrightarrow> ss \<noteq> [] \<Longrightarrow> split_path (rooted ss @ [slash]) = [] # ss @ [[]]"
proof (induction ss)
  case (Cons s ss)
  have s: "slash \<notin> set s" using Cons.prems by (simp add: plain_seg_def)
  show ?case
  proof (cases ss)
    case Nil
    with s split_path_append [OF s, of "[]"] show ?thesis by (simp add: rooted_def)
  next
    case (Cons t ts)
    have IH: "split_path (rooted ss @ [slash]) = [] # ss @ [[]]" using Cons.IH Cons.prems Cons by simp
    have r: "rooted ss @ [slash] = slash # tl (rooted ss @ [slash])" using Cons by (simp add: rooted_def)
    from IH have "split_path (tl (rooted ss @ [slash])) = ss @ [[]]" by (subst (asm) r) simp
    then have "split_path (s @ rooted ss @ [slash]) = s # ss @ [[]]" using split_path_append [OF s] r by metis
    then show ?thesis by (simp add: rooted_def)
  qed
qed simp

lemma Clean_canonical:
  assumes "list_all plain_seg ss"
  shows "Clean (canonical ss b) = canonical ss False"
proof (cases "ss = []")
  case True
  then show ?thesis by (simp add: canonical_def Clean_def)
next
  case False
  have "clean_segs [] (split_path (canonical ss b)) = ss"
    using split_rooted [OF assms] split_rooted_end [OF assms False] False
      clean_segs_plain [OF assms, of "[]" "[]"] clean_segs_plain [OF assms, of "[]" "[[]]"]
    by (cases b) (auto simp: canonical_def)
  with False show ?thesis by (simp add: Clean_def canonical_def split: list.split)
qed

lemma clean_canonical:
  assumes "list_all plain_seg ss"
  shows "clean_path (canonical ss b) = canonical ss b"
proof (cases "ss = []")
  case True
  then show ?thesis by (simp add: clean_path_def canonical_def Clean_def Let_def)
next
  case False
  have "canonical ss b \<noteq> [] \<and> hd (canonical ss b) = slash"
    using rooted_ends [OF False] False by (simp add: canonical_def)
  moreover have "last (canonical ss b) = slash \<longleftrightarrow> b"
    using last_rooted [OF assms False] False by (simp add: canonical_def)
  moreover have "canonical ss False \<noteq> [slash]"
    using rooted_not_slash [OF assms] False by (simp add: canonical_def)
  moreover have "canonical ss b = canonical ss False @ (if b then [slash] else [])"
    using False by (simp add: canonical_def)
  ultimately show ?thesis
    using Clean_canonical [OF assms, of b] by (auto simp: clean_path_def Let_def)
qed

lemma clean_path_idem: "clean_path (clean_path p) = clean_path p"
  using clean_path_canonical clean_canonical by metis

section \<open>Segments\<close>

definition unhex :: "char \<Rightarrow> nat option" where
  "unhex c = (let n = of_char c :: nat in
     if 48 \<le> n \<and> n \<le> 57 then Some (n - 48)
     else if 97 \<le> n \<and> n \<le> 102 then Some (n - 87)
     else if 65 \<le> n \<and> n \<le> 70 then Some (n - 55)
     else None)"

text \<open>\<^verbatim>\<open>url.PathUnescape\<close>: \<^const>\<open>None\<close> for a percent sign without two digits after it.\<close>

fun percent_decode :: "string \<Rightarrow> string option" where
  "percent_decode [] = Some []"
| "percent_decode (c # cs) =
     (if c \<noteq> CHR ''%'' then map_option ((#) c) (percent_decode cs)
      else (case cs of
          h # l # rest \<Rightarrow>
            (case (unhex h, unhex l) of
               (Some a, Some b) \<Rightarrow> map_option ((#) (char_of (16 * a + b))) (percent_decode rest)
             | _ \<Rightarrow> None)
        | _ \<Rightarrow> None))"

definition path_unescape :: "string \<Rightarrow> string" where
  "path_unescape s = (case percent_decode s of Some t \<Rightarrow> t | None \<Rightarrow> s)"

text \<open>\<^verbatim>\<open>firstSegment\<close>, repeated: the slash at the end of a path is a segment of its own.\<close>

function path_segments :: "string \<Rightarrow> string list" where
  "path_segments p =
     (if p = [] then []
      else if p = [slash] then [[slash]]
      else path_unescape (takeWhile (\<lambda>c. c \<noteq> slash) (tl p)) # path_segments (dropWhile (\<lambda>c. c \<noteq> slash) (tl p)))"
  by pat_completeness auto
termination
proof (relation "measure length")
  fix p :: string
  assume "p \<noteq> []"
  then have "length (dropWhile (\<lambda>c. c \<noteq> slash) (tl p)) < length p"
    using length_dropWhile_le [of "\<lambda>c. c \<noteq> slash" "tl p"] by (cases p) simp_all
  then show "(dropWhile (\<lambda>c. c \<noteq> slash) (tl p), p) \<in> measure length" by simp
qed simp

declare path_segments.simps [simp del]

section \<open>Escaping\<close>

definition upper_hex :: "nat \<Rightarrow> string" where
  "upper_hex b = [''0123456789ABCDEF'' ! (b div 16), ''0123456789ABCDEF'' ! (b mod 16)]"

text \<open>\<^verbatim>\<open>URL.EscapedPath\<close> of a path without a given encoding; a percent sign is escaped as any other.\<close>

definition path_char :: "char \<Rightarrow> bool" where
  "path_char c =
     (let n = of_char c :: nat
      in 48 \<le> n \<and> n \<le> 57 \<or> 65 \<le> n \<and> n \<le> 90 \<or> 97 \<le> n \<and> n \<le> 122 \<or> c \<in> set ''-_.~$&+,/:;=@'')"

definition escape_path_char :: "char \<Rightarrow> string" where
  "escape_path_char c = (if path_char c then [c] else CHR ''%'' # upper_hex (of_char c))"

definition escape_path :: "string \<Rightarrow> string" where
  "escape_path s = concat (map escape_path_char s)"

definition hex_escape_non_ascii :: "string \<Rightarrow> string" where
  "hex_escape_non_ascii s =
     concat (map (\<lambda>c. if (of_char c :: nat) < 128 then [c] else CHR ''%'' # hex_byte (of_char c)) s)"

definition html_escape :: "string \<Rightarrow> string" where
  "html_escape s =
     concat (map (\<lambda>c. if c = CHR ''&'' then ''&amp;''
       else if c = CHR ''<'' then ''&lt;''
       else if c = CHR ''>'' then ''&gt;''
       else if c = CHR 0x22 then ''&#34;''
       else if c = CHR 0x27 then ''&#39;''
       else [c]) s)"

lemma upper_hex_chars:
  assumes "n < 256" and "c \<in> set (upper_hex n)"
  shows "c \<in> set ''0123456789ABCDEF''"
proof -
  have "''0123456789ABCDEF'' ! k \<in> set ''0123456789ABCDEF''" if "k < 16" for k :: nat
    using that nth_mem [of k "''0123456789ABCDEF''"] by simp
  moreover have div: "n div 16 < 16" "n mod 16 < 16" using assms(1) by auto
  ultimately have "''0123456789ABCDEF'' ! (n div 16) \<in> set ''0123456789ABCDEF''" "''0123456789ABCDEF'' ! (n mod 16) \<in> set ''0123456789ABCDEF''"
    by (simp_all only: )
  moreover have "c = ''0123456789ABCDEF'' ! (n div 16) \<or> c = ''0123456789ABCDEF'' ! (n mod 16)"
    using assms(2) unfolding upper_hex_def by (simp only: list.set insert_iff empty_iff) blast
  ultimately show ?thesis by metis
qed

lemma escape_slash: "escape_path_char slash = [slash]"
  by (simp add: escape_path_char_def path_char_def slash_def)

lemma escape_path_chars:
  assumes "d \<in> set (escape_path_char c)"
  shows "path_char d \<or> d = CHR ''%''" and "d = slash \<Longrightarrow> c = slash" and "(of_char d :: nat) < 128" and "d \<noteq> CHR ''?''"
proof -
  have hex: "path_char x \<and> x \<noteq> slash" if "x \<in> set ''0123456789ABCDEF''" for x
    using that by (auto simp: path_char_def slash_def)
  have pc: "(of_char x :: nat) < 128 \<and> x \<noteq> CHR ''?''" if "path_char x \<or> x = CHR ''%''" for x
    using that by (auto simp: path_char_def Let_def)
  show 1: "path_char d \<or> d = CHR ''%''" and "d = slash \<Longrightarrow> c = slash"
    using assms hex upper_hex_chars [OF nat_of_char_less_256, of d c]
    by (auto simp: escape_path_char_def slash_def split: if_splits)
  show "(of_char d :: nat) < 128" "d \<noteq> CHR ''?''" using pc [OF 1] by auto
qed

lemma escape_path_append: "escape_path (s @ t) = escape_path s @ escape_path t"
  by (simp add: escape_path_def)

lemma escape_plain_seg:
  assumes "plain_seg s"
  shows "plain_seg (escape_path s)"
proof -
  have len: "1 \<le> length (escape_path_char c)" for c by (simp add: escape_path_char_def)
  have "slash \<notin> set (escape_path s)"
    using assms escape_path_chars(2) by (auto simp: escape_path_def plain_seg_def)
  moreover have same: "s = t" if "escape_path s = t" "set t \<subseteq> {CHR ''.''}" for t
    using that
  proof (induction s arbitrary: t)
    case (Cons c s)
    have "hd (escape_path_char c) = CHR ''.''"
      using Cons.prems by (auto simp: escape_path_def escape_path_char_def split: if_splits)
    then have c: "escape_path_char c = [CHR ''.''] \<and> c = CHR ''.''" by (auto simp: escape_path_char_def split: if_splits)
    have "t = escape_path_char c @ escape_path s" using Cons.prems(1) by (simp add: escape_path_def)
    then have t: "t = CHR ''.'' # escape_path s" by (simp only: conjunct1 [OF c] append_Cons append_Nil)
    from t have "escape_path s = tl t" "set (tl t) \<subseteq> {CHR ''.''}"
      using Cons.prems(2) by auto
    from Cons.IH [OF this] c t show ?case by (metis list.sel(3))
  qed (simp add: escape_path_def)
  ultimately show ?thesis
    using assms same [of "[]"] same [of "''.''"] same [of "''..''"] by (auto simp: plain_seg_def)
qed

lemma escape_rooted: "escape_path (rooted ss) = rooted (map escape_path ss)"
proof (induction ss)
  case (Cons s ss)
  have "escape_path (slash # s @ rooted ss) = slash # escape_path s @ escape_path (rooted ss)"
    by (simp add: escape_path_def escape_slash)
  with Cons show ?case by (simp add: rooted_def)
qed (simp add: rooted_def escape_path_def)

lemma escape_canonical: "escape_path (canonical ss b) = canonical (map escape_path ss) b"
  using escape_rooted [of ss] by (auto simp: canonical_def escape_path_append) (simp_all add: escape_path_def escape_slash)

text \<open>The address of a redirect is in normal form: a client that follows it is not redirected again.\<close>

lemma clean_escape_clean: "clean_path (escape_path (clean_path p)) = escape_path (clean_path p)"
proof -
  obtain ss b where ss: "list_all plain_seg ss" "clean_path p = canonical ss b" using clean_path_canonical by blast
  have "list_all plain_seg (map escape_path ss)" using ss(1) escape_plain_seg by (auto simp: list_all_iff)
  from clean_canonical [OF this] show ?thesis by (simp add: ss(2) escape_canonical)
qed

lemma escape_path_ascii: "d \<in> set (escape_path s) \<Longrightarrow> (of_char d :: nat) < 128 \<and> d \<noteq> CHR ''?''"
  unfolding escape_path_def using escape_path_chars(3,4) by fastforce

lemma hex_escape_ascii: "\<forall>d \<in> set s. (of_char d :: nat) < 128 \<Longrightarrow> hex_escape_non_ascii s = s"
  by (induction s) (auto simp: hex_escape_non_ascii_def)

lemma path_samples:
  "clean_path ''/accounts//a/./b/../deposits'' = ''/accounts/a/deposits''"
  "clean_path ''/transfers/'' = ''/transfers/''" "clean_path ''/../'' = ''/''" "clean_path [] = ''/''"
  "path_segments ''/transfers/a%2Fb'' = [''transfers'', ''a/b'']"
  "path_segments ''/transfers/'' = [''transfers'', ''/'']"
  "escape_path ''/a b%'' = ''/a%20b%25''"
  by code_simp+

end
