(* ===== verification/Server.thy ===== *)
theory Server
  imports Idempotent Requests RateLimit Query Path
begin

text \<open>
  \<^verbatim>\<open>internal/api/server.go\<close>: the routes, the handlers and the middlewares. \<^verbatim>\<open>Server\<close> holds pointers to
  the command side, the queries and the store of keys; here it is a record of the operations the
  handlers call, on one state \<open>'w\<close> that the server works on. The limit of five seconds on a command
  is in those operations: an operation that runs into it returns \<^const>\<open>DeadlineExceeded\<close>.
\<close>

section \<open>Requests and the server\<close>

text \<open>
  A request as \<^verbatim>\<open>net/http\<close> hands it to the handler: \<open>rqPath\<close> is \<^verbatim>\<open>URL.Path\<close>, \<open>rqEscaped\<close> the path as it was sent
  (\<^verbatim>\<open>URL.EscapedPath\<close>, in whatever form), \<open>rqRawQuery\<close> and \<open>rqQuery\<close> the query as text and as values,
  \<open>rqHTTP11\<close> whether the client speaks HTTP 1.1, \<open>rqBody\<close> its text up to the limit and \<open>rqValues\<close> what a JSON
  decoder reads from that text.
\<close>

record request =
  rqMethod :: string
  rqPath :: string
  rqEscaped :: string
  rqRawQuery :: string
  rqQuery :: "(string \<times> string) list"
  rqKey :: string
  rqBody :: "string option"
  rqValues :: body_values
  rqRemote :: string
  rqHTTP11 :: bool

text \<open>
  \<open>formatTime\<close> and \<open>parseTime\<close> are RFC 3339 with nanoseconds; \<open>now_at\<close> is the clock when the request is
  handled.
\<close>

record 'w Server =
  srvOpenAccount :: "string \<Rightarrow> int64 \<Rightarrow> 'w \<Rightarrow> string result \<times> 'w"
  srvDeposit :: "string \<Rightarrow> int64 \<Rightarrow> string \<Rightarrow> 'w \<Rightarrow> error option \<times> 'w"
  srvWithdraw :: "string \<Rightarrow> int64 \<Rightarrow> string \<Rightarrow> 'w \<Rightarrow> error option \<times> 'w"
  srvStartTransfer :: "string \<Rightarrow> string \<Rightarrow> int64 \<Rightarrow> 'w \<Rightarrow> string result \<times> 'w"
  srvEvents :: "string \<Rightarrow> 'w \<Rightarrow> Event list result \<times> 'w"
  srvPing :: "'w \<Rightarrow> error option \<times> 'w"
  srvBalance :: "string \<Rightarrow> 'w \<Rightarrow> Balance result \<times> 'w"
  srvStatement :: "string \<Rightarrow> int \<Rightarrow> int \<Rightarrow> 'w \<Rightarrow> StatementEntry list result \<times> 'w"
  srvTransfer :: "string \<Rightarrow> 'w \<Rightarrow> Transfer result \<times> 'w"
  srvIdem :: "'w IdempotencyStore"
  formatTime :: "int \<Rightarrow> string"
  parseTime :: "string \<Rightarrow> int option"
  now_at :: int

section \<open>Results as JSON\<close>

definition omitempty :: "string \<Rightarrow> string \<Rightarrow> (string \<times> json) list" where
  "omitempty name s = (if s = [] then [] else [(name, JStr s)])"

definition json_Balance :: "'w Server \<Rightarrow> Balance \<Rightarrow> json" where
  "json_Balance srv b = JObj
     [(''account_id'', JStr (bAccountID b)), (''owner'', JStr (bOwner b)), (''balance_cents'', JInt (sint (bBalance b))),
      (''open'', JBool (bOpen b)), (''updated_at'', JStr (formatTime srv (bUpdatedAt b)))]"

definition json_StatementEntry :: "'w Server \<Rightarrow> StatementEntry \<Rightarrow> json" where
  "json_StatementEntry srv s = JObj
     ([(''event_id'', JStr (sEventID s)), (''kind'', JStr (sKind s)), (''amount_cents'', JInt (sint (sAmount s)))] @
      omitempty ''counterparty'' (sCounterparty s) @ omitempty ''transfer_id'' (sTransferID s) @
      omitempty ''description'' (sDescription s) @ [(''occurred_at'', JStr (formatTime srv (sOccurredAt s)))])"

definition json_Transfer :: "'w Server \<Rightarrow> Transfer \<Rightarrow> json" where
  "json_Transfer srv t = JObj
     ([(''transfer_id'', JStr (tTransferID t)), (''from_account_id'', JStr (tFromID t)), (''to_account_id'', JStr (tToID t)),
       (''amount_cents'', JInt (sint (tAmount t))), (''status'', JStr (tStatus t))] @ omitempty ''reason'' (tReason t) @
      [(''created_at'', JStr (formatTime srv (tCreatedAt t))), (''updated_at'', JStr (formatTime srv (tUpdatedAt t)))])"

text \<open>A payload that is no JSON cannot be encoded.\<close>

definition json_Event :: "'w Server \<Rightarrow> Event \<Rightarrow> json option" where
  "json_Event srv e = (case eData e of
       RawInvalid t \<Rightarrow> None
     | RawJSON d \<Rightarrow> Some (JObj
         ([(''id'', JStr (eID e)), (''aggregate_id'', JStr (eAggregateID e)), (''version'', JInt (sint (eVersion e))),
           (''type'', JStr (eType e)), (''data'', d), (''occurred_at'', JStr (formatTime srv (eOccurredAt e)))] @
          (if eSeq e = 0 then [] else [(''seq'', JInt (sint (eSeq e)))]))))"

section \<open>Command handlers\<close>

definition handleOpenAccount :: "'w Server \<Rightarrow> request \<Rightarrow> 'w \<Rightarrow> Response \<times> 'w" where
  "handleOpenAccount srv rq w =
     (case decode_OpenAccountReq (rqValues rq) of
        Inl resp \<Rightarrow> (resp, w)
      | Inr req \<Rightarrow>
          (case srvOpenAccount srv (oaOwner req) (oaInitialDeposit req) w of
             (Inl err, w') \<Rightarrow> (writeError err, w')
           | (Inr i, w') \<Rightarrow> (writeJSON [] 201 (JObj [(''account_id'', JStr i)]), w')))"

definition handleMovement ::
    "(string \<Rightarrow> int64 \<Rightarrow> string \<Rightarrow> 'w \<Rightarrow> error option \<times> 'w) \<Rightarrow> string \<Rightarrow> request \<Rightarrow> 'w \<Rightarrow> Response \<times> 'w" where
  "handleMovement fn i rq w =
     (case decode_MovementReq (rqValues rq) of
        Inl resp \<Rightarrow> (resp, w)
      | Inr req \<Rightarrow>
          (case fn i (mvAmount req) (mvDescription req) w of
             (Some err, w') \<Rightarrow> (writeError err, w')
           | (None, w') \<Rightarrow> (writeJSON [] 200 (JObj [(''status'', JStr ''accepted'')]), w')))"

definition handleDeposit :: "'w Server \<Rightarrow> string \<Rightarrow> request \<Rightarrow> 'w \<Rightarrow> Response \<times> 'w" where
  "handleDeposit srv = handleMovement (srvDeposit srv)"

definition handleWithdraw :: "'w Server \<Rightarrow> string \<Rightarrow> request \<Rightarrow> 'w \<Rightarrow> Response \<times> 'w" where
  "handleWithdraw srv = handleMovement (srvWithdraw srv)"

definition handleTransfer :: "'w Server \<Rightarrow> request \<Rightarrow> 'w \<Rightarrow> Response \<times> 'w" where
  "handleTransfer srv rq w =
     (case decode_TransferReq (rqValues rq) of
        Inl resp \<Rightarrow> (resp, w)
      | Inr req \<Rightarrow>
          (case srvStartTransfer srv (tqFrom req) (tqTo req) (tqAmount req) w of
             (Inl err, w') \<Rightarrow> (writeError err, w')
           | (Inr i, w') \<Rightarrow> (writeJSON [] 202 (JObj [(''status'', JStr ''pending''), (''transfer_id'', JStr i)]), w')))"

section \<open>Query handlers\<close>

definition handleHealth :: "'w Server \<Rightarrow> 'w \<Rightarrow> Response \<times> 'w" where
  "handleHealth srv w =
     (case srvPing srv w of
        (Some err, w') \<Rightarrow> (writeJSON [] 503 (JObj [(''status'', JStr ''unavailable'')]), w')
      | (None, w') \<Rightarrow> (writeJSON [] 200 (JObj [(''status'', JStr ''ok'')]), w'))"

definition handleBalance :: "'w Server \<Rightarrow> string \<Rightarrow> 'w \<Rightarrow> Response \<times> 'w" where
  "handleBalance srv i w =
     (case srvBalance srv i w of
        (Inl err, w') \<Rightarrow> (writeError err, w')
      | (Inr b, w') \<Rightarrow> (writeJSON [] 200 (json_Balance srv b), w'))"

definition handleStatement :: "'w Server \<Rightarrow> string \<Rightarrow> request \<Rightarrow> 'w \<Rightarrow> Response \<times> 'w" where
  "handleStatement srv i rq w =
     (let v = query_Get (rqQuery rq) ''before''
      in case (if v = [] then Some (now_at srv + 1000000000) else parseTime srv v) of
           None \<Rightarrow> (writeJSON [] 400 (errBody (''invalid '' @ [CHR 0x27] @ ''before'' @ [CHR 0x27] @ '': use RFC3339'')), w)
         | Some before \<Rightarrow>
             (case statement_limit (query_Get (rqQuery rq) ''limit'') of
                None \<Rightarrow> (writeJSON [] 400 (errBody (''invalid '' @ [CHR 0x27] @ ''limit'' @ [CHR 0x27] @
                  '': use an integer between 1 and 100'')), w)
              | Some limit \<Rightarrow>
                  (case srvStatement srv i limit before w of
                     (Inl err, w') \<Rightarrow> (writeError err, w')
                   | (Inr es, w') \<Rightarrow>
                       (writeJSON [] 200 (JObj [(''entries'', JArr (map (json_StatementEntry srv) es))]), w'))))"

text \<open>When an event cannot be encoded the status is sent and the body stays empty.\<close>

definition handleEvents :: "'w Server \<Rightarrow> string \<Rightarrow> 'w \<Rightarrow> Response \<times> 'w" where
  "handleEvents srv i w =
     (case srvEvents srv i w of
        (Inl err, w') \<Rightarrow> (writeError err, w')
      | (Inr es, w') \<Rightarrow>
          if es = [] then (writeError ErrAccountNotFound, w')
          else (case those (map (json_Event srv) es) of
              Some vs \<Rightarrow> (writeJSON [] 200 (JObj [(''events'', JArr vs)]), w')
            | None \<Rightarrow> (\<lparr>Status = 200, Headers = [content_json], RespBody = []\<rparr>, w')))"

definition handleGetTransfer :: "'w Server \<Rightarrow> string \<Rightarrow> 'w \<Rightarrow> Response \<times> 'w" where
  "handleGetTransfer srv i w =
     (case srvTransfer srv i w of
        (Inl err, w') \<Rightarrow>
          if errors_Is err ErrNoRows then (writeJSON [] 404 (errBody ''transfer not found''), w')
          else (writeError err, w')
      | (Inr t, w') \<Rightarrow> (writeJSON [] 200 (json_Transfer srv t), w'))"

section \<open>Routes\<close>

datatype route =
    Health
  | OpenAccountR
  | DepositR string
  | WithdrawR string
  | TransferR
  | BalanceR string
  | StatementR string
  | EventsR string
  | GetTransferR string

text \<open>
  The patterns of \<^verbatim>\<open>NewServer\<close> with the method each is registered for; a pattern for \<^verbatim>\<open>GET\<close> also takes
  \<^verbatim>\<open>HEAD\<close>. The patterns of one path differ in the method only. A wildcard takes every segment but the
  slash at the end of a path.
\<close>

definition patterns :: "string list \<Rightarrow> (string \<times> route) list" where
  "patterns segs =
     (case segs of
        [a] \<Rightarrow>
          (if a = ''healthz'' then [(''GET'', Health)] else []) @
          (if a = ''accounts'' then [(''POST'', OpenAccountR)] else []) @
          (if a = ''transfers'' then [(''POST'', TransferR)] else [])
      | [a, i] \<Rightarrow> (if a = ''transfers'' \<and> i \<noteq> [slash] then [(''GET'', GetTransferR i)] else [])
      | [a, i, b] \<Rightarrow>
          (if a \<noteq> ''accounts'' \<or> i = [slash] then []
           else if b = ''deposits'' then [(''POST'', DepositR i)]
           else if b = ''withdrawals'' then [(''POST'', WithdrawR i)]
           else if b = ''balance'' then [(''GET'', BalanceR i)]
           else if b = ''statement'' then [(''GET'', StatementR i)]
           else if b = ''events'' then [(''GET'', EventsR i)]
           else [])
      | _ \<Rightarrow> [])"

definition method_matches :: "string \<Rightarrow> string \<Rightarrow> bool" where
  "method_matches registered method \<longleftrightarrow> method = registered \<or> registered = ''GET'' \<and> method = ''HEAD''"

definition plain_text :: "int \<Rightarrow> (string \<times> string) list \<Rightarrow> string \<Rightarrow> Response" where
  "plain_text status hs t =
     \<lparr>Status = status, Headers = hs @ [(''Content-Type'', ''text/plain; charset=utf-8''), (''X-Content-Type-Options'', ''nosniff'')],
      RespBody = t @ [CHR 0x0A]\<rparr>"

text \<open>
  \<^verbatim>\<open>http.RedirectHandler\<close> to a clean path. \<^verbatim>\<open>http.Redirect\<close> cleans the address once more, which leaves a
  clean path as it is (\<open>clean_escape_clean\<close>).
\<close>

definition redirect_url :: "request \<Rightarrow> string" where
  "redirect_url rq =
     clean_path (escape_path (clean_path (rqEscaped rq))) @ (if rqRawQuery rq = [] then [] else CHR ''?'' # rqRawQuery rq)"

definition redirect_reply :: "request \<Rightarrow> Response" where
  "redirect_reply rq =
     \<lparr>Status = 301,
      Headers = (''Location'', hex_escape_non_ascii (redirect_url rq)) #
        (if rqMethod rq = ''GET'' \<or> rqMethod rq = ''HEAD'' then [(''Content-Type'', ''text/html; charset=utf-8'')] else []),
      RespBody = (if rqMethod rq = ''GET''
        then ''<a href='' @ [CHR 0x22] @ html_escape (redirect_url rq) @ [CHR 0x22] @ ''>Moved Permanently</a>.'' @ [CHR 0x0A, CHR 0x0A]
        else [])\<rparr>"

text \<open>
  \<^verbatim>\<open>ServeMux.ServeHTTP\<close>: a request for \<open>*\<close> is refused; a path that is not in normal form is redirected,
  unless the method is \<^verbatim>\<open>CONNECT\<close>, before any pattern is looked at; no pattern ends in a slash, so there
  is no other redirect.
\<close>

definition route_of :: "request \<Rightarrow> Response + route" where
  "route_of rq =
     (if rqEscaped rq = ''*'' then
        Inl \<lparr>Status = 400, Headers = (if rqHTTP11 rq then [(''Connection'', ''close'')] else []), RespBody = []\<rparr>
      else if rqMethod rq \<noteq> ''CONNECT'' \<and> clean_path (rqEscaped rq) \<noteq> rqEscaped rq then Inl (redirect_reply rq)
      else
        (let ps = patterns (path_segments (rqEscaped rq))
         in case List.find (\<lambda>(m, r). method_matches m (rqMethod rq)) ps of
              Some (m, r) \<Rightarrow> Inr r
            | None \<Rightarrow>
                if ps = [] then Inl (plain_text 404 [] ''404 page not found'')
                else Inl (plain_text 405 [(''Allow'', if fst (hd ps) = ''GET'' then ''GET, HEAD'' else fst (hd ps))] ''Method Not Allowed'')))"

lemma takeWhile_append_cons: "\<forall>c \<in> set u. c \<noteq> d \<Longrightarrow> takeWhile (\<lambda>c. c \<noteq> d) (u @ d # v) = u"
  by (induction u) auto

text \<open>The address of a redirect is the clean path, escaped, with the query of the request.\<close>

lemma redirect_location:
  "Headers (redirect_reply rq) = (''Location'', u) # hs \<Longrightarrow>
     takeWhile (\<lambda>c. c \<noteq> CHR ''?'') u = escape_path (clean_path (rqEscaped rq))"
proof -
  assume u: "Headers (redirect_reply rq) = (''Location'', u) # hs"
  define p where "p = escape_path (clean_path (rqEscaped rq))"
  have p: "\<forall>c \<in> set p. (of_char c :: nat) < 128 \<and> c \<noteq> CHR ''?''" unfolding p_def using escape_path_ascii by blast
  have app: "hex_escape_non_ascii (x @ y) = hex_escape_non_ascii x @ hex_escape_non_ascii y" for x y
    by (simp add: hex_escape_non_ascii_def)
  have "clean_path p = p" "hex_escape_non_ascii p = p"
    using p by (simp_all add: p_def clean_escape_clean hex_escape_ascii)
  then have "u = p @ hex_escape_non_ascii (if rqRawQuery rq = [] then [] else CHR ''?'' # rqRawQuery rq)"
    using u by (simp add: redirect_reply_def redirect_url_def p_def [symmetric] app)
  moreover have "hex_escape_non_ascii (CHR ''?'' # v) = CHR ''?'' # hex_escape_non_ascii v" for v
    by (simp add: hex_escape_non_ascii_def)
  ultimately have "takeWhile (\<lambda>c. c \<noteq> CHR ''?'') u = p"
    using p takeWhile_append_cons [of p "CHR ''?''"] by (auto simp: hex_escape_non_ascii_def takeWhile_eq_all_conv)
  then show ?thesis by (simp add: p_def)
qed

lemma route_redirect:
  assumes "route_of rq = Inl resp" and "Status resp = 301"
  shows "resp = redirect_reply rq" and "rqMethod rq \<noteq> ''CONNECT''" and "clean_path (rqEscaped rq) \<noteq> rqEscaped rq"
  using assms by (auto simp: route_of_def Let_def plain_text_def split: option.splits if_splits)

lemma route_untidy:
  "rqMethod rq \<noteq> ''CONNECT'' \<Longrightarrow> rqEscaped rq \<noteq> ''*'' \<Longrightarrow> clean_path (rqEscaped rq) \<noteq> rqEscaped rq \<Longrightarrow>
     route_of rq = Inl (redirect_reply rq)"
  by (simp add: route_of_def)

lemma route_clean:
  "route_of rq = Inr r \<Longrightarrow> rqMethod rq \<noteq> ''CONNECT'' \<Longrightarrow> clean_path (rqEscaped rq) = rqEscaped rq"
  by (auto simp: route_of_def split: if_splits)

section \<open>The handler of the server\<close>

definition command :: "(request \<Rightarrow> 'w \<Rightarrow> Response \<times> 'w) \<Rightarrow> request \<Rightarrow> 'w call" where
  "command h rq = \<lparr>cMethod = rqMethod rq, cPath = rqPath rq, cKey = rqKey rq, cBody = rqBody rq, cNext = h rq\<rparr>"

fun command_of :: "'w Server \<Rightarrow> request \<Rightarrow> route \<Rightarrow> 'w call option" where
  "command_of srv rq OpenAccountR = Some (command (handleOpenAccount srv) rq)"
| "command_of srv rq (DepositR i) = Some (command (handleDeposit srv i) rq)"
| "command_of srv rq (WithdrawR i) = Some (command (handleWithdraw srv i) rq)"
| "command_of srv rq TransferR = Some (command (handleTransfer srv) rq)"
| "command_of srv rq _ = None"

fun query_of :: "'w Server \<Rightarrow> request \<Rightarrow> route \<Rightarrow> 'w \<Rightarrow> Response \<times> 'w" where
  "query_of srv rq Health = handleHealth srv"
| "query_of srv rq (BalanceR i) = handleBalance srv i"
| "query_of srv rq (StatementR i) = handleStatement srv i rq"
| "query_of srv rq (EventsR i) = handleEvents srv i"
| "query_of srv rq (GetTransferR i) = handleGetTransfer srv i"
| "query_of srv rq _ = (\<lambda>w. (plain_text 404 [] ''404 page not found'', w))"

definition mux :: "'w Server \<Rightarrow> ('w \<Rightarrow> 'w) \<Rightarrow> request \<Rightarrow> 'w \<Rightarrow> Response \<times> 'w" where
  "mux srv meanwhile rq w =
     (case route_of rq of
        Inl resp \<Rightarrow> (resp, w)
      | Inr r \<Rightarrow>
          (case command_of srv rq r of
             Some c \<Rightarrow> idempotent (srvIdem srv) meanwhile c w
           | None \<Rightarrow> query_of srv rq r w))"

text \<open>\<^verbatim>\<open>Handler\<close>: the limiter before everything else; \<^verbatim>\<open>withLogging\<close> only observes.\<close>

definition serve ::
    "bool \<Rightarrow> 'w Server \<Rightarrow> ('w \<Rightarrow> 'w) \<Rightarrow> request \<Rightarrow> int \<Rightarrow> RateLimiter \<times> 'w \<Rightarrow> Response \<times> RateLimiter \<times> 'w" where
  "serve fma srv meanwhile rq t x =
     (case x of (rl, w) \<Rightarrow>
        (case Allow fma rl (clientIP (rqRemote rq)) t of
           (False, rl') \<Rightarrow> (writeJSON [retry_after] 429 (errBody ''rate limit exceeded''), rl', w)
         | (True, rl') \<Rightarrow> (case mux srv meanwhile rq w of (resp, w') \<Rightarrow> (resp, rl', w'))))"

end
