(* ===== verification/Server_Postgres.thy ===== *)
theory Server_Postgres
  imports Server Postgres_App
begin

text \<open>
  The server as \<^verbatim>\<open>cmd/api/main.go\<close> puts it together: commands on the event store in Postgres, queries
  and idempotency keys on the same database.
\<close>

section \<open>The wiring\<close>

definition on_db :: "(DB \<Rightarrow> 'a \<times> DB) \<Rightarrow> DB \<times> 'b \<Rightarrow> 'a \<times> DB \<times> 'b" where
  "on_db f w = (case w of (db, b) \<Rightarrow> (case f db of (r, db') \<Rightarrow> (r, db', b)))"

text \<open>
  \<open>env\<close> supplies the random bytes and the clock of one command and what happens between its
  accesses; \<open>tb\<close> are the random bytes of a transfer id, \<open>pub\<close> publishes on the bus.
\<close>

definition pg_app :: "server \<Rightarrow> ('b \<Rightarrow> Event \<Rightarrow> 'b) \<Rightarrow> (DB, 'b) App" where
  "pg_app srv pub = \<lparr>appStore = postgres_store srv, appPublish = pub\<rparr>"

definition pg_server ::
    "server \<Rightarrow> ('b \<Rightarrow> Event \<Rightarrow> 'b) \<Rightarrow> DB env \<Rightarrow> u8 list \<Rightarrow> (int \<Rightarrow> string) \<Rightarrow> (string \<Rightarrow> int option) \<Rightarrow> int \<Rightarrow> (DB \<times> 'b) Server" where
  "pg_server srv pub env tb fmt parse now_t =
     \<lparr>srvOpenAccount = app_OpenAccount (pg_app srv pub) env,
      srvDeposit = app_Deposit (pg_app srv pub) env,
      srvWithdraw = app_Withdraw (pg_app srv pub) env,
      srvStartTransfer = app_StartTransfer (pg_app srv pub) env tb,
      srvEvents = (\<lambda>i. on_db (\<lambda>db. pg_EventsByAggregate srv db i)),
      srvPing = on_db (q_Ping srv True),
      srvBalance = (\<lambda>i. on_db (q_Balance srv i)),
      srvStatement = (\<lambda>i limit before. on_db (q_Statement srv i limit before)),
      srvTransfer = (\<lambda>i. on_db (q_Transfer srv i)),
      srvIdem = on_fst (PGIdempotency srv),
      formatTime = fmt, parseTime = parse, now_at = now_t\<rparr>"

section \<open>Commands leave the keys alone\<close>

definition keeps_keys :: "(DB \<Rightarrow> 'a \<times> DB) \<Rightarrow> bool" where
  "keeps_keys f \<longleftrightarrow> (\<forall>db. idem_keys (snd (f db)) = idem_keys db)"

lemma keeps_keysD: "keeps_keys f \<Longrightarrow> f db = (r, db') \<Longrightarrow> idem_keys db' = idem_keys db"
  by (metis keeps_keys_def snd_conv)

lemma keeps_keys_exec:
  assumes "keeps_keys stmt"
  shows "keeps_keys (exec srv stmt)"
  using assms by (auto simp: keeps_keys_def exec_def split: fault.splits)

lemma keeps_keys_insert_event: "keeps_keys (insert_event srv e)"
  by (simp add: keeps_keys_def insert_event_def Let_def split: sum.split)

lemma keeps_keys_upsert: "keeps_keys (upsert_snapshot srv g v state)"
  by (auto simp: keeps_keys_def upsert_snapshot_def Let_def split: sum.splits option.splits if_splits)

lemma keeps_keys_load: "keeps_keys (\<lambda>db. pg_Load srv (\<lambda>d. d) db g)"
proof -
  have "idem_keys db' = idem_keys db" if "pg_Load srv (\<lambda>d. d) db g = (r, db')" for db db' r
    using pg_Load_db [OF that] by auto
  then show ?thesis by (metis keeps_keys_def prod.collapse)
qed

lemma insert_loop_keys: "idem_keys (snd (pg_insert_loop srv g v i es db)) = idem_keys db"
proof (induction es arbitrary: i db)
  case (Cons e es)
  obtain r db' where x: "exec srv (insert_event srv e) db = (r, db')" by fastforce
  then have "idem_keys db' = idem_keys db"
    using keeps_keysD [OF keeps_keys_exec [OF keeps_keys_insert_event]] by blast
  with Cons.IH x show ?case by (auto simp: Let_def split: sum.split)
qed simp

lemma saveSnapshot_keys: "idem_keys (saveSnapshot srv (\<lambda>d. d) g db) = idem_keys db"
proof -
  obtain r db1 where l: "pg_Load srv (\<lambda>d. d) db g = (r, db1)" by fastforce
  then have "idem_keys db1 = idem_keys db" by (rule keeps_keysD [OF keeps_keys_load])
  moreover have "idem_keys (snd (exec srv (upsert_snapshot srv g v state) db1)) = idem_keys db1" for v state
    using keeps_keys_exec [OF keeps_keys_upsert] unfolding keeps_keys_def by blast
  ultimately show ?thesis using l by (simp add: saveSnapshot_def split: sum.split)
qed

lemma Append_keys: "idem_keys (snd (pg_Append srv db g v es)) = idem_keys db"
proof (cases "es = []")
  case False
  obtain b db1 where B: "BeginTx srv db = (b, db1)" by fastforce
  then have k1: "idem_keys db1 = idem_keys db" using BeginTx_db by fastforce
  obtain r db2 where L: "pg_insert_loop srv g v 0 es db1 = (r, db2)" by fastforce
  then have k2: "idem_keys db2 = idem_keys db" using insert_loop_keys [of srv g v 0 es db1] k1 by simp
  obtain c db3 where C: "Commit srv db1 db2 = (c, db3)" by fastforce
  then have k3: "idem_keys db3 = idem_keys db" using k1 k2 by (auto elim!: Commit_cases)
  show ?thesis using False B L C k1 k2 k3
    by (simp add: pg_Append_def saveSnapshot_keys split: sum.split option.split)
qed (simp add: pg_Append_def)

lemma mutate_keys: "idem_keys (fst (snd (mutate_from (pg_app srv pub) (quiet dr) dec g n i w))) = idem_keys (fst w)"
proof (induction n arbitrary: i w)
  case 0
  then show ?case by (cases w) simp
next
  case (Suc n)
  obtain db b where w: "w = (db, b)" by fastforce
  obtain r db1 where l: "pg_Load srv (\<lambda>d. d) db g = (r, db1)" by fastforce
  then have k1: "idem_keys db1 = idem_keys db" by (rule keeps_keysD [OF keeps_keys_load])
  have A: "idem_keys (snd (pg_Append srv db1 g v es)) = idem_keys db" for v es using Append_keys k1 by metis
  have A': "pg_Append srv db1 g v es = (x, db2) \<Longrightarrow> idem_keys db2 = idem_keys db" for v es x db2 using A [of v es] by simp
  show ?case
    using l k1 A' Suc.IH
    by (auto simp: w mutate_read_def mutate_write_def pg_app_def postgres_store_def quiet_def split: sum.splits prod.splits option.splits)
qed

lemma app_keys:
  "idem_keys (fst (snd (app_Deposit (pg_app srv pub) (quiet dr) g n desc w))) = idem_keys (fst w)"
  "idem_keys (fst (snd (app_Withdraw (pg_app srv pub) (quiet dr) g n desc w))) = idem_keys (fst w)"
  "idem_keys (fst (snd (app_StartTransfer (pg_app srv pub) (quiet dr) tb g h n w))) = idem_keys (fst w)"
  "idem_keys (fst (snd (app_OpenAccount (pg_app srv pub) (quiet dr) own n w))) = idem_keys (fst w)"
proof -
  show "idem_keys (fst (snd (app_Deposit (pg_app srv pub) (quiet dr) g n desc w))) = idem_keys (fst w)"
    "idem_keys (fst (snd (app_Withdraw (pg_app srv pub) (quiet dr) g n desc w))) = idem_keys (fst w)"
    by (simp_all add: app_Deposit_def app_Withdraw_def mutate_def mutate_keys)
  obtain r w' where M: "mutate (pg_app srv pub) (quiet dr) g (\<lambda>d acc. DebitTransfer d acc (NewID tb) h n) w = (r, w')"
    by (metis surj_pair)
  then have "idem_keys (fst w') = idem_keys (fst w)" using mutate_keys unfolding mutate_def by (metis snd_conv)
  with M show "idem_keys (fst (snd (app_StartTransfer (pg_app srv pub) (quiet dr) tb g h n w))) = idem_keys (fst w)"
    by (simp add: app_StartTransfer_def split: option.split)
  have A: "pg_Append srv db g' v es = (x, db2) \<Longrightarrow> idem_keys db2 = idem_keys db" for db g' v es x db2
    by (metis Append_keys snd_conv)
  show "idem_keys (fst (snd (app_OpenAccount (pg_app srv pub) (quiet dr) own n w))) = idem_keys (fst w)"
    by (cases w) (auto simp: app_OpenAccount_def pg_app_def postgres_store_def Let_def dest: A split: sum.splits prod.splits option.splits)
qed

text \<open>A request to a command, each with random bytes and a clock of its own.\<close>

definition pg_command :: "server \<Rightarrow> ('b \<Rightarrow> Event \<Rightarrow> 'b) \<Rightarrow> (DB \<times> 'b) call \<Rightarrow> bool" where
  "pg_command srv pub c \<longleftrightarrow>
     (\<exists>dr tb fmt parse t rq r. command_of (pg_server srv pub (quiet dr) tb fmt parse t) rq r = Some c)"

lemma movement_keys:
  assumes "\<And>g n d w. idem_keys (fst (snd (fn g n d w))) = idem_keys (fst w)"
  shows "idem_keys (fst (snd (handleMovement fn i rq w))) = idem_keys (fst w)"
proof -
  have "fn g n d w = (x, w') \<Longrightarrow> idem_keys (fst w') = idem_keys (fst w)" for g n d x w' using assms [of g n d w] by simp
  then show ?thesis by (auto simp: handleMovement_def split: sum.split prod.split option.split)
qed

lemma pg_command_keys:
  assumes "pg_command srv pub c"
  shows "pg_keys (fst (snd (cNext c w))) = pg_keys (fst w)"
proof -
  obtain dr tb fmt parse t rq r where c: "command_of (pg_server srv pub (quiet dr) tb fmt parse t) rq r = Some c"
    using assms unfolding pg_command_def by blast
  have O: "app_OpenAccount (pg_app srv pub) (quiet dr) own n w = (x, db, b) \<Longrightarrow> idem_keys db = idem_keys (fst w)" for own n x db b
    by (metis app_keys(4) fst_conv snd_conv)
  have T: "app_StartTransfer (pg_app srv pub) (quiet dr) tb g h n w = (x, db, b) \<Longrightarrow> idem_keys db = idem_keys (fst w)" for g h n x db b
    by (metis app_keys(3) fst_conv snd_conv)
  have "idem_keys (fst (snd (cNext c w))) = idem_keys (fst w)"
  proof (cases r)
    case OpenAccountR
    with c show ?thesis by (auto simp: command_def handleOpenAccount_def pg_server_def dest: O split: sum.split prod.split)
  next
    case (DepositR i)
    with c show ?thesis by (auto simp: command_def handleDeposit_def pg_server_def movement_keys app_keys)
  next
    case (WithdrawR i)
    with c show ?thesis by (auto simp: command_def handleWithdraw_def pg_server_def movement_keys app_keys)
  next
    case TransferR
    with c show ?thesis by (auto simp: command_def handleTransfer_def pg_server_def dest: T split: sum.split prod.split)
  qed (use c in simp_all)
  then show ?thesis by (rule pg_keys_same)
qed

section \<open>Concurrent requests\<close>

text \<open>
  C36. Whatever number of requests come in with one new \<^verbatim>\<open>Idempotency-Key\<close>, in whatever order their
  accesses to the database interleave and whatever accesses fail, the server runs at most one of
  their commands; and a request that is answered from the stored record gets the status and the
  body of the response of that one run, which was to a request with the same hash.
\<close>

theorem commands_run_once:
  assumes "\<And>c. c \<in> set calls \<Longrightarrow> pg_command srv pub c"
    and "idem_run (on_fst (PGIdempotency srv)) calls (w0, replicate (length calls) Arrived) (w, ps)"
    and "pg_keys (fst w0) k = None"
  shows "card {i. i < length calls \<and> cKey (calls ! i) = k \<and> executed (ps ! i)} \<le> 1 \<and>
    (\<forall>i < length calls. \<forall>resp. cKey (calls ! i) = k \<and> ps ! i = Answered False resp \<and> replayed resp \<longrightarrow>
      (\<exists>j < length calls. \<exists>resp'. cKey (calls ! j) = k \<and> call_hash (calls ! j) = call_hash (calls ! i) \<and>
        response_of (ps ! j) = Some resp' \<and> Status resp' = Status resp \<and> RespBody resp' = RespBody resp))"
proof -
  note once = pg_api.one_execution [OF assms(2,3) pg_command_keys [OF assms(1)]]
  have "\<exists>j < length calls. \<exists>resp'. cKey (calls ! j) = k \<and> call_hash (calls ! j) = call_hash (calls ! i) \<and>
      response_of (ps ! j) = Some resp' \<and> Status resp' = Status resp \<and> RespBody resp' = RespBody resp"
    if "i < length calls" "cKey (calls ! i) = k" "ps ! i = Answered False resp" "replayed resp" for i resp
    using once(2) [OF _ that] unfolding made_def by blast
  with once(1) show ?thesis by blast
qed

section \<open>The store of keys on a database that works\<close>

abbreviation keys_of :: "server \<Rightarrow> (DB \<times> 'b) IdempotencyStore" where
  "keys_of srv \<equiv> on_fst (PGIdempotency srv)"

lemma reserve_new:
  assumes "faults srv (ticks (fst w)) = Works" and "pg_keys (fst w) k = None"
  shows "\<exists>w'. ReserveInsert (keys_of srv) w k h = (Inserted, w') \<and> pg_keys (fst w') = (pg_keys (fst w))(k \<mapsto> reserved h)"
proof -
  have "idem_keys (fst w) k = None" using assms(2) by (simp add: pg_keys_def)
  then obtain w' where w': "ReserveInsert (keys_of srv) w k h = (Inserted, w')"
    using assms(1) by (cases w) (simp add: on_fst_def PGIdempotency_def pg_ReserveInsert_def exec_def insert_key_def map_prod_def)
  with pg_api.reserve_inserted [OF w'] show ?thesis by blast
qed

lemma reserve_old:
  assumes "faults srv (ticks (fst w)) = Works" and "pg_keys (fst w) k = Some rec"
  shows "ReserveInsert (keys_of srv) w k h = (Taken, tick (fst w), snd w)"
    and "ReserveSelect (keys_of srv) w k = (Inr rec, tick (fst w), snd w)"
proof -
  obtain r where r: "idem_keys (fst w) k = Some r" using assms(2) by (auto simp: pg_keys_def)
  then show "ReserveInsert (keys_of srv) w k h = (Taken, tick (fst w), snd w)"
    using assms(1) by (cases w) (simp add: on_fst_def PGIdempotency_def pg_ReserveInsert_def exec_def insert_key_def map_prod_def)
  show "ReserveSelect (keys_of srv) w k = (Inr rec, tick (fst w), snd w)"
    using assms r
    by (cases w) (simp add: on_fst_def PGIdempotency_def pg_ReserveSelect_def exec_def select_key_def map_prod_def pg_keys_def)
qed

lemma complete_works:
  assumes "faults srv (ticks (fst w)) = Works"
  shows "\<exists>w'. Complete (keys_of srv) w k c b = (None, w') \<and>
    pg_keys (fst w') = (pg_keys (fst w))(k := map_option (completed c b) (pg_keys (fst w) k))"
proof -
  obtain w' where w': "Complete (keys_of srv) w k c b = (None, w')"
    using assms by (cases w) (simp add: on_fst_def PGIdempotency_def pg_Complete_def exec_def update_key_def map_prod_def)
  with pg_api.complete_effect [OF w'] show ?thesis by blast
qed

lemma complete_fails:
  assumes "faults srv (ticks (fst w)) = Fails err"
  shows "Complete (keys_of srv) w k c b = (Some err, tick (fst w), snd w)"
  using assms by (cases w) (simp add: on_fst_def PGIdempotency_def pg_Complete_def exec_def map_prod_def)

text \<open>A request whose key exists, answered from the record.\<close>

lemma idempotent_existing:
  assumes "\<And>t. ticks (fst w) \<le> t \<Longrightarrow> faults srv t = Works" and "refused c = None" and "pg_keys (fst w) (cKey c) = Some rec"
  shows "idempotent (keys_of srv) (\<lambda>x. x) c w = (answer_existing (call_hash c) rec, tick (tick (fst w)), snd w)"
proof -
  have 1: "ReserveInsert (keys_of srv) w (cKey c) (call_hash c) = (Taken, tick (fst w), snd w)"
    using assms(1,3) by (intro reserve_old) auto
  have "ReserveSelect (keys_of srv) (tick (fst w), snd w) (cKey c) = (Inr rec, tick (fst (tick (fst w), snd w)), snd (tick (fst w), snd w))"
    using assms(1,3) by (intro reserve_old) auto
  with 1 show ?thesis by (simp add: idempotent_def Reserve_def assms(2))
qed

text \<open>A request with a new key, up to the point where its response is stored.\<close>

lemma idempotent_new:
  assumes "faults srv (ticks (fst w)) = Works" and "refused c = None" and "pg_keys (fst w) (cKey c) = None"
    and "pg_command srv pub c" and "idempotent (keys_of srv) m c w = (resp, w1)"
  obtains wa wb x where "ReserveInsert (keys_of srv) w (cKey c) (call_hash c) = (Inserted, wa)"
    and "cNext c wa = (resp, wb)" and "Complete (keys_of srv) wb (cKey c) (Status resp) (RespBody resp) = (x, w1)"
    and "pg_keys (fst wb) (cKey c) = Some (reserved (call_hash c))"
proof -
  obtain wa where wa: "ReserveInsert (keys_of srv) w (cKey c) (call_hash c) = (Inserted, wa)"
      "pg_keys (fst wa) = (pg_keys (fst w))(cKey c \<mapsto> reserved (call_hash c))"
    using reserve_new [OF assms(1,3)] by blast
  obtain r wb where wb: "cNext c wa = (r, wb)" by (metis surj_pair)
  obtain x w3 where C: "Complete (keys_of srv) wb (cKey c) (Status r) (RespBody r) = (x, w3)" by (metis surj_pair)
  have "idempotent (keys_of srv) m c w = (r, w3)" by (simp add: idempotent_def Reserve_def assms(2) wa wb C)
  with assms(5) have "r = resp" "w3 = w1" by simp_all
  moreover have "pg_keys (fst wb) = pg_keys (fst wa)" using pg_command_keys [OF assms(4), of wa] wb by simp
  ultimately show thesis using that wa wb C by simp
qed

section \<open>Status codes\<close>

definition statuses :: "int list" where
  "statuses = [200, 201, 202, 400, 404, 405, 409, 422, 429, 500, 503, 504]"

lemma writeError_statuses: "Status (writeError err) \<in> set statuses"
  by (simp add: writeError_def statuses_def)

lemma statuses_simps [simp]:
  "200 \<in> set statuses" "201 \<in> set statuses" "202 \<in> set statuses" "400 \<in> set statuses" "404 \<in> set statuses"
  "405 \<in> set statuses" "409 \<in> set statuses" "422 \<in> set statuses" "429 \<in> set statuses" "503 \<in> set statuses" "0 \<notin> set statuses"
  by (simp_all add: statuses_def)

lemma decode_statuses:
  "decode_OpenAccountReq vs = Inl resp \<Longrightarrow> Status resp = 400" "decode_MovementReq vs = Inl resp \<Longrightarrow> Status resp = 400"
  "decode_TransferReq vs = Inl resp \<Longrightarrow> Status resp = 400"
  by (auto simp: decode_OpenAccountReq_def decode_MovementReq_def decode_TransferReq_def dest: decode_status)

lemmas reply_status = decode_statuses writeError_statuses

lemma movement_status: "Status (fst (handleMovement fn i rq w)) \<in> set statuses"
  by (auto simp: handleMovement_def reply_status split: sum.split prod.split option.split)

lemma command_status:
  assumes "command_of srv rq r = Some c"
  shows "Status (fst (cNext c w)) \<in> set statuses"
proof (cases r)
  case OpenAccountR
  with assms show ?thesis by (auto simp: command_def handleOpenAccount_def reply_status split: sum.split prod.split)
next
  case TransferR
  with assms show ?thesis by (auto simp: command_def handleTransfer_def reply_status split: sum.split prod.split)
qed (use assms movement_status in \<open>auto simp: command_def handleDeposit_def handleWithdraw_def\<close>)

lemma pg_command_status: "pg_command srv pub c \<Longrightarrow> Status (fst (cNext c w)) \<in> set statuses"
  by (auto simp: pg_command_def intro: command_status)


















section \<open>Retries\<close>

text \<open>
  C37. On a database that works, the first request with a new key runs its command, and every later
  request with this key and the same method, path and body is answered with the status and the
  body of the first response: it does not run the command again and changes no table. This holds
  for every response, also for one that asks the client to try again.
\<close>

theorem retry_is_replay:
  assumes "\<And>t. faults srv t = Works" and "pg_command srv pub c" and "refused c = None"
    and "pg_keys (fst w) (cKey c) = None" and "idempotent (keys_of srv) (\<lambda>x. x) c w = (resp, w1)"
    and "pg_keys (fst w2) (cKey c) = pg_keys (fst w1) (cKey c)"
    and "refused c' = None" and "cKey c' = cKey c" and "call_hash c' = call_hash c"
  shows "idempotent (keys_of srv) (\<lambda>x. x) c' w2 =
    (\<lparr>Status = Status resp, Headers = [content_json, replay_mark], RespBody = RespBody resp\<rparr>, tick (tick (fst w2)), snd w2)"
proof -
  obtain wa wb x where 1: "ReserveInsert (keys_of srv) w (cKey c) (call_hash c) = (Inserted, wa)"
      "cNext c wa = (resp, wb)" "Complete (keys_of srv) wb (cKey c) (Status resp) (RespBody resp) = (x, w1)"
      "pg_keys (fst wb) (cKey c) = Some (reserved (call_hash c))"
    using idempotent_new [OF assms(1,3,4,2,5)] .
  then have "pg_keys (fst w1) (cKey c) = Some (completed (Status resp) (RespBody resp) (reserved (call_hash c)))"
    using complete_works [OF assms(1), of wb "cKey c" "Status resp" "RespBody resp"] by auto
  then have "pg_keys (fst w2) (cKey c') = Some (completed (Status resp) (RespBody resp) (reserved (call_hash c)))"
    using assms(6,8) by simp
  note again = idempotent_existing [OF assms(1,7) this]
  have "Status resp \<noteq> 0" using pg_command_status [OF assms(2), of wa] 1(2) by auto
  then show ?thesis using again assms(9) by (simp add: answer_existing_def completed_def reserved_def)
qed

text \<open>
  C39. When the statement that stores the response fails (for one, because the client has gone away
  and the context of its request with it), the command has run and its client was told, but the key
  stays reserved: every later request with it is answered with 409 as if the first were still being
  processed, for ever.
\<close>

theorem failed_complete_blocks_key:
  assumes "\<And>t. t \<noteq> n \<Longrightarrow> faults srv t = Works" and "faults srv n = Fails err" and "pg_command srv pub c" and "refused c = None"
    and "pg_keys (fst w) (cKey c) = None" and "ticks (fst w) < n"
    and "ReserveInsert (keys_of srv) w (cKey c) (call_hash c) = (Inserted, wa)" and "n = ticks (fst (snd (cNext c wa)))"
    and "idempotent (keys_of srv) (\<lambda>x. x) c w = (resp, w1)"
    and "pg_keys (fst w2) (cKey c) = pg_keys (fst w1) (cKey c)" and "n < ticks (fst w2)"
    and "refused c' = None" and "cKey c' = cKey c" and "call_hash c' = call_hash c"
  shows "resp = fst (cNext c wa) \<and> idempotent (keys_of srv) (\<lambda>x. x) c' w2 =
    (writeJSON [retry_after] 409 (errBody ''original request still processing''), tick (tick (fst w2)), snd w2)"
proof -
  have "faults srv (ticks (fst w)) = Works" using assms(1,6) by simp
  from idempotent_new [OF this assms(4,5,3,9)] obtain wb x where 1: "cNext c wa = (resp, wb)"
      "Complete (keys_of srv) wb (cKey c) (Status resp) (RespBody resp) = (x, w1)"
      "pg_keys (fst wb) (cKey c) = Some (reserved (call_hash c))"
    using assms(7) by (metis prod.inject)
  have "faults srv (ticks (fst wb)) = Fails err" using 1(1) assms(2,8) by simp
  then have "pg_keys (fst w1) = pg_keys (fst wb)" using complete_fails 1(2) by fastforce
  then have k: "pg_keys (fst w2) (cKey c') = Some (reserved (call_hash c))" using assms(10,13) 1(3) by simp
  have "faults srv t = Works" if "ticks (fst w2) \<le> t" for t using assms(1,11) that by simp
  from idempotent_existing [OF this assms(12) k] show ?thesis
    using 1(1) assms(14) by (simp add: answer_existing_def reserved_def)
qed

section \<open>Examples\<close>

definition deposit_request :: request where
  "deposit_request =
     \<lparr>rqMethod = ''POST'', rqPath = ''/accounts/'' @ ana @ ''/deposits'', rqEscaped = ''/accounts/'' @ ana @ ''/deposits'',
      rqRawQuery = [], rqQuery = [], rqKey = ''key-1'', rqBody = Some ([CHR 0x7B, CHR 0x22] @ ''amount_cents'' @ [CHR 0x22] @ '':5'' @ [CHR 0x7D]),
      rqValues = [RawJSON (JObj [(''amount_cents'', JInt 5)])], rqRemote = ''10.0.0.1:51234'', rqHTTP11 = True\<rparr>"

definition sample_api :: "server \<Rightarrow> (DB \<times> Event list) Server" where
  "sample_api srv = pg_server srv (\<lambda>b e. b @ [e]) (quiet (\<lambda>i. sample_draw (20 + i))) (replicate 16 7) (\<lambda>t. []) (\<lambda>s. None) 0"

definition deposit_call :: "server \<Rightarrow> (DB \<times> Event list) call" where
  "deposit_call srv = command (handleDeposit (sample_api srv) ana) deposit_request"

lemma deposit_call_command: "pg_command srv (\<lambda>b e. b @ [e]) (deposit_call srv)"
proof -
  have "command_of (pg_server srv (\<lambda>b e. b @ [e]) (quiet (\<lambda>i. sample_draw (20 + i))) (replicate 16 7) (\<lambda>t. []) (\<lambda>s. None) 0)
      deposit_request (DepositR ana) = Some (deposit_call srv)"
    by (simp add: deposit_call_def sample_api_def)
  then show ?thesis unfolding pg_command_def by blast
qed

lemma deposit_call_simps [simp]: "cKey (deposit_call srv) = ''key-1''" "refused (deposit_call srv) = None"
proof -
  show k: "cKey (deposit_call srv) = ''key-1''" by (simp add: deposit_call_def command_def deposit_request_def)
  have "validateIdempotencyKey ''key-1'' = None" by code_simp
  then show "refused (deposit_call srv) = None"
    by (simp add: refused_def k) (simp add: deposit_call_def command_def deposit_request_def)
qed

lemma pg_two_accounts_keys: "pg_keys pg_two_accounts k = None"
  by (simp add: pg_keys_def pg_two_accounts_def empty_DB_def)

lemma healthy_works: "faults healthy_server t = Works"
  by (simp add: healthy_server_def sample_server_def)

text \<open>The second of two equal requests comes while the first is running.\<close>

lemma two_deposits:
  fixes c :: "(DB \<times> Event list) call"
  defines "c \<equiv> deposit_call healthy_server"
  shows "\<exists>w ps. idem_run (keys_of healthy_server) [c, c] ((pg_two_accounts, []), [Arrived, Arrived]) (w, ps) \<and> executed (ps ! 0) \<and>
    ps ! 1 = Answered False (writeJSON [retry_after] 409 (errBody ''original request still processing''))"
proof -
  let ?st = "keys_of healthy_server" and ?h = "call_hash c"
  obtain wa where wa: "ReserveInsert ?st (pg_two_accounts, [] :: Event list) ''key-1'' ?h = (Inserted, wa)"
      "pg_keys (fst wa) ''key-1'' = Some (reserved ?h)"
    using reserve_new [OF healthy_works, of "(pg_two_accounts, [] :: Event list)" "''key-1''" ?h] by (auto simp: pg_two_accounts_keys)
  let ?wt = "(tick (fst wa), snd wa)" and ?p = "Answered False (answer_existing ?h (reserved ?h))"
  let ?wu = "(tick (fst ?wt), snd ?wt)"
  obtain resp wb where wb: "cNext c ?wu = (resp, wb)" by (metis surj_pair)
  obtain x wc where wc: "Complete ?st wb ''key-1'' (Status resp) (RespBody resp) = (x, wc)" by (metis surj_pair)
  note adv = advance [of _ "[c, c]" _ ?st]
  have "idem_step ?st [c, c] ((pg_two_accounts, []), [Arrived, Arrived]) (wa, [Running, Arrived])"
    using adv [of 0 "[Arrived, Arrived]"] wa(1) by (simp add: c_def)
  moreover have "idem_step ?st [c, c] (wa, [Running, Arrived]) (?wt, [Running, Reading])"
    using adv [of 1 "[Running, Arrived]"] reserve_old(1) [OF healthy_works wa(2)] by (simp add: c_def)
  moreover have "idem_step ?st [c, c] (?wt, [Running, Reading]) (?wu, [Running, ?p])"
    using adv [of 1 "[Running, Reading]"] reserve_old(2) [OF healthy_works, of ?wt "''key-1''" "reserved ?h"] wa(2) by (simp add: c_def)
  moreover have "idem_step ?st [c, c] (?wu, [Running, ?p]) (wb, [Finishing resp, ?p])"
    using adv [of 0 "[Running, ?p]"] wb by (simp add: c_def)
  moreover have "idem_step ?st [c, c] (wb, [Finishing resp, ?p]) (wc, [Answered True resp, ?p])"
    using adv [of 0 "[Finishing resp, ?p]"] wc by (simp add: c_def)
  ultimately have "idem_run ?st [c, c] ((pg_two_accounts, []), [Arrived, Arrived]) (wc, [Answered True resp, ?p])"
    by (meson converse_rtranclp_into_rtranclp rtranclp.rtrancl_refl)
  then show ?thesis by (intro exI [of _ wc] exI [of _ "[Answered True resp, ?p]"]) (simp add: answer_existing_def reserved_def)
qed

theorem commands_run_once_witness:
  "\<exists>w ps. idem_run (keys_of healthy_server) [deposit_call healthy_server, deposit_call healthy_server]
      ((pg_two_accounts, []), [Arrived, Arrived]) (w, ps) \<and> executed (ps ! 0) \<and>
    card {i. i < 2 \<and> cKey ([deposit_call healthy_server, deposit_call healthy_server] ! i) = ''key-1'' \<and> executed (ps ! i)} \<le> 1"
proof -
  let ?calls = "[deposit_call healthy_server, deposit_call healthy_server]"
  obtain w ps where run: "idem_run (keys_of healthy_server) ?calls ((pg_two_accounts, []), [Arrived, Arrived]) (w, ps)"
      "executed (ps ! 0)"
    using two_deposits by blast
  have cmd: "pg_command healthy_server (\<lambda>b e. b @ [e]) c" if "c \<in> set ?calls" for c
    using that by (auto simp: deposit_call_command)
  have "idem_run (keys_of healthy_server) ?calls ((pg_two_accounts, []), replicate (length ?calls) Arrived) (w, ps)"
    using run(1) by simp
  from commands_run_once [OF cmd this, where k = "''key-1''"]
  have "card {i. i < length ?calls \<and> cKey (?calls ! i) = ''key-1'' \<and> executed (ps ! i)} \<le> 1"
    by (simp add: pg_two_accounts_keys)
  with run show ?thesis by (intro exI [of _ w] exI [of _ ps]) (simp add: numeral_2_eq_2)
qed

theorem retry_is_replay_witness:
  "\<exists>resp w1. idempotent (keys_of healthy_server) (\<lambda>x. x) (deposit_call healthy_server) (pg_two_accounts, []) = (resp, w1) \<and>
    fst (idempotent (keys_of healthy_server) (\<lambda>x. x) (deposit_call healthy_server) w1) =
      \<lparr>Status = Status resp, Headers = [content_json, replay_mark], RespBody = RespBody resp\<rparr>"
proof -
  obtain resp w1 where 1: "idempotent (keys_of healthy_server) (\<lambda>x. x) (deposit_call healthy_server) (pg_two_accounts, []) = (resp, w1)"
    by (metis surj_pair)
  from retry_is_replay [OF healthy_works deposit_call_command _ _ 1 refl _ refl refl] 1 show ?thesis
    by (auto simp: pg_two_accounts_keys)
qed

text \<open>A request with an empty body; the statement after the one that reserves its key fails.\<close>

definition hasty_server :: server where
  "hasty_server = sample_server (\<lambda>t. if t = 1 then Fails Canceled else Works)"

definition empty_call :: "(DB \<times> Event list) call" where
  "empty_call = command (handleDeposit (sample_api hasty_server) ana) (deposit_request\<lparr>rqBody := Some [], rqValues := []\<rparr>)"

lemma empty_call_simps [simp]: "cKey empty_call = ''key-1''" "refused empty_call = None" "snd (cNext empty_call w) = w"
proof -
  show k: "cKey empty_call = ''key-1''" by (simp add: empty_call_def command_def deposit_request_def)
  have "validateIdempotencyKey ''key-1'' = None" by code_simp
  then show "refused empty_call = None"
    by (simp add: refused_def k) (simp add: empty_call_def command_def deposit_request_def)
  show "snd (cNext empty_call w) = w"
    by (simp add: empty_call_def command_def deposit_request_def handleDeposit_def handleMovement_def decode_MovementReq_def decode_def)
qed

theorem failed_complete_blocks_key_witness:
  "\<exists>resp w1. idempotent (keys_of hasty_server) (\<lambda>x. x) empty_call (pg_two_accounts, []) = (resp, w1) \<and>
    fst (idempotent (keys_of hasty_server) (\<lambda>x. x) empty_call w1) =
      writeJSON [retry_after] 409 (errBody ''original request still processing'')"
proof -
  have w: "t \<noteq> 1 \<Longrightarrow> faults hasty_server t = Works" and f: "faults hasty_server 1 = Fails Canceled" for t
    by (simp_all add: hasty_server_def sample_server_def)
  have c: "pg_command hasty_server (\<lambda>b e. b @ [e]) empty_call"
  proof -
    have "command_of (sample_api hasty_server) (deposit_request\<lparr>rqBody := Some [], rqValues := []\<rparr>) (DepositR ana) = Some empty_call"
      by (simp add: empty_call_def)
    then show ?thesis unfolding pg_command_def sample_api_def by blast
  qed
  have t0: "ticks pg_two_accounts = 0" by (simp add: pg_two_accounts_def empty_DB_def)
  obtain wa where wa: "ReserveInsert (keys_of hasty_server) (pg_two_accounts, [] :: Event list) ''key-1'' (call_hash empty_call) = (Inserted, wa)"
      "ticks (fst wa) = 1"
    using w [of 0] t0
    by (auto simp: on_fst_def PGIdempotency_def pg_ReserveInsert_def exec_def insert_key_def map_prod_def pg_two_accounts_def empty_DB_def)
  obtain resp w1 where 1: "idempotent (keys_of hasty_server) (\<lambda>x. x) empty_call (pg_two_accounts, []) = (resp, w1)"
    by (metis surj_pair)
  have n: "1 = ticks (fst (snd (cNext empty_call wa)))" by (simp add: wa(2))
  have "w1 = (tick (fst wa), snd wa)"
    using 1 complete_fails [of hasty_server wa Canceled] wa f
    by (auto simp: idempotent_def Reserve_def split: prod.splits) (metis empty_call_simps(3) snd_conv prod.inject)+
  then have t1: "1 < ticks (fst w1)" using wa(2) by simp
  from failed_complete_blocks_key [OF w f c _ _ _ _ n 1 refl t1 _ refl refl] wa(1) t0 1 show ?thesis
    by (auto simp: pg_two_accounts_keys)
qed

end
