(* ===== verification/Draining.thy ===== *)
theory Draining
  imports Prelude
begin

text \<open>
  What the shutdowns of the program have in common: a part is asked to stop and its goroutines go on
  by themselves until they have ended. \<open>inner\<close> are the steps of these goroutines, \<open>todo\<close> bounds the
  steps that are left. The bus, the pool of the saga and \<^verbatim>\<open>main\<close> are instances.
\<close>

fun exec_steps :: "('s \<Rightarrow> 'a \<Rightarrow> 's option) \<Rightarrow> 's \<Rightarrow> 'a list \<Rightarrow> 's option" where
  "exec_steps step s [] = Some s"
| "exec_steps step s (a # as) = (case step s a of None \<Rightarrow> None | Some s' \<Rightarrow> exec_steps step s' as)"

lemma exec_steps_append:
  "exec_steps step s (as @ bs) = (case exec_steps step s as of None \<Rightarrow> None | Some s' \<Rightarrow> exec_steps step s' bs)"
  by (induction as arbitrary: s) (auto split: option.split)

lemma exec_steps_ConsE:
  assumes "exec_steps step s (a # as) = Some s'"
  obtains s1 where "step s a = Some s1" "exec_steps step s1 as = Some s'"
  using assms by (auto split: option.splits)

lemma exec_steps_trans:
  "exec_steps step s as = Some s1 \<Longrightarrow> exec_steps step s1 bs = Some s2 \<Longrightarrow> exec_steps step s (as @ bs) = Some s2"
  by (simp add: exec_steps_append)

lemma exec_steps_inv:
  assumes "exec_steps step s as = Some s'" and "P s" and "\<And>x a y. a \<in> set as \<Longrightarrow> P x \<Longrightarrow> step x a = Some y \<Longrightarrow> P y"
  shows "P s'"
  using assms
proof (induction as arbitrary: s)
  case (Cons a as)
  from Cons.prems(1) obtain s1 where s1: "step s a = Some s1" "exec_steps step s1 as = Some s'"
    by (rule exec_steps_ConsE)
  show ?case
  proof (rule Cons.IH [OF s1(2)])
    show "P s1" using Cons.prems(2) s1(1) by (intro Cons.prems(3) [of a s s1]) simp_all
  qed (use Cons.prems(3) in \<open>meson list.set_intros(2)\<close>)
qed simp

locale draining =
  fixes step :: "'s \<Rightarrow> 'a \<Rightarrow> 's option" and inner :: "'a \<Rightarrow> bool" and good finished :: "'s \<Rightarrow> bool" and todo :: "'s \<Rightarrow> nat"
  assumes good_step: "good s \<Longrightarrow> inner a \<Longrightarrow> step s a = Some s' \<Longrightarrow> good s'"
    and step_less: "good s \<Longrightarrow> inner a \<Longrightarrow> step s a = Some s' \<Longrightarrow> todo s' < todo s"
    and goes_on: "good s \<Longrightarrow> \<not> finished s \<Longrightarrow> \<exists>a s'. inner a \<and> step s a = Some s'"
begin

lemma steps_good: "exec_steps step s as = Some s' \<Longrightarrow> good s \<Longrightarrow> list_all inner as \<Longrightarrow> good s'"
  by (rule exec_steps_inv [where P = good]) (auto simp: list_all_iff intro: good_step)

lemma bounded: "good s \<Longrightarrow> list_all inner as \<Longrightarrow> exec_steps step s as = Some s' \<Longrightarrow> length as + todo s' \<le> todo s"
proof (induction as arbitrary: s)
  case (Cons a as)
  from Cons.prems(3) obtain s1 where s1: "step s a = Some s1" "exec_steps step s1 as = Some s'"
    by (rule exec_steps_ConsE)
  have "good s1" "todo s1 < todo s" using Cons.prems(1,2) s1(1) good_step step_less by auto
  with Cons.IH [OF _ _ s1(2)] Cons.prems(2) show ?case by simp
qed simp

lemma finishes: "good s \<Longrightarrow> \<exists>as s'. list_all inner as \<and> exec_steps step s as = Some s' \<and> finished s'"
proof (induction "todo s" arbitrary: s rule: less_induct)
  case less
  show ?case
  proof (cases "finished s")
    case True
    then show ?thesis by (intro exI [of _ "[]"]) simp
  next
    case False
    with goes_on [OF less.prems] obtain a s1 where a: "inner a" "step s a = Some s1" by blast
    with less.hyps [of s1] less.prems obtain as s' where "list_all inner as" "exec_steps step s1 as = Some s'" "finished s'"
      using good_step step_less by blast
    with a show ?thesis by (intro exI [of _ "a # as"] exI [of _ s']) simp
  qed
qed

text \<open>
  All schedules end: none is longer than the work left, and each can be completed to one at whose
  end the part has finished.
\<close>

lemma drains:
  assumes "good s"
  shows "(\<forall>as s'. list_all inner as \<and> exec_steps step s as = Some s' \<longrightarrow> length as \<le> todo s) \<and>
    (\<forall>as s'. list_all inner as \<and> exec_steps step s as = Some s' \<longrightarrow>
      (\<exists>bs s''. list_all inner bs \<and> exec_steps step s' bs = Some s'' \<and> finished s''))"
proof (intro conjI allI impI; elim conjE)
  fix as s' assume as: "list_all inner as" "exec_steps step s as = Some s'"
  show "length as \<le> todo s" using bounded [OF assms as] by simp
  show "\<exists>bs s''. list_all inner bs \<and> exec_steps step s' bs = Some s'' \<and> finished s''"
    by (rule finishes [OF steps_good [OF as(2) assms as(1)]])
qed

end

end
