(* ===== verification/Bus.thy ===== *)
theory Bus
  imports Events Draining
begin

text \<open>
  \<^verbatim>\<open>internal/bus/bus.go\<close>: the in-process bus. A partition is a buffered channel, modelled by the list
  of the events in it; one worker per partition takes events from it and calls every
  handler in turn. Publishers, workers and the shutdown run concurrently, so the bus is a
  transition system: \<open>bus_step\<close> performs one action if it is enabled, and a run is any sequence
  of enabled actions. The log \<open>calls\<close> records the handler calls in the order they happen;
  \<open>accepted\<close> and \<open>closedAt\<close> are history variables the code does not have (the events that
  entered a channel, and how many of them before the shutdown).
\<close>

section \<open>Routing\<close>

text \<open>\<^verbatim>\<open>hash/fnv.New32a\<close>: FNV-1a with 32 bits.\<close>

definition fnv32a :: "string \<Rightarrow> u32" where
  "fnv32a s = foldl (\<lambda>h c. (h XOR of_char c) * 16777619) 2166136261 s"

text \<open>\<^verbatim>\<open>int(h.Sum32()) % len(b.partitions)\<close> with a 64-bit \<^verbatim>\<open>int\<close>.\<close>

definition partition_of :: "nat \<Rightarrow> Event \<Rightarrow> nat" where
  "partition_of n e = nat (uint (fnv32a (eAggregateID e)) mod int n)"

section \<open>State\<close>

datatype worker =
    Waiting \<comment> \<open>in the outer select\<close>
  | Draining \<comment> \<open>in the inner select, after done\<close>
  | Delivering bool Event nat \<comment> \<open>inside deliver (draining or not), the next handler\<close>
  | Stopped

record Bus =
  partitions :: "Event list list"
  buffer :: nat
  handlers :: nat
  started :: bool
  closed :: bool
  workers :: "worker list"
  calls :: "(nat \<times> Event) list"
  accepted :: "Event list"
  closedAt :: nat

definition NewInMemory :: "nat \<Rightarrow> nat \<Rightarrow> Bus" where
  "NewInMemory n buf = \<lparr>partitions = replicate n [], buffer = buf, handlers = 0, started = False, closed = False,
     workers = [], calls = [], accepted = [], closedAt = 0\<rparr>"

section \<open>Operations\<close>

text \<open>\<^verbatim>\<open>Subscribe\<close>; \<^const>\<open>None\<close> is the panic.\<close>

definition Subscribe :: "Bus \<Rightarrow> Bus option" where
  "Subscribe b = (if started b then None else Some (b\<lparr>handlers := Suc (handlers b)\<rparr>))"

text \<open>
  \<^verbatim>\<open>main\<close> calls \<^verbatim>\<open>Start\<close> once; it starts one worker per partition. The code does not guard against a second
  call, which would start more workers; the model has no step for it.
\<close>

definition Start :: "Bus \<Rightarrow> Bus option" where
  "Start b = (if started b then None
     else Some (b\<lparr>started := True, workers := replicate (length (partitions b)) Waiting\<rparr>))"

definition signalDone :: "Bus \<Rightarrow> Bus" where
  "signalDone b = (if closed b then b else b\<lparr>closed := True, closedAt := length (accepted b)\<rparr>)"

text \<open>
  The send case of \<^verbatim>\<open>Publish\<close>: into the buffer if there is room, or, on an unbuffered channel,
  straight to a worker that is receiving. \<^const>\<open>None\<close>: the send blocks; a bus without partitions, on
  which the code divides by zero and panics, takes no event either.
\<close>

definition set_worker :: "Bus \<Rightarrow> nat \<Rightarrow> worker \<Rightarrow> Bus" where
  "set_worker b i w = b\<lparr>workers := (workers b)[i := w]\<rparr>"

definition send :: "Bus \<Rightarrow> Event \<Rightarrow> Bus option" where
  "send b e =
     (let i = partition_of (length (partitions b)) e;
          q = partitions b ! i;
          b' = b\<lparr>accepted := accepted b @ [e]\<rparr>
      in if partitions b = [] then None
         else if length q < buffer b then Some (b'\<lparr>partitions := (partitions b)[i := q @ [e]]\<rparr>)
         else if buffer b = 0 \<and> started b then
           (case workers b ! i of
              Waiting \<Rightarrow> Some (set_worker b' i (Delivering False e 0))
            | Draining \<Rightarrow> Some (set_worker b' i (Delivering True e 0))
            | _ \<Rightarrow> None)
         else None)"

text \<open>The other case of \<^verbatim>\<open>Publish\<close>: the bus is closed and the event is dropped.\<close>

definition drop_publish :: "Bus \<Rightarrow> Bus option" where
  "drop_publish b = (if closed b then Some b else None)"

text \<open>
  One step of the worker of partition \<open>i\<close>: \<open>receive\<close> takes the first event, \<open>see_done\<close> leaves the
  outer select through \<^verbatim>\<open>done\<close>, \<open>stop\<close> is the default case of the inner select, \<open>handle\<close> calls the
  next handler of \<^verbatim>\<open>deliver\<close> or returns from it.
\<close>

definition receive :: "Bus \<Rightarrow> nat \<Rightarrow> Bus option" where
  "receive b i =
     (if i < length (workers b) then
        (case partitions b ! i of
           [] \<Rightarrow> None
         | e # q \<Rightarrow>
             (case workers b ! i of
                Waiting \<Rightarrow> Some ((set_worker b i (Delivering False e 0))\<lparr>partitions := (partitions b)[i := q]\<rparr>)
              | Draining \<Rightarrow> Some ((set_worker b i (Delivering True e 0))\<lparr>partitions := (partitions b)[i := q]\<rparr>)
              | _ \<Rightarrow> None))
      else None)"

definition see_done :: "Bus \<Rightarrow> nat \<Rightarrow> Bus option" where
  "see_done b i =
     (if i < length (workers b) \<and> closed b \<and> workers b ! i = Waiting then Some (set_worker b i Draining) else None)"

definition stop :: "Bus \<Rightarrow> nat \<Rightarrow> Bus option" where
  "stop b i =
     (if i < length (workers b) \<and> workers b ! i = Draining \<and> partitions b ! i = []
      then Some (set_worker b i Stopped) else None)"

definition handle :: "Bus \<Rightarrow> nat \<Rightarrow> Bus option" where
  "handle b i =
     (if i < length (workers b) then
        (case workers b ! i of
           Delivering d e n \<Rightarrow>
             if n < handlers b
             then Some ((set_worker b i (Delivering d e (Suc n)))\<lparr>calls := calls b @ [(n, e)]\<rparr>)
             else Some (set_worker b i (if d then Draining else Waiting))
         | _ \<Rightarrow> None)
      else None)"

text \<open>\<^verbatim>\<open>Close\<close> signals and then waits until every worker has stopped.\<close>

definition drained :: "Bus \<Rightarrow> bool" where
  "drained b = (\<forall>w \<in> set (workers b). w = Stopped)"

section \<open>Runs\<close>

datatype action =
    ASubscribe | AStart | ASend Event | ADrop Event | AReceive nat | ASeeDone nat | AStop nat | AHandle nat | ASignal

fun bus_step :: "Bus \<Rightarrow> action \<Rightarrow> Bus option" where
  "bus_step b ASubscribe = Subscribe b"
| "bus_step b AStart = Start b"
| "bus_step b (ASend e) = send b e"
| "bus_step b (ADrop e) = drop_publish b"
| "bus_step b (AReceive i) = receive b i"
| "bus_step b (ASeeDone i) = see_done b i"
| "bus_step b (AStop i) = stop b i"
| "bus_step b (AHandle i) = handle b i"
| "bus_step b ASignal = Some (signalDone b)"

inductive bus_run :: "nat \<Rightarrow> nat \<Rightarrow> Bus \<Rightarrow> bool" for n buf where
  new: "bus_run n buf (NewInMemory n buf)"
| step: "bus_run n buf b \<Longrightarrow> bus_step b a = Some b' \<Longrightarrow> bus_run n buf b'"

fun bus_exec :: "Bus \<Rightarrow> action list \<Rightarrow> Bus option" where
  "bus_exec b [] = Some b"
| "bus_exec b (a # as) = (case bus_step b a of None \<Rightarrow> None | Some b' \<Rightarrow> bus_exec b' as)"

lemma bus_exec_run: "bus_run n buf b \<Longrightarrow> bus_exec b as = Some b' \<Longrightarrow> bus_run n buf b'"
  by (induction as arbitrary: b) (auto split: option.splits intro: bus_run.step)

section \<open>Invariant\<close>

text \<open>
  For every partition and handler: what the handler has been given, then the event its worker
  is delivering and has not given it yet, then the channel, make up what the partition has
  accepted. A stopped worker has delivered all that was accepted before the shutdown.
\<close>

definition seen_by :: "nat \<Rightarrow> (nat \<times> Event) list \<Rightarrow> Event list" where
  "seen_by h cs = map snd (filter (\<lambda>c. fst c = h) cs)"

definition part :: "nat \<Rightarrow> nat \<Rightarrow> Event list \<Rightarrow> Event list" where
  "part n i es = filter (\<lambda>e. partition_of n e = i) es"

definition inflight :: "nat \<Rightarrow> worker \<Rightarrow> Event list" where
  "inflight h w = (case w of Delivering d e m \<Rightarrow> if m \<le> h then [e] else [] | _ \<Rightarrow> [])"

definition flow_inv :: "nat \<Rightarrow> Bus \<Rightarrow> bool" where
  "flow_inv n b \<longleftrightarrow> (\<forall>i < n.
     (\<not> started b \<longrightarrow> calls b = [] \<and> partitions b ! i = part n i (accepted b)) \<and>
     (started b \<longrightarrow> (\<forall>h < handlers b. part n i (seen_by h (calls b)) @ inflight h (workers b ! i) @ partitions b ! i =
        part n i (accepted b))))"

definition drain_inv :: "nat \<Rightarrow> Bus \<Rightarrow> bool" where
  "drain_inv n b \<longleftrightarrow> (\<forall>i < length (workers b). workers b ! i = Stopped \<longrightarrow>
     (\<forall>h < handlers b. \<exists>late. part n i (seen_by h (calls b)) = part n i (take (closedAt b) (accepted b)) @ late))"

lemma part_append [simp]: "part n i (xs @ ys) = part n i xs @ part n i ys"
  and part_Nil [simp]: "part n i [] = []"
  and part_Cons: "part n i (e # es) = (if partition_of n e = i then e # part n i es else part n i es)"
  by (simp_all add: part_def)

lemma seen_by_append [simp]: "seen_by h (xs @ ys) = seen_by h xs @ seen_by h ys"
  and seen_by_Nil [simp]: "seen_by h [] = []"
  and seen_by_Cons: "seen_by h (c # cs) = (if fst c = h then snd c # seen_by h cs else seen_by h cs)"
  by (simp_all add: seen_by_def)

lemma inflight_simps [simp]:
  "inflight h Waiting = []" "inflight h Draining = []" "inflight h Stopped = []"
  "inflight h (Delivering d e m) = (if m \<le> h then [e] else [])"
  by (simp_all add: inflight_def)

lemma partition_of_less: "0 < n \<Longrightarrow> partition_of n e < n"
  by (simp add: partition_of_def nat_less_iff)

section \<open>What one action does\<close>

definition idle :: "bool \<Rightarrow> worker" where
  "idle d = (if d then Draining else Waiting)"

lemma idle_not_stopped [simp]: "idle d \<noteq> Stopped"
  by (simp add: idle_def)

lemma receiveE:
  assumes "receive b i = Some b'"
  obtains e q d where "i < length (workers b)" "partitions b ! i = e # q" "workers b ! i = idle d"
    "b' = b\<lparr>workers := (workers b)[i := Delivering d e 0], partitions := (partitions b)[i := q]\<rparr>"
  using assms that [of _ _ True] that [of _ _ False]
  by (auto simp: receive_def set_worker_def idle_def split: if_splits list.splits worker.splits)

lemma sendE:
  assumes "send b e = Some b'"
  obtains (queued) i where "i = partition_of (length (partitions b)) e" "partitions b \<noteq> []"
      "length (partitions b ! i) < buffer b"
      "b' = b\<lparr>accepted := accepted b @ [e], partitions := (partitions b)[i := partitions b ! i @ [e]]\<rparr>"
    | (handed) i d where "i = partition_of (length (partitions b)) e" "partitions b \<noteq> []" "buffer b = 0" "started b"
      "workers b ! i = idle d"
      "b' = b\<lparr>accepted := accepted b @ [e], workers := (workers b)[i := Delivering d e 0]\<rparr>"
  using assms queued handed [of _ True] handed [of _ False]
  by (auto simp: send_def set_worker_def idle_def Let_def split: if_splits worker.splits)

lemma handleE:
  assumes "handle b i = Some b'"
  obtains (call) d e m where "i < length (workers b)" "workers b ! i = Delivering d e m" "m < handlers b"
      "b' = b\<lparr>workers := (workers b)[i := Delivering d e (Suc m)], calls := calls b @ [(m, e)]\<rparr>"
    | (return) d e m where "i < length (workers b)" "workers b ! i = Delivering d e m" "handlers b \<le> m"
      "b' = b\<lparr>workers := (workers b)[i := idle d]\<rparr>"
  using assms by (auto simp: handle_def set_worker_def idle_def split: if_splits worker.splits)

lemma see_doneE:
  assumes "see_done b i = Some b'"
  obtains "i < length (workers b)" "closed b" "workers b ! i = Waiting" "b' = b\<lparr>workers := (workers b)[i := Draining]\<rparr>"
  using assms by (auto simp: see_done_def set_worker_def split: if_splits)

lemma stopE:
  assumes "stop b i = Some b'"
  obtains "i < length (workers b)" "workers b ! i = Draining" "partitions b ! i = []"
    "b' = b\<lparr>workers := (workers b)[i := Stopped]\<rparr>"
  using assms by (auto simp: stop_def set_worker_def split: if_splits)

text \<open>The worker part of the shape, so that an update of one worker is one obligation.\<close>

definition worker_ok :: "nat \<Rightarrow> bool \<Rightarrow> nat \<Rightarrow> worker \<Rightarrow> bool" where
  "worker_ok n c i w \<longleftrightarrow> (case w of Waiting \<Rightarrow> True | Delivering d e m \<Rightarrow> partition_of n e = i \<and> (d \<longrightarrow> c) | _ \<Rightarrow> c)"

definition queue_ok :: "nat \<Rightarrow> nat \<Rightarrow> nat \<Rightarrow> Event list \<Rightarrow> bool" where
  "queue_ok n buf i q \<longleftrightarrow> (\<forall>e \<in> set q. partition_of n e = i) \<and> length q \<le> buf"

definition shape_inv :: "nat \<Rightarrow> Bus \<Rightarrow> bool" where
  "shape_inv n b \<longleftrightarrow> length (partitions b) = n \<and> length (workers b) = (if started b then n else 0) \<and>
     closedAt b \<le> length (accepted b) \<and> (\<forall>i < length (workers b). worker_ok n (closed b) i (workers b ! i)) \<and>
     (\<forall>i < n. queue_ok n (buffer b) i (partitions b ! i))"

lemma worker_ok_simps [simp]:
  "worker_ok n c i Waiting" "worker_ok n c i Draining = c" "worker_ok n c i Stopped = c"
  "worker_ok n c i (Delivering d e m) \<longleftrightarrow> partition_of n e = i \<and> (d \<longrightarrow> c)"
  "worker_ok n c i (idle d) \<longleftrightarrow> (d \<longrightarrow> c)"
  by (simp_all add: worker_ok_def idle_def)

lemma worker_ok_closed: "worker_ok n c i w \<Longrightarrow> worker_ok n True i w"
  by (cases w) auto

lemma workers_upd:
  "\<forall>i < length ws. worker_ok n c i (ws ! i) \<Longrightarrow> worker_ok n c i w \<Longrightarrow> j < length ws \<Longrightarrow>
     worker_ok n c j (ws[i := w] ! j)"
  by (metis nth_list_update_eq nth_list_update_neq)

lemma queues_upd:
  "\<forall>i < n. queue_ok n buf i (ps ! i) \<Longrightarrow> length ps = n \<Longrightarrow> queue_ok n buf k q \<Longrightarrow> j < n \<Longrightarrow>
     queue_ok n buf j (ps[k := q] ! j)"
  by (metis nth_list_update_eq nth_list_update_neq)

lemma shape_send:
  assumes "shape_inv n b" and "send b e = Some b'"
  shows "shape_inv n b'"
  using assms(2)
proof (cases rule: sendE)
  case (queued i)
  moreover have "i < n" "queue_ok n (buffer b) i (partitions b ! i @ [e])"
    using assms(1) queued by (auto simp: shape_inv_def queue_ok_def partition_of_less)
  ultimately show ?thesis using assms(1) by (auto simp: shape_inv_def intro!: queues_upd)
next
  case (handed i d)
  have "i < length (workers b)" using assms(1) handed by (auto simp: shape_inv_def partition_of_less)
  then have "worker_ok n (closed b) i (workers b ! i)" using assms(1) unfolding shape_inv_def by blast
  then show ?thesis using assms(1) handed by (auto simp: shape_inv_def intro!: workers_upd)
qed

lemma shape_receive:
  assumes "shape_inv n b" and "receive b i = Some b'"
  shows "shape_inv n b'"
  using assms(2)
proof (cases rule: receiveE)
  case (1 e q d)
  have "worker_ok n (closed b) i (workers b ! i)" "i < n"
    using assms(1) 1(1) unfolding shape_inv_def by (blast, auto split: if_splits)
  moreover from this have "queue_ok n (buffer b) i (e # q)" using assms(1) 1(2) unfolding shape_inv_def by metis
  ultimately have "d \<longrightarrow> closed b" "partition_of n e = i" "queue_ok n (buffer b) i q"
    using 1 by (auto simp: queue_ok_def)
  then show ?thesis using assms(1) 1 by (auto simp: shape_inv_def intro!: workers_upd queues_upd)
qed

lemma shape_handle:
  assumes "shape_inv n b" and "handle b i = Some b'"
  shows "shape_inv n b'"
  using assms(2)
proof (cases rule: handleE)
  case (call d e m)
  then have "worker_ok n (closed b) i (Delivering d e m)" using assms(1) by (auto simp: shape_inv_def)
  then show ?thesis using assms(1) call by (auto simp: shape_inv_def intro!: workers_upd)
next
  case (return d e m)
  then have "worker_ok n (closed b) i (Delivering d e m)" using assms(1) by (auto simp: shape_inv_def)
  then show ?thesis using assms(1) return by (auto simp: shape_inv_def intro!: workers_upd)
qed

lemma shape_stop:
  assumes "shape_inv n b" and "stop b i = Some b'"
  shows "shape_inv n b'"
  using assms(2)
proof (cases rule: stopE)
  case 1
  then have "worker_ok n (closed b) i Draining" using assms(1) by (auto simp: shape_inv_def)
  then show ?thesis using assms(1) 1 by (auto simp: shape_inv_def intro!: workers_upd)
qed

lemma shape_step:
  assumes "shape_inv n b" and "bus_step b a = Some b'"
  shows "shape_inv n b'"
proof (cases a)
  case (ASend e)
  with assms show ?thesis using shape_send by simp
next
  case (AReceive i)
  with assms show ?thesis using shape_receive by simp
next
  case (AHandle i)
  with assms show ?thesis using shape_handle by simp
next
  case (ASeeDone i)
  then show ?thesis using assms by (auto simp: shape_inv_def intro!: workers_upd elim!: see_doneE)
next
  case (AStop i)
  with assms show ?thesis using shape_stop by simp
next
  case ASignal
  have "\<forall>i < length (workers b). worker_ok n True i (workers b ! i)"
    using assms(1) worker_ok_closed unfolding shape_inv_def by blast
  then show ?thesis using assms ASignal by (cases "closed b") (auto simp: shape_inv_def signalDone_def)
qed (use assms in \<open>auto simp: shape_inv_def Subscribe_def Start_def drop_publish_def split: if_splits\<close>)

text \<open>The flow of one partition to one handler, as a function of the parts of the state.\<close>

definition flow :: "nat \<Rightarrow> nat \<Rightarrow> nat \<Rightarrow> Bus \<Rightarrow> Event list" where
  "flow n i h b = part n i (seen_by h (calls b)) @ inflight h (workers b ! i) @ partitions b ! i"

lemma inflight_idle [simp]: "inflight h (idle d) = []"
  by (simp add: idle_def)

lemma flow_startedI:
  assumes "flow_inv n b" and "started b" and "started b'" and "handlers b' = handlers b"
    and "\<And>j h. j < n \<Longrightarrow> h < handlers b \<Longrightarrow> flow n j h b = part n j (accepted b) \<Longrightarrow> flow n j h b' = part n j (accepted b')"
  shows "flow_inv n b'"
  using assms by (simp add: flow_inv_def flow_def)

lemma shape_lengths:
  assumes "shape_inv n b"
  shows "length (partitions b) = n" and "started b \<Longrightarrow> length (workers b) = n" and "i < length (workers b) \<Longrightarrow> started b"
    and "i < length (workers b) \<Longrightarrow> worker_ok n (closed b) i (workers b ! i)"
  using assms by (auto simp: shape_inv_def split: if_splits)

lemma flow_send:
  assumes sh: "shape_inv n b" and fl: "flow_inv n b" and "send b e = Some b'"
  shows "flow_inv n b'"
proof -
  note len = shape_lengths [OF sh]
  from assms(3) show ?thesis
  proof (cases rule: sendE)
    case (queued i)
    then have i: "i < n" "partition_of n e = i" using len(1) by (auto simp: partition_of_less)
    show ?thesis
    proof (cases "started b")
      case True
      then show ?thesis
        using queued i len by (intro flow_startedI [OF fl]) (auto simp: flow_def nth_list_update part_Cons)
    next
      case False
      then show ?thesis using queued i len fl by (auto simp: flow_inv_def nth_list_update part_Cons)
    qed
  next
    case (handed i d)
    then have i: "i < n" "partition_of n e = i" using len(1) by (auto simp: partition_of_less)
    have "partitions b ! i = []" using sh handed(3) i(1) by (auto simp: shape_inv_def queue_ok_def)
    then show ?thesis
      using handed(4-6) i len(1,2) by (intro flow_startedI [OF fl]) (auto simp: flow_def nth_list_update part_Cons)
  qed
qed

text \<open>The four steps of a worker.\<close>

lemma flow_receive:
  assumes sh: "shape_inv n b" and fl: "flow_inv n b" and "receive b i = Some b'"
  shows "flow_inv n b'"
  using assms(3)
proof (cases rule: receiveE)
  case (1 e q d)
  then have "started b" using shape_lengths(3) [OF sh] by blast
  with 1 shape_lengths(1,2) [OF sh] show ?thesis by (intro flow_startedI [OF fl]) (auto simp: flow_def nth_list_update)
qed

lemma flow_handle:
  assumes sh: "shape_inv n b" and fl: "flow_inv n b" and "handle b i = Some b'"
  shows "flow_inv n b'"
  using assms(3)
proof (cases rule: handleE)
  case (call d e m)
  then have "started b" "partition_of n e = i" using shape_lengths(3,4) [OF sh, of i] by auto
  with call shape_lengths(1,2) [OF sh] show ?thesis
    by (intro flow_startedI [OF fl]) (auto simp: flow_def nth_list_update part_Cons seen_by_Cons)
next
  case (return d e m)
  then have "started b" using shape_lengths(3) [OF sh] by blast
  with return shape_lengths(1,2) [OF sh] show ?thesis by (intro flow_startedI [OF fl]) (auto simp: flow_def nth_list_update)
qed

lemma flow_ends:
  assumes sh: "shape_inv n b" and fl: "flow_inv n b" and "see_done b i = Some b' \<or> stop b i = Some b'"
  shows "flow_inv n b'"
proof -
  from assms(3) obtain w where w: "i < length (workers b)" "workers b ! i = Waiting \<or> workers b ! i = Draining"
      "w = Draining \<or> w = Stopped" "b' = b\<lparr>workers := (workers b)[i := w]\<rparr>"
    by (auto elim!: see_doneE stopE)
  then have "started b" using shape_lengths(3) [OF sh] by blast
  with w shape_lengths(1,2) [OF sh] show ?thesis by (intro flow_startedI [OF fl]) (auto simp: flow_def nth_list_update)
qed

lemma flow_step:
  assumes "shape_inv n b" and "flow_inv n b" and "bus_step b a = Some b'"
  shows "flow_inv n b'"
proof (cases a)
  case AStart
  then show ?thesis using assms(2,3) shape_lengths(1) [OF assms(1)] by (auto simp: Start_def flow_inv_def split: if_splits)
next
  case (ASend e)
  with assms show ?thesis using flow_send [OF assms(1,2)] by simp
next
  case (AReceive i)
  with assms show ?thesis using flow_receive [OF assms(1,2)] by simp
next
  case (AHandle i)
  with assms show ?thesis using flow_handle [OF assms(1,2)] by simp
next
  case (ASeeDone i)
  with assms show ?thesis using flow_ends [OF assms(1,2), of i] by simp
next
  case (AStop i)
  with assms show ?thesis using flow_ends [OF assms(1,2), of i] by simp
qed (use assms(2,3) in \<open>auto simp: flow_inv_def Subscribe_def signalDone_def drop_publish_def split: if_splits\<close>)

lemma stopped_upd: "ws[i := w] ! j = Stopped \<Longrightarrow> j < length ws \<Longrightarrow> w \<noteq> Stopped \<Longrightarrow> ws ! j = Stopped"
  by (cases "i = j") auto

text \<open>A worker stops with its channel empty and nothing in its hands.\<close>

lemma drain_stop:
  assumes "shape_inv n b" and "flow_inv n b" and "drain_inv n b" and "stop b i = Some b'"
  shows "drain_inv n b'"
  using assms(4)
proof (cases rule: stopE)
  case 1
  have st: "started b" "length (workers b) = n" using shape_lengths(2,3) [OF assms(1)] 1(1) by auto
  have "part n i (seen_by h (calls b)) = part n i (take (closedAt b) (accepted b)) @ part n i (drop (closedAt b) (accepted b))"
    if "h < handlers b" for h
  proof -
    have "part n i (seen_by h (calls b)) @ inflight h (workers b ! i) @ partitions b ! i = part n i (accepted b)"
      using assms(2) st that 1(1) by (simp add: flow_inv_def)
    then show ?thesis using 1(2,3) by (simp flip: part_append)
  qed
  then show ?thesis using assms(3) 1 by (auto simp: drain_inv_def nth_list_update)
qed

lemma drain_step:
  assumes "shape_inv n b" and "flow_inv n b" and "drain_inv n b" and "bus_step b a = Some b'"
  shows "drain_inv n b'"
proof -
  have len: "length (partitions b) = n" "started b \<Longrightarrow> length (workers b) = n" "\<not> started b \<Longrightarrow> workers b = []"
      "closedAt b \<le> length (accepted b)"
    and ok: "j < length (workers b) \<Longrightarrow> worker_ok n (closed b) j (workers b ! j)" for j
    using assms(1) by (auto simp: shape_inv_def)
  have keep: "drain_inv n b'" if "handlers b' = handlers b" "closedAt b' = closedAt b" "\<exists>es. accepted b' = accepted b @ es"
      "\<exists>cs. calls b' = calls b @ cs" "length (workers b') = length (workers b)"
      "\<And>j. j < length (workers b) \<Longrightarrow> workers b' ! j = Stopped \<Longrightarrow> workers b ! j = Stopped"
    using that assms(3) len(4) unfolding drain_inv_def by (auto; metis append.assoc part_append seen_by_append)
  show ?thesis
  proof (cases a)
    case (AStop i)
    with assms show ?thesis using drain_stop by simp
  next
    case (ASend e)
    from assms(4) have "send b e = Some b'" by (simp add: ASend)
    then show ?thesis by (cases rule: sendE) (rule keep; auto dest: stopped_upd)+
  next
    case (AReceive i)
    from assms(4) have "receive b i = Some b'" by (simp add: AReceive)
    then show ?thesis by (cases rule: receiveE) (rule keep; auto dest: stopped_upd)+
  next
    case (AHandle i)
    from assms(4) have "handle b i = Some b'" by (simp add: AHandle)
    then show ?thesis by (cases rule: handleE) (rule keep; auto dest: stopped_upd)+
  next
    case (ASeeDone i)
    from assms(4) have "see_done b i = Some b'" by (simp add: ASeeDone)
    then show ?thesis by (cases rule: see_doneE) (rule keep; auto dest: stopped_upd)+
  next
    case ASubscribe
    then show ?thesis using assms(4) len(3) by (auto simp: Subscribe_def drain_inv_def split: if_splits)
  next
    case AStart
    then show ?thesis using assms(4) by (auto simp: Start_def drain_inv_def split: if_splits)
  next
    case ASignal
    have "workers b ! j \<noteq> Stopped" if "\<not> closed b" "j < length (workers b)" for j
      using ok [OF that(2)] that(1) by auto
    then show ?thesis using ASignal assms(3,4) by (auto simp: signalDone_def drain_inv_def split: if_splits)
  qed (use assms(3,4) in \<open>auto simp: drop_publish_def split: if_splits\<close>)
qed

lemma bus_run_inv: "bus_run n buf b \<Longrightarrow> shape_inv n b \<and> flow_inv n b \<and> drain_inv n b"
proof (induction rule: bus_run.induct)
  case new
  show ?case by (simp add: NewInMemory_def shape_inv_def flow_inv_def drain_inv_def queue_ok_def)
next
  case (step b a b')
  then show ?case using shape_step flow_step drain_step by blast
qed

section \<open>Shutdown\<close>

fun worker_action :: "action \<Rightarrow> bool" where
  "worker_action (AReceive i) = True"
| "worker_action (ASeeDone i) = True"
| "worker_action (AStop i) = True"
| "worker_action (AHandle i) = True"
| "worker_action _ = False"

text \<open>The number of steps the workers still have to make.\<close>

definition weight :: "nat \<Rightarrow> worker \<Rightarrow> nat" where
  "weight hs w = (case w of Waiting \<Rightarrow> 2 | Draining \<Rightarrow> 1 | Stopped \<Rightarrow> 0
     | Delivering d e m \<Rightarrow> (hs - m) + (if d then 2 else 3))"

definition work :: "Bus \<Rightarrow> nat" where
  "work b = (handlers b + 2) * sum_list (map length (partitions b)) + sum_list (map (weight (handlers b)) (workers b))"

lemma weight_simps [simp]:
  "weight hs Waiting = 2" "weight hs Draining = 1" "weight hs Stopped = 0"
  "weight hs (Delivering d e m) = (hs - m) + (if d then 2 else 3)" "weight hs (idle d) = (if d then 1 else 2)"
  by (simp_all add: weight_def idle_def)

lemma sum_list_map_update:
  "i < length xs \<Longrightarrow> sum_list (map f (xs[i := x])) + f (xs ! i) = sum_list (map f xs) + (f x :: nat)"
  by (simp add: map_update sum_list_update member_le_sum_list trans_le_add1)

lemma worker_step_work:
  assumes "shape_inv n b" and "worker_action a" and "bus_step b a = Some b'"
  shows "work b' < work b"
proof -
  have len: "i < length (workers b) \<Longrightarrow> i < length (partitions b)" for i
    using assms(1) by (auto simp: shape_inv_def split: if_splits)
  note upd = sum_list_map_update [where f = "weight (handlers b)" and xs = "workers b"]
  consider (receive) i where "receive b i = Some b'" | (see_done) i where "see_done b i = Some b'"
    | (stop) i where "stop b i = Some b'" | (handle) i where "handle b i = Some b'"
    using assms(2,3) by (cases a) auto
  then show ?thesis
  proof cases
    case (receive i)
    then show ?thesis
    proof (cases rule: receiveE)
      case (1 e q d)
      have "sum_list (map length ((partitions b)[i := q])) + length (e # q) = sum_list (map length (partitions b)) + length q"
        using sum_list_map_update [where f = length and xs = "partitions b" and i = i and x = q] 1 len by simp
      then have "Suc (sum_list (map length ((partitions b)[i := q]))) = sum_list (map length (partitions b))" by simp
      then have "(handlers b + 2) * sum_list (map length (partitions b)) =
          (handlers b + 2) * sum_list (map length ((partitions b)[i := q])) + (handlers b + 2)"
        by (metis add.commute mult_Suc_right)
      then show ?thesis using upd [OF 1(1), of "Delivering d e 0"] 1 by (auto simp: work_def split: if_splits)
    qed
  next
    case (see_done i)
    then show ?thesis
      by (cases rule: see_doneE) (use upd [of i Draining] in \<open>auto simp: work_def\<close>)
  next
    case (stop i)
    then show ?thesis
      by (cases rule: stopE) (use upd [of i Stopped] in \<open>auto simp: work_def\<close>)
  next
    case (handle i)
    then show ?thesis
    proof (cases rule: handleE)
      case (call d e m)
      then show ?thesis using upd [OF call(1), of "Delivering d e (Suc m)"] by (auto simp: work_def split: if_splits)
    next
      case (return d e m)
      then show ?thesis using upd [OF return(1), of "idle d"] by (auto simp: work_def split: if_splits)
    qed
  qed
qed

lemma worker_progress:
  assumes "shape_inv n b" and "closed b" and "\<not> drained b"
  shows "\<exists>a b'. worker_action a \<and> bus_step b a = Some b'"
proof -
  from assms(3) obtain i where i: "i < length (workers b)" "workers b ! i \<noteq> Stopped"
    by (auto simp: drained_def in_set_conv_nth)
  show ?thesis
  proof (cases "workers b ! i")
    case Waiting
    then have "bus_step b (ASeeDone i) = Some (set_worker b i Draining)" using i assms(2) by (simp add: see_done_def)
    then show ?thesis using worker_action.simps(2) by blast
  next
    case Draining
    then show ?thesis
    proof (cases "partitions b ! i")
      case Nil
      then have "bus_step b (AStop i) = Some (set_worker b i Stopped)" using i Draining by (simp add: stop_def)
      then show ?thesis using worker_action.simps(3) by blast
    next
      case (Cons e q)
      then have "\<exists>b'. bus_step b (AReceive i) = Some b'" using i Draining by (simp add: receive_def)
      then show ?thesis using worker_action.simps(1) by blast
    qed
  next
    case (Delivering d e m)
    then have "\<exists>b'. bus_step b (AHandle i) = Some b'" using i by (simp add: handle_def)
    then show ?thesis using worker_action.simps(4) by blast
  qed (use i in simp)
qed

lemma worker_step_closed: "worker_action a \<Longrightarrow> bus_step b a = Some b' \<Longrightarrow> closed b' = closed b"
  by (cases a) (auto elim!: receiveE see_doneE stopE handleE)

lemma bus_exec_steps: "bus_exec b as = exec_steps bus_step b as"
  by (induction as arbitrary: b) (auto split: option.split)

interpretation bus_closing: draining bus_step worker_action "\<lambda>b. (\<exists>n. shape_inv n b) \<and> closed b" drained work
proof unfold_locales
  fix b a b' assume b: "(\<exists>n. shape_inv n b) \<and> closed b"
  show "(\<exists>n. shape_inv n b') \<and> closed b'" if "worker_action a" "bus_step b a = Some b'"
    using b shape_step [OF _ that(2)] worker_step_closed [OF that] by auto
  show "work b' < work b" if "worker_action a" "bus_step b a = Some b'"
    using b worker_step_work [OF _ that] by blast
  show "\<exists>a b'. worker_action a \<and> bus_step b a = Some b'" if "\<not> drained b"
    using b worker_progress [OF _ _ that] by blast
qed

section \<open>Properties\<close>

text \<open>The published values of FNV-1a.\<close>

lemma fnv32a_vectors:
  "fnv32a [] = 0x811c9dc5" "fnv32a ''a'' = 0xe40c292c" "fnv32a ''foobar'' = 0xbf9cf968"
  by code_simp+

definition of_account :: "string \<Rightarrow> Event list \<Rightarrow> Event list" where
  "of_account g es = filter (\<lambda>e. eAggregateID e = g) es"

definition account_partition :: "nat \<Rightarrow> string \<Rightarrow> nat" where
  "account_partition n g = nat (uint (fnv32a g) mod int n)"

lemma of_account_part: "of_account g (part n (account_partition n g) es) = of_account g es"
  by (auto simp: of_account_def part_def partition_of_def account_partition_def intro: filter_cong)

lemma of_account_append: "of_account g (xs @ ys) = of_account g xs @ of_account g ys"
  by (simp add: of_account_def)

text \<open>
  C19. Per-account order and no duplication: in every run of the bus, whatever the interleaving of
  publishers, workers and shutdown, each handler has been given a prefix of the account's
  published events, in the order they entered the bus, each exactly once.
\<close>

theorem bus_order_per_account:
  assumes "bus_run n buf b" and "0 < n" and "h < handlers b"
  shows "\<exists>rest. of_account g (accepted b) = of_account g (seen_by h (calls b)) @ rest"
proof (cases "started b")
  case True
  let ?i = "account_partition n g"
  have "?i < n" using assms(2) by (simp add: account_partition_def nat_less_iff)
  then have "part n ?i (accepted b) = part n ?i (seen_by h (calls b)) @ inflight h (workers b ! ?i) @ partitions b ! ?i"
    using bus_run_inv [OF assms(1)] True assms(3) by (simp add: flow_inv_def)
  then have "of_account g (part n ?i (accepted b)) =
      of_account g (part n ?i (seen_by h (calls b))) @ of_account g (inflight h (workers b ! ?i) @ partitions b ! ?i)"
    by (simp add: of_account_append)
  then show ?thesis unfolding of_account_part by blast
next
  case False
  then show ?thesis
    using bus_run_inv [OF assms(1)] assms(2) by (auto simp: flow_inv_def of_account_def)
qed

definition bus_event :: "nat \<Rightarrow> Event" where
  "bus_event k = \<lparr>eID = replicate k CHR ''e'', eAggregateID = ''acc'', eVersion = of_nat k, eType = EventMoneyDeposited,
     eData = RawJSON JNull, eOccurredAt = 0, eSeq = 0\<rparr>"

definition bus_sample :: "Bus option" where
  "bus_sample = bus_exec (NewInMemory 1 4) [ASubscribe, AStart, ASend (bus_event 1), ASend (bus_event 2), AReceive 0,
     AHandle 0, ASignal, ASend (bus_event 3), ADrop (bus_event 4), AHandle 0, ASeeDone 0, AReceive 0, AHandle 0, AHandle 0,
     AReceive 0, AHandle 0, AHandle 0, AStop 0, ASend (bus_event 5)]"

lemma bus_sample_state:
  "\<exists>b. bus_sample = Some b \<and> bus_run 1 4 b \<and> handlers b = 1 \<and> started b \<and> drained b \<and> closedAt b = 2 \<and>
     map eVersion (accepted b) = [1, 2, 3, 5] \<and> map (eVersion \<circ> snd) (calls b) = [1, 2, 3]"
proof -
  have vals: "case bus_sample of None \<Rightarrow> False | Some b \<Rightarrow> handlers b = 1 \<and> started b \<and> drained b \<and> closedAt b = 2 \<and>
     map eVersion (accepted b) = [1, 2, 3, 5] \<and> map (eVersion \<circ> snd) (calls b) = [1, 2, 3]"
    by code_simp
  then obtain b where b: "bus_sample = Some b" by (cases bus_sample) auto
  have "bus_run 1 4 b" by (rule bus_exec_run [OF bus_run.new b [unfolded bus_sample_def]])
  then show ?thesis using vals unfolding b by (intro exI [of _ b]) simp
qed

theorem bus_order_per_account_witness:
  "\<exists>b rest. bus_sample = Some b \<and> length (accepted b) = 4 \<and>
     of_account ''acc'' (accepted b) = of_account ''acc'' (seen_by 0 (calls b)) @ rest"
proof -
  obtain b where b: "bus_sample = Some b" "bus_run 1 4 b" "handlers b = 1" "map eVersion (accepted b) = [1, 2, 3, 5]"
    using bus_sample_state by auto
  from b(4) have "length (map eVersion (accepted b)) = 4" by (simp only: list.size)
  with bus_order_per_account [OF b(2), of 0 "''acc''"] b show ?thesis by auto
qed

text \<open>
  A clean shutdown loses nothing that was accepted before it: when every worker has stopped,
  each handler has been given all the events of an account that entered the bus before the
  shutdown was signalled, in order.
\<close>

lemma drained_account:
  assumes "bus_run n buf b" and "0 < n" and "started b" and "drained b" and "h < handlers b"
  shows "\<exists>late. of_account g (seen_by h (calls b)) = of_account g (take (closedAt b) (accepted b)) @ late"
proof -
  let ?i = "account_partition n g"
  have i: "?i < length (workers b)"
    using bus_run_inv [OF assms(1)] assms(2,3) by (simp add: shape_inv_def account_partition_def nat_less_iff)
  then have "workers b ! ?i = Stopped" using assms(4) by (simp add: drained_def)
  then obtain late where "part n ?i (seen_by h (calls b)) = part n ?i (take (closedAt b) (accepted b)) @ late"
    using bus_run_inv [OF assms(1)] i assms(5) unfolding drain_inv_def by blast
  then have "of_account g (part n ?i (seen_by h (calls b))) =
      of_account g (part n ?i (take (closedAt b) (accepted b))) @ of_account g late"
    by (simp add: of_account_append)
  then show ?thesis unfolding of_account_part by blast
qed

text \<open>
  \<open>Close\<close> returns: once the shutdown is signalled, the workers can always go on until all of them
  have stopped, and no schedule of worker steps is longer than the work left, so waiting
  for the workers terminates when no more events are published.
\<close>

lemma bus_close_terminates:
  assumes "bus_run n buf b" and "closed b"
  shows "(\<exists>as b'. list_all worker_action as \<and> bus_exec b as = Some b' \<and> drained b') \<and>
    (\<forall>as b'. list_all worker_action as \<and> bus_exec b as = Some b' \<longrightarrow> length as \<le> work b)"
proof -
  have "(\<exists>n. shape_inv n b) \<and> closed b" using bus_run_inv [OF assms(1)] assms(2) by blast
  from bus_closing.drains [OF this] bus_closing.finishes [OF this] show ?thesis unfolding bus_exec_steps by blast
qed

end
