(* ===== verification/Saga_Pool.thy ===== *)
theory Saga_Pool
  imports Saga Draining
begin

text \<open>
  The goroutines of \<^verbatim>\<open>TransferSaga\<close> in \<^verbatim>\<open>internal/saga/transfer.go\<close>: the channel with its capacity,
  the workers that range over it, and \<^verbatim>\<open>Close\<close>, which closes the channel and waits for them. A
  step is one communication of one goroutine; it may be blocked, and a send on a closed channel
  or a second close panics. What a worker does with an event it has received is \<^const>\<open>process\<close>.
\<close>

section \<open>State\<close>

datatype pool_worker =
    Idle \<comment> \<open>waits for the channel\<close>
  | Busy Event \<comment> \<open>inside \<^verbatim>\<open>process\<close>\<close>
  | Gone \<comment> \<open>its range loop has ended\<close>

text \<open>\<open>sent\<close> and \<open>handled\<close> record the events sent and those whose \<open>process\<close> has returned.\<close>

record Pool =
  queue :: "Event list"
  capacity :: nat
  shut :: bool
  crew :: "pool_worker list"
  sent :: "Event list"
  handled :: "Event list"

definition NewSaga :: Pool where
  "NewSaga = \<lparr>queue = [], capacity = 1024, shut = False, crew = [], sent = [], handled = []\<rparr>"

section \<open>Steps\<close>

datatype moved = Blocked | Panics | Goes Pool

definition saga_Start :: "Pool \<Rightarrow> nat \<Rightarrow> Pool" where
  "saga_Start p n = p\<lparr>crew := crew p @ replicate n Idle\<rparr>"

definition pool_send :: "Pool \<Rightarrow> Event \<Rightarrow> moved" where
  "pool_send p e =
     (if shut p then Panics
      else if length (queue p) < capacity p then Goes (p\<lparr>queue := queue p @ [e], sent := sent p @ [e]\<rparr>)
      else Blocked)"

text \<open>\<^verbatim>\<open>Handle\<close>: only debits are sent; when the context has ended the \<^verbatim>\<open>select\<close> may drop the event.\<close>

definition pool_Handle :: "Pool \<Rightarrow> bool \<Rightarrow> Event \<Rightarrow> moved" where
  "pool_Handle p dropped e =
     (if eType e \<noteq> EventTransferDebited then Goes p
      else if dropped then Goes p
      else pool_send p e)"

definition pool_receive :: "Pool \<Rightarrow> nat \<Rightarrow> moved" where
  "pool_receive p i =
     (if i < length (crew p) \<and> crew p ! i = Idle then
        (case queue p of
           e # q \<Rightarrow> Goes (p\<lparr>queue := q, crew := (crew p)[i := Busy e]\<rparr>)
         | [] \<Rightarrow> if shut p then Goes (p\<lparr>crew := (crew p)[i := Gone]\<rparr>) else Blocked)
      else Blocked)"

definition pool_finish :: "Pool \<Rightarrow> nat \<Rightarrow> moved" where
  "pool_finish p i =
     (if i < length (crew p) then
        (case crew p ! i of
           Busy e \<Rightarrow> Goes (p\<lparr>crew := (crew p)[i := Idle], handled := handled p @ [e]\<rparr>)
         | _ \<Rightarrow> Blocked)
      else Blocked)"

definition pool_close :: "Pool \<Rightarrow> moved" where
  "pool_close p = (if shut p then Panics else Goes (p\<lparr>shut := True\<rparr>))"

datatype pool_action = PHandle bool Event | PResume Event | PReceive nat | PFinish nat | PClose

fun pool_step :: "Pool \<Rightarrow> pool_action \<Rightarrow> moved" where
  "pool_step p (PHandle dropped e) = pool_Handle p dropped e"
| "pool_step p (PResume e) = pool_send p e"
| "pool_step p (PReceive i) = pool_receive p i"
| "pool_step p (PFinish i) = pool_finish p i"
| "pool_step p PClose = pool_close p"

fun pool_run :: "Pool \<Rightarrow> pool_action list \<Rightarrow> Pool option" where
  "pool_run p [] = Some p"
| "pool_run p (a # as) = (case pool_step p a of Goes p' \<Rightarrow> pool_run p' as | _ \<Rightarrow> None)"

text \<open>\<^verbatim>\<open>Close\<close> returns when the wait group is down to zero.\<close>

definition crew_gone :: "Pool \<Rightarrow> bool" where
  "crew_gone p = list_all (\<lambda>w. w = Gone) (crew p)"

section \<open>Nothing is lost\<close>

fun in_hand :: "pool_worker \<Rightarrow> Event list" where
  "in_hand (Busy e) = [e]"
| "in_hand _ = []"

definition pool_inv :: "Pool \<Rightarrow> bool" where
  "pool_inv p \<longleftrightarrow> mset (sent p) = mset (handled p) + mset (concat (map in_hand (crew p))) + mset (queue p) \<and>
     (\<not> shut p \<or> queue p \<noteq> [] \<longrightarrow> Gone \<notin> set (crew p))"

lemma crew_update:
  assumes "i < length ws"
  shows "mset (concat (map in_hand (ws[i := w]))) + mset (in_hand (ws ! i)) = mset (concat (map in_hand ws)) + mset (in_hand w)"
  using assms by (induction ws arbitrary: i) (auto simp: nth_Cons split: nat.splits)

lemma set_update_le: "x \<in> set (ws[i := w]) \<Longrightarrow> x \<in> set ws \<or> x = w"
  by (meson insert_iff set_update_subset_insert subsetD)

lemma pool_receive_cases:
  assumes "pool_receive p i = Goes p'"
  obtains (event) e q where "i < length (crew p)" "crew p ! i = Idle" "queue p = e # q" "p' = p\<lparr>queue := q, crew := (crew p)[i := Busy e]\<rparr>"
    | (over) "i < length (crew p)" "crew p ! i = Idle" "queue p = []" "shut p" "p' = p\<lparr>crew := (crew p)[i := Gone]\<rparr>"
  using assms by (auto simp: pool_receive_def split: if_splits list.splits)

lemma pool_finish_cases:
  assumes "pool_finish p i = Goes p'"
  obtains e where "i < length (crew p)" "crew p ! i = Busy e" "p' = p\<lparr>crew := (crew p)[i := Idle], handled := handled p @ [e]\<rparr>"
  using assms by (auto simp: pool_finish_def split: if_splits pool_worker.splits)

lemma pool_send_inv: "pool_inv p \<Longrightarrow> pool_send p e = Goes p' \<Longrightarrow> pool_inv p' \<and> crew p' = crew p"
  by (auto simp: pool_inv_def pool_send_def split: if_splits)

lemma pool_step_inv:
  assumes "pool_step p a = Goes p'" and "pool_inv p"
  shows "pool_inv p' \<and> length (crew p') = length (crew p)"
proof (cases a)
  case (PHandle dropped e)
  with assms show ?thesis by (auto simp: pool_Handle_def dest: pool_send_inv split: if_splits)
next
  case (PResume e)
  with assms show ?thesis by (auto dest: pool_send_inv)
next
  case (PReceive i)
  with assms(1) have "pool_receive p i = Goes p'" by simp
  then show ?thesis
  proof (cases rule: pool_receive_cases)
    case (event e q)
    have "Gone \<notin> set ((crew p)[i := Busy e])"
      using assms(2) event(3) set_update_le [of Gone "crew p" i "Busy e"] by (auto simp: pool_inv_def)
    with assms(2) event crew_update [OF event(1), of "Busy e"] show ?thesis by (simp add: pool_inv_def)
  next
    case over
    with assms(2) crew_update [OF over(1), of Gone] show ?thesis by (simp add: pool_inv_def)
  qed
next
  case (PFinish i)
  with assms(1) have "pool_finish p i = Goes p'" by simp
  then obtain e where e: "i < length (crew p)" "crew p ! i = Busy e" "p' = p\<lparr>crew := (crew p)[i := Idle], handled := handled p @ [e]\<rparr>"
    by (rule pool_finish_cases)
  with assms(2) crew_update [OF e(1), of Idle] set_update_le [of Gone "crew p" i Idle] show ?thesis
    by (auto simp: pool_inv_def)
next
  case PClose
  with assms show ?thesis by (auto simp: pool_close_def pool_inv_def split: if_splits)
qed

lemma pool_run_inv: "pool_run p as = Some p' \<Longrightarrow> pool_inv p \<Longrightarrow> pool_inv p' \<and> length (crew p') = length (crew p)"
proof (induction as arbitrary: p)
  case (Cons a as)
  then obtain p1 where "pool_step p a = Goes p1" "pool_run p1 as = Some p'" by (auto split: moved.splits)
  with Cons.IH [of p1] Cons.prems(2) pool_step_inv show ?case by fastforce
qed simp

lemma pool_start_inv: "pool_inv (saga_Start NewSaga n)"
  by (auto simp: pool_inv_def saga_Start_def NewSaga_def)

section \<open>Close returns\<close>

fun effort :: "pool_worker \<Rightarrow> nat" where
  "effort Idle = 1"
| "effort (Busy e) = 2"
| "effort Gone = 0"

definition pool_work :: "Pool \<Rightarrow> nat" where
  "pool_work p = 2 * length (queue p) + sum_list (map effort (crew p))"

fun of_worker :: "pool_action \<Rightarrow> bool" where
  "of_worker (PReceive i) = True"
| "of_worker (PFinish i) = True"
| "of_worker _ = False"

lemma effort_update: "i < length ws \<Longrightarrow> sum_list (map effort (ws[i := w])) + effort (ws ! i) = sum_list (map effort ws) + effort w"
  by (induction ws arbitrary: i) (auto simp: nth_Cons split: nat.splits)

lemma worker_step_less:
  assumes "pool_step p a = Goes p'" and "of_worker a"
  shows "pool_work p' < pool_work p"
proof (cases a)
  case (PReceive i)
  with assms(1) have "pool_receive p i = Goes p'" by simp
  then show ?thesis
  proof (cases rule: pool_receive_cases)
    case (event e q)
    with effort_update [OF event(1), of "Busy e"] show ?thesis by (simp add: pool_work_def)
  next
    case over
    with effort_update [OF over(1), of Gone] show ?thesis by (simp add: pool_work_def)
  qed
next
  case (PFinish i)
  with assms(1) have "pool_finish p i = Goes p'" by simp
  then obtain e where e: "i < length (crew p)" "crew p ! i = Busy e" "p' = p\<lparr>crew := (crew p)[i := Idle], handled := handled p @ [e]\<rparr>"
    by (rule pool_finish_cases)
  with effort_update [OF e(1), of Idle] show ?thesis by (simp add: pool_work_def)
qed (use assms(2) in simp_all)

text \<open>After \<^verbatim>\<open>close\<close> a worker that is left can always go on.\<close>

lemma worker_not_stuck:
  assumes "shut p" and "\<not> crew_gone p"
  shows "\<exists>a p'. of_worker a \<and> pool_step p a = Goes p'"
proof -
  obtain i where i: "i < length (crew p)" "crew p ! i \<noteq> Gone"
    using assms(2) by (auto simp: crew_gone_def list_all_length)
  show ?thesis
  proof (cases "crew p ! i")
    case Idle
    with i assms(1) show ?thesis
      by (intro exI [of _ "PReceive i"]) (auto simp: pool_receive_def split: list.split)
  next
    case (Busy e)
    with i show ?thesis by (intro exI [of _ "PFinish i"]) (auto simp: pool_finish_def)
  qed (use i in simp)
qed

text \<open>A step that is neither blocked nor a panic.\<close>

definition pool_move :: "Pool \<Rightarrow> pool_action \<Rightarrow> Pool option" where
  "pool_move p a = (case pool_step p a of Goes p' \<Rightarrow> Some p' | _ \<Rightarrow> None)"

lemma pool_move_Some [simp]: "pool_move p a = Some p' \<longleftrightarrow> pool_step p a = Goes p'"
  by (auto simp: pool_move_def split: moved.splits)

lemma pool_run_steps: "pool_run p as = exec_steps pool_move p as"
  by (induction as arbitrary: p) (auto simp: pool_move_def split: moved.split)

lemma worker_step_shut: "pool_step p a = Goes p' \<Longrightarrow> of_worker a \<Longrightarrow> shut p' = shut p"
  by (cases a) (auto elim!: pool_receive_cases pool_finish_cases)

interpretation pool_closing: draining pool_move of_worker shut crew_gone pool_work
proof unfold_locales
  show "\<exists>a p'. of_worker a \<and> pool_move p a = Some p'" if "shut p" "\<not> crew_gone p" for p
    using worker_not_stuck [OF that] by simp
qed (simp_all add: worker_step_shut worker_step_less)

lemma crew_gone_handled:
  assumes "pool_inv p" and "crew p \<noteq> []" and g: "crew_gone p"
  shows "mset (handled p) = mset (sent p)"
proof -
  have all: "w = Gone" if "w \<in> set (crew p)" for w using g that by (simp add: crew_gone_def list_all_iff)
  then have "Gone \<in> set (crew p)" using assms(2) by (cases "crew p") auto
  then have "queue p = []" using assms(1) by (auto simp: pool_inv_def)
  moreover have "in_hand w = []" if "w \<in> set (crew p)" for w using all [OF that] by simp
  then have "concat (map in_hand (crew p)) = []" by simp
  ultimately show ?thesis using assms(1) by (simp add: pool_inv_def)
qed

text \<open>
  \<^verbatim>\<open>Close\<close> of the saga drains it: once the channel is closed, the workers take finitely many steps
  and are never stuck before all of them have ended; and when they have, every debit that was ever
  sent, by the bus or by the catch-up, has been processed exactly once.
\<close>

lemma saga_close_drains:
  assumes "pool_run (saga_Start NewSaga n) as = Some p" and "0 < n" and "shut p"
  shows "(\<forall>bs p'. list_all of_worker bs \<and> pool_run p bs = Some p' \<longrightarrow> length bs \<le> pool_work p) \<and>
    (\<exists>bs p'. list_all of_worker bs \<and> pool_run p bs = Some p' \<and> crew_gone p' \<and> mset (handled p') = mset (sent p'))"
proof -
  obtain bs p' where b: "list_all of_worker bs" "pool_run p bs = Some p'" "crew_gone p'"
    using pool_closing.finishes [OF assms(3)] unfolding pool_run_steps by blast
  have "pool_inv p" "length (crew p) = n"
    using pool_run_inv [OF assms(1) pool_start_inv] by (simp_all add: saga_Start_def NewSaga_def)
  with pool_run_inv [OF b(2)] have "pool_inv p'" "crew p' \<noteq> []" using assms(2) by auto
  with crew_gone_handled b pool_closing.drains [OF assms(3)] show ?thesis unfolding pool_run_steps by blast
qed

end
