(* ===== verification/Service.thy ===== *)
theory Service
  imports Boot
begin

text \<open>
  The running service: \<^verbatim>\<open>main\<close> of \<^verbatim>\<open>cmd/api/main.go\<close> from the catch-up of the saga to its end, together
  with the goroutines it has started. The bus calls the projector and the saga for every event, the
  saga hands debits to its workers, and these publish on the bus again. A step is one communication
  of one goroutine; it may have to wait, and it may panic.
\<close>

section \<open>State\<close>

text \<open>
  What a worker of the saga does inside \<^verbatim>\<open>process\<close>, as far as the others see it: it may append one
  event, a credit or a reversal, and then it is in \<^verbatim>\<open>Publish\<close> until the bus takes the event.
\<close>

datatype outbox = Silent | Posting Event | Posted

datatype main_pc =
    Resumes "Event list" \<comment> \<open>inside \<^verbatim>\<open>transferSaga.CatchUp\<close>, with the debits it has yet to send\<close>
  | Serves \<comment> \<open>the API is open; \<^verbatim>\<open>main\<close> waits for the signal\<close>
  | Stopping \<comment> \<open>inside \<^verbatim>\<open>httpSrv.Shutdown\<close>\<close>
  | ClosingBus \<comment> \<open>waits in \<^verbatim>\<open>eventBus.Close\<close>\<close>
  | ClosingSaga \<comment> \<open>waits in \<^verbatim>\<open>transferSaga.Close\<close>\<close>
  | Bye

text \<open>\<open>cancelled\<close>: the context of the signals has ended. \<open>skipped\<close> records the debits \<^verbatim>\<open>Handle\<close> has dropped.\<close>

record Service =
  sBus :: Bus
  sPool :: Pool
  outboxes :: "outbox list"
  cancelled :: bool
  main_at :: main_pc
  skipped :: "Event list"

definition launch :: "Running \<Rightarrow> Service" where
  "launch st = \<lparr>sBus = rBus st, sPool = rSaga st, outboxes = replicate (length (crew (rSaga st))) Silent,
     cancelled = False, main_at = Resumes (resumed st), skipped = []\<rparr>"

section \<open>Steps\<close>

datatype outcome = Wait | Crash | Next Service

definition on_bus :: "Service \<Rightarrow> Bus option \<Rightarrow> outcome" where
  "on_bus s r = (case r of None \<Rightarrow> Wait | Some b \<Rightarrow> Next (s\<lparr>sBus := b\<rparr>))"

definition on_pool :: "Service \<Rightarrow> moved \<Rightarrow> outcome" where
  "on_pool s r = (case r of Blocked \<Rightarrow> Wait | Panics \<Rightarrow> Crash | Goes p \<Rightarrow> Next (s\<lparr>sPool := p\<rparr>))"

text \<open>
  \<^verbatim>\<open>deliver\<close> calls the next handler: the projector, which always returns, or \<^verbatim>\<open>Handle\<close> of the saga, which
  may have to wait for room in the queue. It can give up only when the context has ended.
\<close>

definition bus_delivers :: "Service \<Rightarrow> nat \<Rightarrow> bool \<Rightarrow> outcome" where
  "bus_delivers s i dropped =
     (if i < length (workers (sBus s)) then
        (case workers (sBus s) ! i of
           Delivering d e m \<Rightarrow>
             if m \<noteq> 1 then on_bus s (handle (sBus s) i)
             else if dropped \<and> \<not> cancelled s then Wait
             else (case pool_Handle (sPool s) dropped e of
                 Blocked \<Rightarrow> Wait
               | Panics \<Rightarrow> Crash
               | Goes p \<Rightarrow>
                   on_bus (s\<lparr>sPool := p,
                     skipped := (if dropped \<and> eType e = EventTransferDebited then skipped s @ [e] else skipped s)\<rparr>)
                     (handle (sBus s) i))
         | _ \<Rightarrow> Wait)
      else Wait)"

definition saga_takes :: "Service \<Rightarrow> nat \<Rightarrow> outcome" where
  "saga_takes s i = on_pool (s\<lparr>outboxes := (outboxes s)[i := Silent]\<rparr>) (pool_receive (sPool s) i)"

definition settling :: "Event \<Rightarrow> bool" where
  "settling f \<longleftrightarrow> eType f = EventTransferCredited \<or> eType f = EventTransferReversed"

definition saga_appends :: "Service \<Rightarrow> nat \<Rightarrow> Event \<Rightarrow> outcome" where
  "saga_appends s i f =
     (if i < length (crew (sPool s)) \<and> in_hand (crew (sPool s) ! i) \<noteq> [] \<and> outboxes s ! i = Silent \<and> settling f
      then Next (s\<lparr>outboxes := (outboxes s)[i := Posting f]\<rparr>) else Wait)"

definition saga_posts :: "Service \<Rightarrow> nat \<Rightarrow> bool \<Rightarrow> outcome" where
  "saga_posts s i discarded =
     (if i < length (outboxes s) then
        (case outboxes s ! i of
           Posting f \<Rightarrow>
             on_bus (s\<lparr>outboxes := (outboxes s)[i := Posted]\<rparr>)
               (if discarded then drop_publish (sBus s) else send (sBus s) f)
         | _ \<Rightarrow> Wait)
      else Wait)"

definition saga_returns :: "Service \<Rightarrow> nat \<Rightarrow> outcome" where
  "saga_returns s i =
     (if i < length (outboxes s) then
        (case outboxes s ! i of Posting f \<Rightarrow> Wait | _ \<Rightarrow> on_pool s (pool_finish (sPool s) i))
      else Wait)"

text \<open>The goroutine in \<^verbatim>\<open>Start\<close> of the bus that waits for the context.\<close>

definition propagates :: "Service \<Rightarrow> outcome" where
  "propagates s = (if cancelled s \<and> \<not> closed (sBus s) then Next (s\<lparr>sBus := signalDone (sBus s)\<rparr>) else Wait)"

definition main_step :: "Service \<Rightarrow> outcome" where
  "main_step s =
     (case main_at s of
        Resumes [] \<Rightarrow> Next (s\<lparr>main_at := Serves\<rparr>)
      | Resumes (e # es) \<Rightarrow> on_pool (s\<lparr>main_at := Resumes es\<rparr>) (pool_send (sPool s) e)
      | Serves \<Rightarrow> if cancelled s then Next (s\<lparr>main_at := Stopping\<rparr>) else Wait
      | Stopping \<Rightarrow> Next (s\<lparr>main_at := ClosingBus, sBus := signalDone (sBus s)\<rparr>)
      | ClosingBus \<Rightarrow> if drained (sBus s) then on_pool (s\<lparr>main_at := ClosingSaga\<rparr>) (pool_close (sPool s)) else Wait
      | ClosingSaga \<Rightarrow> if crew_gone (sPool s) then Next (s\<lparr>main_at := Bye\<rparr>) else Wait
      | Bye \<Rightarrow> Wait)"

text \<open>Requests publish from when the API is open until the program ends.\<close>

definition api_open :: "Service \<Rightarrow> bool" where
  "api_open s = (case main_at s of Resumes _ \<Rightarrow> False | Bye \<Rightarrow> False | _ \<Rightarrow> True)"

datatype service_action =
    Request Event | Discard Event
  | Receives nat | SeesDone nat | Stops nat | Delivers nat bool
  | Takes nat | Appends nat Event | Posts nat bool | Returns nat
  | Cancel | Propagates | Main

fun service_step :: "Service \<Rightarrow> service_action \<Rightarrow> outcome" where
  "service_step s (Request e) = (if api_open s then on_bus s (send (sBus s) e) else Wait)"
| "service_step s (Discard e) = (if api_open s then on_bus s (drop_publish (sBus s)) else Wait)"
| "service_step s (Receives i) = on_bus s (receive (sBus s) i)"
| "service_step s (SeesDone i) = on_bus s (see_done (sBus s) i)"
| "service_step s (Stops i) = on_bus s (stop (sBus s) i)"
| "service_step s (Delivers i dropped) = bus_delivers s i dropped"
| "service_step s (Takes i) = saga_takes s i"
| "service_step s (Appends i f) = saga_appends s i f"
| "service_step s (Posts i discarded) = saga_posts s i discarded"
| "service_step s (Returns i) = saga_returns s i"
| "service_step s Cancel = Next (s\<lparr>cancelled := True\<rparr>)"
| "service_step s Propagates = propagates s"
| "service_step s Main = main_step s"

definition service_move :: "Service \<Rightarrow> service_action \<Rightarrow> Service option" where
  "service_move s a = (case service_step s a of Next s' \<Rightarrow> Some s' | _ \<Rightarrow> None)"

lemma service_move_Some [simp]: "service_move s a = Some s' \<longleftrightarrow> service_step s a = Next s'"
  by (auto simp: service_move_def split: outcome.splits)

inductive service_run :: "Running \<Rightarrow> Service \<Rightarrow> bool" for st where
  launched: "service_run st (launch st)"
| stepped: "service_run st s \<Longrightarrow> service_step s a = Next s' \<Longrightarrow> service_run st s'"

lemma service_run_exec: "exec_steps service_move s as = Some s' \<Longrightarrow> service_run st s \<Longrightarrow> service_run st s'"
  by (rule exec_steps_inv [where P = "service_run st"]) (auto intro: service_run.stepped)

text \<open>
  The steps of a worker between \<^verbatim>\<open>Takes\<close> and \<^verbatim>\<open>Returns\<close> are those of \<^const>\<open>process\<close>: whatever the store does, it
  publishes nothing or one event, a credit or a reversal.
\<close>

lemma decide_publishes:
  assumes "mutate app env g (\<lambda>d acc. decide d c acc) (s, b) = (r, s', b')" and "cmd_type c = EventTransferCredited \<or> cmd_type c = EventTransferReversed"
  shows "b' = b \<or> (\<exists>f. settling f \<and> b' = appPublish app b f) \<and> r = None"
proof -
  have "settling e" if "decide d c acc = Inr e" for d acc e
    using decide_event(3) [OF that] assms(2) by (simp add: settling_def)
  then show ?thesis
    using mutate_from_publishes [of app env "\<lambda>d acc. decide d c acc" g maxRetries 0 s b] assms(1)
    by (auto simp: mutate_def written_by_def split: if_splits)
qed

lemma credit_publishes:
  assumes "app_CreditTransfer app env to tid from n (s, b) = (r, s', b')"
  shows "b' = b \<or> (\<exists>f. settling f \<and> b' = appPublish app b f) \<and> r = None"
proof -
  obtain x s1 where x: "HasTransferEvent (appStore app) s EventTransferCredited tid = (x, s1)" by (metis surj_pair)
  show ?thesis
  proof (cases "x = Inr False")
    case True
    then have "mutate app env to (\<lambda>d acc. decide d (CCredit tid from n) acc) (checked env s1, b) = (r, s', b')"
      using assms x by (simp add: app_CreditTransfer_def)
    from decide_publishes [OF this] show ?thesis by simp
  qed (use assms x in \<open>auto simp: app_CreditTransfer_def split: sum.splits bool.splits\<close>)
qed

lemma reversal_publishes:
  assumes "app_ReverseTransfer app env from tid n reason (s, b) = (r, s', b')"
  shows "b' = b \<or> (\<exists>f. settling f \<and> b' = appPublish app b f)"
proof -
  obtain x s1 where x: "HasTransferEvent (appStore app) s EventTransferReversed tid = (x, s1)" by (metis surj_pair)
  show ?thesis
  proof (cases "x = Inr False")
    case True
    then have "mutate app env from (\<lambda>d acc. decide d (CReverse tid n reason) acc) (checked env s1, b) = (r, s', b')"
      using assms x by (simp add: app_ReverseTransfer_def)
    from decide_publishes [OF this] show ?thesis by auto
  qed (use assms x in \<open>auto simp: app_ReverseTransfer_def split: sum.splits bool.splits\<close>)
qed

lemma credit_loop_publishes:
  assumes "credit_loop (app_commands app envs renv) ctxDone p from left i lastErr (s, b) = (r, s', b')"
  shows "b' = b \<or> (\<exists>f. settling f \<and> b' = appPublish app b f) \<and> r = Credited"
  using assms
proof (induction left arbitrary: i lastErr s)
  case (Suc left)
  obtain x s1 b1 where c: "app_CreditTransfer app (envs i) (tdTo p) (tdTransferID p) from (tdAmount p) (s, b) = (x, s1, b1)"
    by (metis prod_cases3)
  show ?case
  proof (cases x)
    case None
    then show ?thesis using credit_publishes [OF c] c Suc.prems by (auto simp: app_commands_def)
  next
    case (Some err)
    then have b1: "b1 = b" using credit_publishes [OF c] by simp
    with Suc.IH [of "Suc i" err s1] Suc.prems c Some show ?thesis
      by (auto simp: app_commands_def split: if_splits)
  qed
qed simp

lemma process_publishes:
  assumes "process (app_commands app envs renv) ctxDone e (s, b) = (r, s', b')"
  shows "b' = b \<or> (\<exists>f. settling f \<and> b' = appPublish app b f)"
proof (cases "unmarshal_TransferDebited (eData e)")
  case (Inr p)
  obtain x s1 b1 where c: "credit_loop (app_commands app envs renv) ctxDone p (eAggregateID e) creditRetries 0 (Errorf []) (s, b) = (x, s1, b1)"
    by (metis prod_cases3)
  note pub = credit_loop_publishes [OF c]
  show ?thesis
  proof (cases x)
    case (GaveUp err)
    obtain y s2 b2 where v: "app_ReverseTransfer app renv (eAggregateID e) (tdTransferID p) (tdAmount p) (error_text err) (s1, b1) = (y, s2, b2)"
      by (metis prod_cases3)
    have "b1 = b" "b' = b2" using pub GaveUp assms Inr c v by (auto simp: process_def app_commands_def split: option.splits)
    with reversal_publishes [OF v] show ?thesis by simp
  qed (use pub assms Inr c in \<open>auto simp: process_def\<close>)
qed (use assms in \<open>simp add: process_def\<close>)

end
