(* ===== verification/Shutdown.thy ===== *)
theory Shutdown
  imports Service
begin

text \<open>
  The shutdown of the running service: no step panics, once the context has ended \<^verbatim>\<open>main\<close> reaches its end
  after finitely many steps, and at its end every debit the saga was handed has been processed.
\<close>

section \<open>Case analysis of a step\<close>

lemma on_bus_Next: "on_bus s r = Next s' \<longleftrightarrow> (\<exists>b. r = Some b \<and> s' = s\<lparr>sBus := b\<rparr>)"
  by (auto simp: on_bus_def split: option.splits)

lemma on_pool_Next: "on_pool s r = Next s' \<longleftrightarrow> (\<exists>p. r = Goes p \<and> s' = s\<lparr>sPool := p\<rparr>)"
  by (auto simp: on_pool_def split: moved.splits)

lemma on_pool_Crash: "on_pool s r = Crash \<longleftrightarrow> r = Panics"
  by (auto simp: on_pool_def split: moved.splits)

lemma on_bus_no_Crash [simp]: "on_bus s r \<noteq> Crash"
  by (auto simp: on_bus_def split: option.splits)

lemmas outcome_iffs = on_bus_Next on_pool_Next

lemma drop_publish_Some: "drop_publish b = Some b' \<longleftrightarrow> closed b \<and> b' = b"
  by (auto simp: drop_publish_def)

lemma bus_deliversE:
  assumes "bus_delivers s i dropped = Next s'"
  obtains (projector) d e m b where "i < length (workers (sBus s))" "workers (sBus s) ! i = Delivering d e m" "m \<noteq> 1"
      "handle (sBus s) i = Some b" "s' = s\<lparr>sBus := b\<rparr>"
    | (saga) d e p b where "i < length (workers (sBus s))" "workers (sBus s) ! i = Delivering d e 1"
      "dropped \<Longrightarrow> cancelled s" "pool_Handle (sPool s) dropped e = Goes p" "handle (sBus s) i = Some b"
      "s' = s\<lparr>sPool := p,
         skipped := (if dropped \<and> eType e = EventTransferDebited then skipped s @ [e] else skipped s), sBus := b\<rparr>"
proof -
  from assms obtain d e m where w: "i < length (workers (sBus s))" "workers (sBus s) ! i = Delivering d e m"
    by (auto simp: bus_delivers_def split: if_splits worker.splits)
  show thesis
  proof (cases "m = 1")
    case True
    then have ok: "\<not> (dropped \<and> \<not> cancelled s)" using assms w by (auto simp: bus_delivers_def split: if_splits)
    obtain p where p: "pool_Handle (sPool s) dropped e = Goes p"
      using assms w True ok by (cases "pool_Handle (sPool s) dropped e") (simp_all add: bus_delivers_def)
    obtain b where b: "handle (sBus s) i = Some b"
      using assms w True ok p by (cases "handle (sBus s) i") (simp_all add: bus_delivers_def on_bus_def)
    show thesis using assms w True ok p b by (intro saga [of d e p b]) (auto simp: bus_delivers_def on_bus_def)
  next
    case False
    with assms w show thesis by (auto simp: bus_delivers_def outcome_iffs intro: projector)
  qed
qed

text \<open>The steps of the parts a step of the service consists of.\<close>

lemma service_stepE:
  assumes "service_step s a = Next s'"
  obtains (request) e b where "a = Request e" "api_open s" "send (sBus s) e = Some b" "s' = s\<lparr>sBus := b\<rparr>"
    | (discard) e where "a = Discard e" "s' = s"
    | (worker) c b where "worker_action c" "\<And>i. c \<noteq> AHandle i" "bus_step (sBus s) c = Some b" "s' = s\<lparr>sBus := b\<rparr>"
        "a \<notin> {Main, Cancel, Propagates}"
    | (delivery) i dropped where "a = Delivers i dropped" "bus_delivers s i dropped = Next s'"
    | (take) i p where "a = Takes i" "pool_receive (sPool s) i = Goes p"
        "s' = s\<lparr>outboxes := (outboxes s)[i := Silent], sPool := p\<rparr>"
    | (append) i f e where "a = Appends i f" "i < length (crew (sPool s))" "crew (sPool s) ! i = Busy e"
        "outboxes s ! i = Silent" "settling f" "s' = s\<lparr>outboxes := (outboxes s)[i := Posting f]\<rparr>"
    | (post) i f b where "a = Posts i False" "i < length (outboxes s)" "outboxes s ! i = Posting f" "send (sBus s) f = Some b"
        "s' = s\<lparr>outboxes := (outboxes s)[i := Posted], sBus := b\<rparr>"
    | (unposted) i f where "a = Posts i True" "i < length (outboxes s)" "outboxes s ! i = Posting f" "closed (sBus s)"
        "s' = s\<lparr>outboxes := (outboxes s)[i := Posted]\<rparr>"
    | (return) i p where "a = Returns i" "i < length (outboxes s)" "\<And>f. outboxes s ! i \<noteq> Posting f"
        "pool_finish (sPool s) i = Goes p" "s' = s\<lparr>sPool := p\<rparr>"
    | (cancel) "a = Cancel" "s' = s\<lparr>cancelled := True\<rparr>"
    | (propagate) "a = Propagates" "cancelled s" "\<not> closed (sBus s)" "s' = s\<lparr>sBus := signalDone (sBus s)\<rparr>"
    | (main) "a = Main" "main_step s = Next s'"
proof (cases a)
  case (Request e)
  with assms show thesis by (auto simp: outcome_iffs split: if_splits intro: request)
next
  case (Discard e)
  with assms show thesis by (intro discard) (auto simp: outcome_iffs drop_publish_Some split: if_splits)
next
  case (Receives i)
  with assms show thesis by (auto simp: outcome_iffs intro: worker [of "AReceive i"])
next
  case (SeesDone i)
  with assms show thesis by (auto simp: outcome_iffs intro: worker [of "ASeeDone i"])
next
  case (Stops i)
  with assms show thesis by (auto simp: outcome_iffs intro: worker [of "AStop i"])
next
  case (Delivers i dropped)
  with assms show thesis by (intro delivery) simp_all
next
  case (Takes i)
  with assms show thesis by (auto simp: saga_takes_def outcome_iffs intro: take)
next
  case (Appends i f)
  with assms show thesis
    by (cases "crew (sPool s) ! i") (auto simp: saga_appends_def split: if_splits intro: append)
next
  case (Posts i discarded)
  with assms show thesis
    by (auto simp: saga_posts_def outcome_iffs drop_publish_Some split: if_splits outbox.splits intro: post unposted)
next
  case (Returns i)
  with assms show thesis
    by (auto simp: saga_returns_def outcome_iffs split: if_splits outbox.splits intro: return)
next
  case Propagates
  with assms show thesis by (intro propagate) (auto simp: propagates_def split: if_splits)
qed (use assms cancel main in auto)

lemma main_stepE:
  assumes "main_step s = Next s'"
  obtains (resumed) "main_at s = Resumes []" "s' = s\<lparr>main_at := Serves\<rparr>"
    | (resumes) e es p where "main_at s = Resumes (e # es)" "pool_send (sPool s) e = Goes p" "s' = s\<lparr>main_at := Resumes es, sPool := p\<rparr>"
    | (signal) "main_at s = Serves" "cancelled s" "s' = s\<lparr>main_at := Stopping\<rparr>"
    | (closing_bus) "main_at s = Stopping" "s' = s\<lparr>main_at := ClosingBus, sBus := signalDone (sBus s)\<rparr>"
    | (closing_saga) p where "main_at s = ClosingBus" "drained (sBus s)" "pool_close (sPool s) = Goes p"
        "s' = s\<lparr>main_at := ClosingSaga, sPool := p\<rparr>"
    | (bye) "main_at s = ClosingSaga" "crew_gone (sPool s)" "s' = s\<lparr>main_at := Bye\<rparr>"
  using assms by (auto simp: main_step_def outcome_iffs split: main_pc.splits list.splits if_splits)

section \<open>The parts run as they do alone\<close>

lemma service_bus:
  assumes "service_step s a = Next s'"
  shows "sBus s' = sBus s \<or> (\<exists>c. bus_step (sBus s) c = Some (sBus s') \<and> (c = ASignal \<longrightarrow> cancelled s \<or> main_at s = Stopping))"
  using assms
proof (cases rule: service_stepE)
  case (request e b)
  then show ?thesis by (intro disjI2 exI [of _ "ASend e"]) simp
next
  case (worker c b)
  then show ?thesis by (intro disjI2 exI [of _ c]) auto
next
  case (delivery i dropped)
  from delivery(2) show ?thesis by (cases rule: bus_deliversE) (auto intro!: exI [of _ "AHandle i"])
next
  case (post i f b)
  then show ?thesis by (intro disjI2 exI [of _ "ASend f"]) simp
next
  case propagate
  then show ?thesis by (intro disjI2 exI [of _ ASignal]) simp
next
  case main
  from main(2) show ?thesis by (cases rule: main_stepE) (auto intro!: exI [of _ ASignal])
qed auto

lemma service_pool:
  assumes "service_step s a = Next s'"
  shows "sPool s' = sPool s \<or> (\<exists>c. pool_step (sPool s) c = Goes (sPool s'))"
  using assms
proof (cases rule: service_stepE)
  case (delivery i dropped)
  from delivery(2) show ?thesis
  proof (cases rule: bus_deliversE)
    case (saga d e p b)
    then show ?thesis by (intro disjI2 exI [of _ "PHandle dropped e"]) simp
  qed auto
next
  case (take i p)
  then show ?thesis by (intro disjI2 exI [of _ "PReceive i"]) simp
next
  case (return i p)
  then show ?thesis by (intro disjI2 exI [of _ "PFinish i"]) simp
next
  case main
  from main(2) show ?thesis
  proof (cases rule: main_stepE)
    case (resumes e es p)
    then show ?thesis by (intro disjI2 exI [of _ "PResume e"]) simp
  next
    case (closing_saga p)
    then show ?thesis by (intro disjI2 exI [of _ PClose]) simp
  qed auto
qed auto

lemma started_stays:
  assumes "started b" and "bus_step b c = Some b'"
  shows "started b'" "handlers b' = handlers b" "length (partitions b') = length (partitions b)" "closed b \<Longrightarrow> closed b'"
    "c \<noteq> ASignal \<Longrightarrow> closed b' = closed b" "length (workers b') = length (workers b)"
  using assms
  by (cases c; auto simp: Subscribe_def Start_def signalDone_def drop_publish_Some split: if_splits
      elim!: sendE receiveE see_doneE stopE handleE)+

text \<open>A bus whose workers have all stopped delivers nothing more.\<close>

lemma drained_stays:
  assumes "shape_inv n b" and "started b" and "drained b" and "bus_step b c = Some b'"
  shows "drained b' \<and> calls b' = calls b"
proof -
  have st: "workers b ! i = worker.Stopped" if "i < length (workers b)" for i
    using assms(3) that by (simp add: drained_def)
  show ?thesis
  proof (cases c)
    case (ASend e)
    then have "send b e = Some b'" using assms(4) by simp
    then show ?thesis
    proof (cases rule: sendE)
      case (handed i d)
      then have "i < length (workers b)" using shape_lengths(1,2) [OF assms(1)] by (auto simp: partition_of_less)
      then show ?thesis using st handed(5) by (metis idle_not_stopped)
    qed (use assms(3) in \<open>auto simp: drained_def\<close>)
  next
    case (AReceive i)
    then have "receive b i = Some b'" using assms(4) by simp
    then show ?thesis by (cases rule: receiveE) (use st in \<open>metis idle_not_stopped\<close>)
  next
    case (AHandle i)
    then have "handle b i = Some b'" using assms(4) by simp
    then show ?thesis by (cases rule: handleE) (use st in auto)
  next
    case (ASeeDone i)
    then have "see_done b i = Some b'" using assms(4) by simp
    then show ?thesis by (cases rule: see_doneE) (use st in auto)
  next
    case (AStop i)
    then have "stop b i = Some b'" using assms(4) by simp
    then show ?thesis by (cases rule: stopE) (use st in auto)
  qed (use assms in \<open>auto simp: Subscribe_def Start_def signalDone_def drop_publish_Some drained_def split: if_splits\<close>)
qed

section \<open>Invariant\<close>

definition closing :: "main_pc \<Rightarrow> bool" where
  "closing m \<longleftrightarrow> m = ClosingBus \<or> m = ClosingSaga \<or> m = Bye"

definition saga_closed :: "main_pc \<Rightarrow> bool" where
  "saga_closed m \<longleftrightarrow> m = ClosingSaga \<or> m = Bye"

text \<open>
  How far \<^verbatim>\<open>main\<close> has come determines which channels are closed: the queue of the saga only after all
  workers of the bus, its only senders but for \<^verbatim>\<open>CatchUp\<close>, have stopped.
\<close>

definition control :: "Service \<Rightarrow> bool" where
  "control s \<longleftrightarrow> (shut (sPool s) \<longleftrightarrow> saga_closed (main_at s)) \<and> (saga_closed (main_at s) \<longrightarrow> drained (sBus s)) \<and>
     (closing (main_at s) \<longrightarrow> closed (sBus s)) \<and> (closed (sBus s) \<or> closing (main_at s) \<or> main_at s = Stopping \<longrightarrow> cancelled s)"

text \<open>Only a worker inside \<^verbatim>\<open>process\<close> publishes.\<close>

definition outboxes_ok :: "pool_worker list \<Rightarrow> outbox list \<Rightarrow> bool" where
  "outboxes_ok ws out \<longleftrightarrow> length out = length ws \<and>
     (\<forall>i f. i < length out \<longrightarrow> out ! i = Posting f \<longrightarrow> settling f \<and> in_hand (ws ! i) \<noteq> [])"

definition service_ok :: "Service \<Rightarrow> bool" where
  "service_ok s \<longleftrightarrow> (\<exists>n. shape_inv n (sBus s)) \<and> started (sBus s) \<and> handlers (sBus s) = 2 \<and> pool_inv (sPool s) \<and>
     crew (sPool s) \<noteq> [] \<and> 0 < capacity (sPool s) \<and> outboxes_ok (crew (sPool s)) (outboxes s) \<and> control s"

lemma pool_step_capacity: "pool_step p c = Goes p' \<Longrightarrow> capacity p' = capacity p"
  by (cases c) (auto simp: pool_Handle_def pool_send_def pool_close_def split: if_splits elim!: pool_receive_cases pool_finish_cases)

lemma pool_step_shut: "pool_step p c = Goes p' \<Longrightarrow> c \<noteq> PClose \<Longrightarrow> shut p' = shut p"
  by (cases c) (auto simp: pool_Handle_def pool_send_def split: if_splits elim!: pool_receive_cases pool_finish_cases)

lemma quiet_step:
  assumes "service_step s a = Next s'" and "a \<notin> {Main, Cancel, Propagates}" and "started (sBus s)"
  shows "main_at s' = main_at s \<and> cancelled s' = cancelled s \<and> shut (sPool s') = shut (sPool s) \<and> closed (sBus s') = closed (sBus s)"
  using assms(1)
proof (cases rule: service_stepE)
  case (request e b)
  then show ?thesis using started_stays(5) [OF assms(3), of "ASend e" b] by simp
next
  case (worker c b)
  then show ?thesis using worker_step_closed [OF worker(1,3)] by simp
next
  case (delivery i dropped)
  from delivery(2) show ?thesis
  proof (cases rule: bus_deliversE)
    case (projector d e m b)
    then show ?thesis using started_stays(5) [OF assms(3), of "AHandle i" b] by simp
  next
    case (saga d e p b)
    then show ?thesis
      using started_stays(5) [OF assms(3), of "AHandle i" b] pool_step_shut [of "sPool s" "PHandle dropped e" p] by simp
  qed
next
  case (take i p)
  then show ?thesis using pool_step_shut [of "sPool s" "PReceive i" p] by simp
next
  case (post i f b)
  then show ?thesis using started_stays(5) [OF assms(3), of "ASend f" b] by simp
next
  case (return i p)
  then show ?thesis using pool_step_shut [of "sPool s" "PFinish i" p] by simp
qed (use assms(2) in auto)

lemma service_drained:
  assumes "service_step s a = Next s'" and "shape_inv n (sBus s)" and "started (sBus s)" and "drained (sBus s)"
  shows "drained (sBus s') \<and> calls (sBus s') = calls (sBus s)"
  using service_bus [OF assms(1)] drained_stays [OF assms(2-4)] assms(4) by auto

lemma drained_signal [simp]: "drained (signalDone b) = drained b"
  by (simp add: signalDone_def drained_def)

lemma closed_signal [simp]: "closed (signalDone b)"
  by (simp add: signalDone_def)

lemmas control_defs = control_def closing_def saga_closed_def

lemma main_step_control:
  assumes "main_step s = Next s'" and "control s"
  shows "control s'"
  using assms(1)
proof (cases rule: main_stepE)
  case (resumes e es p)
  then show ?thesis using assms(2) pool_step_shut [of "sPool s" "PResume e" p] by (auto simp: control_defs)
next
  case (closing_saga p)
  then show ?thesis using assms(2) by (auto simp: control_defs pool_close_def split: if_splits)
qed (use assms(2) in \<open>auto simp: control_defs\<close>)

lemma service_control:
  assumes "service_step s a = Next s'" and "shape_inv n (sBus s)" and "started (sBus s)" and "control s"
  shows "control s'"
proof (cases "a \<in> {Main, Cancel, Propagates}")
  case False
  then show ?thesis
    using quiet_step [OF assms(1) _ assms(3)] service_drained [OF assms(1-3)] assms(4) by (auto simp: control_def)
next
  case True
  show ?thesis using assms(1)
  proof (cases rule: service_stepE)
    case main
    from main_step_control [OF main(2) assms(4)] show ?thesis .
  qed (use True assms(4) in \<open>auto simp: control_def\<close>)
qed

lemma outboxes_update:
  assumes "outboxes_ok ws out" and "\<And>f. y = Posting f \<Longrightarrow> settling f \<and> in_hand w \<noteq> []"
  shows "outboxes_ok (ws[i := w]) (out[i := y])"
proof (cases "i < length ws")
  case True
  then show ?thesis using assms by (simp add: outboxes_ok_def nth_list_update)
qed (use assms in \<open>simp add: outboxes_ok_def\<close>)

lemma outbox_update:
  assumes "outboxes_ok ws out" and "\<And>f. y = Posting f \<Longrightarrow> settling f \<and> in_hand (ws ! i) \<noteq> []"
  shows "outboxes_ok ws (out[i := y])"
  using outboxes_update [OF assms] by (metis list_update_id)

lemma service_outboxes:
  assumes "service_step s a = Next s'" and "outboxes_ok (crew (sPool s)) (outboxes s)"
  shows "outboxes_ok (crew (sPool s')) (outboxes s')"
  using assms(1)
proof (cases rule: service_stepE)
  case (delivery i dropped)
  from delivery(2) show ?thesis
  proof (cases rule: bus_deliversE)
    case (saga d e p b)
    then have "crew p = crew (sPool s)" by (auto simp: pool_Handle_def pool_send_def split: if_splits)
    then show ?thesis using saga assms(2) by simp
  qed (use assms(2) in simp)
next
  case (take i p)
  from take(2) obtain w where "crew p = (crew (sPool s))[i := w]" by (cases rule: pool_receive_cases) auto
  then show ?thesis using take(3) outboxes_update [OF assms(2), of Silent w i] by simp
next
  case (append i f e)
  then show ?thesis using outbox_update [OF assms(2), of "Posting f" i] by simp
next
  case (post i f b)
  then show ?thesis using outbox_update [OF assms(2), of Posted i] by simp
next
  case (unposted i f)
  then show ?thesis using outbox_update [OF assms(2), of Posted i] by simp
next
  case (return i p)
  from return(4) obtain w where "crew p = (crew (sPool s))[i := w]" by (rule pool_finish_cases) auto
  then show ?thesis using return(3,5) outboxes_update [OF assms(2), of "outboxes s ! i" w i] by simp
next
  case main
  from main(2) show ?thesis
    by (cases rule: main_stepE) (use assms(2) in \<open>auto simp: pool_send_def pool_close_def split: if_splits\<close>)
qed (use assms(2) in auto)

lemma service_ok_step:
  assumes "service_step s a = Next s'" and "service_ok s"
  shows "service_ok s'"
proof -
  obtain n where n: "shape_inv n (sBus s)" "started (sBus s)" "handlers (sBus s) = 2" "control s"
    using assms(2) by (auto simp: service_ok_def)
  have b: "shape_inv n (sBus s') \<and> started (sBus s') \<and> handlers (sBus s') = 2"
    using service_bus [OF assms(1)]
  proof (elim disjE exE conjE)
    fix c assume c: "bus_step (sBus s) c = Some (sBus s')"
    then show ?thesis using shape_step [OF n(1) c] started_stays(1,2) [OF n(2) c] n(3) by simp
  qed (use n in simp)
  have p: "pool_inv (sPool s') \<and> length (crew (sPool s')) = length (crew (sPool s)) \<and> capacity (sPool s') = capacity (sPool s)"
    using service_pool [OF assms(1)]
  proof (elim disjE exE)
    fix c assume "pool_step (sPool s) c = Goes (sPool s')"
    then show ?thesis using pool_step_inv pool_step_capacity assms(2) unfolding service_ok_def by blast
  qed (use assms(2) in \<open>simp add: service_ok_def\<close>)
  have "control s'" using service_control [OF assms(1) n(1,2,4)] .
  then show ?thesis
    using b p service_outboxes [OF assms(1)] assms(2) unfolding service_ok_def by (metis length_0_conv)
qed

section \<open>No step panics\<close>

lemma service_no_crash:
  assumes "service_ok s"
  shows "service_step s a \<noteq> Crash"
proof -
  have c: "control s" using assms by (simp add: service_ok_def)
  have "bus_delivers s i dropped \<noteq> Crash" for i dropped
  proof (cases "shut (sPool s)")
    case True
    then have "drained (sBus s)" using c by (simp add: control_def)
    then have "workers (sBus s) ! i = worker.Stopped" if "i < length (workers (sBus s))"
      using that by (simp add: drained_def)
    then show ?thesis by (simp add: bus_delivers_def)
  next
    case False
    then have "pool_Handle (sPool s) dropped e \<noteq> Panics" for e by (simp add: pool_Handle_def pool_send_def)
    then show ?thesis by (auto simp: bus_delivers_def split: worker.split moved.split)
  qed
  moreover have "main_step s \<noteq> Crash"
    using c by (auto simp: main_step_def on_pool_Crash pool_send_def pool_close_def control_defs split: main_pc.split list.split)
  ultimately show ?thesis
    by (cases a) (auto simp: saga_takes_def saga_appends_def saga_posts_def saga_returns_def propagates_def on_pool_Crash
        pool_receive_def pool_finish_def split: outbox.split pool_worker.split list.split)
qed

section \<open>The work that is left\<close>

text \<open>
  A debit in a channel of the bus may still become one in the queue of the saga, and that the event
  a worker of the saga publishes; each is charged for the steps it can cause.
\<close>

definition bill :: "Event \<Rightarrow> nat" where
  "bill e = (if eType e = EventTransferDebited then 8 else 0)"

fun worker_cost :: "worker \<Rightarrow> nat" where
  "worker_cost Waiting = 2"
| "worker_cost Draining = 1"
| "worker_cost (Delivering d e m) = (if d then 1 else 2) + Suc (2 - m) + (if m \<le> 1 then bill e else 0)"
| "worker_cost worker.Stopped = 0"

definition channel_cost :: "Event list \<Rightarrow> nat" where
  "channel_cost es = sum_list (map (\<lambda>e. 4 + bill e) es)"

fun crew_cost :: "pool_worker \<Rightarrow> outbox \<Rightarrow> nat" where
  "crew_cost Gone out = 0"
| "crew_cost Idle out = 1"
| "crew_cost (Busy e) Silent = 8"
| "crew_cost (Busy e) (Posting f) = 7"
| "crew_cost (Busy e) Posted = 2"

fun main_cost :: "main_pc \<Rightarrow> nat" where
  "main_cost (Resumes es) = 5 + 9 * length es"
| "main_cost Serves = 4"
| "main_cost Stopping = 3"
| "main_cost ClosingBus = 2"
| "main_cost ClosingSaga = 1"
| "main_cost Bye = 0"

definition bus_cost :: "Bus \<Rightarrow> nat" where
  "bus_cost b = sum_list (map channel_cost (partitions b)) + sum_list (map worker_cost (workers b)) + (if closed b then 0 else 1)"

definition crew_total :: "pool_worker list \<Rightarrow> outbox list \<Rightarrow> nat" where
  "crew_total ws out = sum_list (map2 crew_cost ws out)"

definition service_work :: "Service \<Rightarrow> nat" where
  "service_work s = bus_cost (sBus s) + 8 * length (queue (sPool s)) +
     crew_total (crew (sPool s)) (outboxes s) + main_cost (main_at s)"

fun by_itself :: "service_action \<Rightarrow> bool" where
  "by_itself (Request e) = False"
| "by_itself (Discard e) = False"
| "by_itself Cancel = False"
| "by_itself _ = True"

lemma map2_update:
  assumes "i < length xs" and "length xs = length ys"
  shows "map2 f (xs[i := x]) (ys[i := y]) = (map2 f xs ys)[i := f x y]"
  using assms by (intro nth_equalityI) (auto simp: nth_list_update)

lemma crew_cost_update:
  assumes "i < length xs" and "length xs = length ys"
  shows "crew_total (xs[i := x]) (ys[i := y]) + crew_cost (xs ! i) (ys ! i) = crew_total xs ys + crew_cost x y"
proof -
  have "i < length (map2 crew_cost xs ys)" "map2 crew_cost xs ys ! i = crew_cost (xs ! i) (ys ! i)" using assms by simp_all
  with sum_list_map_update [where f = "\<lambda>n. n" and xs = "map2 crew_cost xs ys" and i = i and x = "crew_cost x y"] show ?thesis
    unfolding crew_total_def map2_update [OF assms] by simp
qed

lemma channel_cost_simps [simp]:
  "channel_cost [] = 0" "channel_cost (e # es) = 4 + bill e + channel_cost es" "channel_cost (xs @ ys) = channel_cost xs + channel_cost ys"
  by (simp_all add: channel_cost_def)

lemma worker_cost_idle [simp]: "worker_cost (idle d) = (if d then 1 else 2)"
  by (simp add: idle_def)

lemma bus_cost_step:
  assumes "worker_action c" and "bus_step b c = Some b'" and "shape_inv n b" and "handlers b = 2"
  shows "bus_cost b' < bus_cost b"
proof -
  note upd = sum_list_map_update [where f = worker_cost and xs = "workers b"]
  note updc = sum_list_map_update [where f = channel_cost and xs = "partitions b"]
  have len: "i < length (workers b) \<Longrightarrow> i < length (partitions b)" for i
    using shape_lengths(1-3) [OF assms(3)] by auto
  consider (receive) i where "receive b i = Some b'" | (see_done) i where "see_done b i = Some b'"
    | (stop) i where "stop b i = Some b'" | (handle) i where "handle b i = Some b'"
    using assms(1,2) by (cases c) auto
  then show ?thesis
  proof cases
    case (receive i)
    then show ?thesis
    proof (cases rule: receiveE)
      case (1 e q d)
      then show ?thesis using upd [OF 1(1), of "Delivering d e 0"] updc [OF len [OF 1(1)], of q] by (simp add: bus_cost_def)
    qed
  next
    case (see_done i)
    then show ?thesis by (cases rule: see_doneE) (use upd [of i Draining] in \<open>auto simp: bus_cost_def\<close>)
  next
    case (stop i)
    then show ?thesis by (cases rule: stopE) (use upd [of i worker.Stopped] in \<open>auto simp: bus_cost_def\<close>)
  next
    case (handle i)
    then show ?thesis
    proof (cases rule: handleE)
      case (call d e m)
      then show ?thesis using upd [OF call(1), of "Delivering d e (Suc m)"] assms(4) by (auto simp: bus_cost_def split: if_splits)
    next
      case (return d e m)
      then show ?thesis using upd [OF return(1), of "idle d"] assms(4) by (auto simp: bus_cost_def split: if_splits)
    qed
  qed
qed

lemma bus_cost_saga:
  assumes "handle b i = Some b'" and "workers b ! i = Delivering d e 1" and "handlers b = 2"
  shows "bus_cost b' + bill e < bus_cost b"
  using assms(1)
proof (cases rule: handleE)
  case (call d' e' m)
  with assms sum_list_map_update [where f = worker_cost and xs = "workers b" and i = i and x = "Delivering d e (Suc 1)"] show ?thesis
    by (auto simp: bus_cost_def split: if_splits)
qed (use assms in simp)

lemma bus_cost_send:
  assumes "send b e = Some b'" and "shape_inv n b"
  shows "bus_cost b' \<le> bus_cost b + 4 + bill e"
proof -
  note len = shape_lengths(1,2) [OF assms(2)]
  from assms(1) show ?thesis
  proof (cases rule: sendE)
    case (queued i)
    then have "i < length (partitions b)" using len(1) by (auto simp: partition_of_less)
    with queued sum_list_map_update [where f = channel_cost and xs = "partitions b" and i = i and x = "partitions b ! i @ [e]"]
    show ?thesis by (simp add: bus_cost_def)
  next
    case (handed i d)
    then have "i < length (workers b)" using len by (auto simp: partition_of_less)
    with handed sum_list_map_update [where f = worker_cost and xs = "workers b" and i = i and x = "Delivering d e 0"]
    show ?thesis by (simp add: bus_cost_def split: if_splits)
  qed
qed

lemma bus_cost_signal: "bus_cost (signalDone b) \<le> bus_cost b" "\<not> closed b \<Longrightarrow> bus_cost (signalDone b) < bus_cost b"
  by (simp_all add: bus_cost_def signalDone_def)

lemma settling_bill [simp]: "settling f \<Longrightarrow> bill f = 0"
  by (auto simp: settling_def bill_def event_type_defs)

lemma delivery_less:
  assumes "bus_delivers s i dropped = Next s'" and "shape_inv n (sBus s)" and "handlers (sBus s) = 2"
  shows "service_work s' < service_work s"
  using assms(1)
proof (cases rule: bus_deliversE)
  case (projector d e m b)
  then show ?thesis using bus_cost_step [of "AHandle i" "sBus s" b n] assms(2,3) by (simp add: service_work_def)
next
  case (saga d e p b)
  have "8 * length (queue p) \<le> 8 * length (queue (sPool s)) + bill e" "crew p = crew (sPool s)"
    using saga(4) by (auto simp: pool_Handle_def pool_send_def bill_def split: if_splits)
  then show ?thesis using saga(6) bus_cost_saga [OF saga(5,2) assms(3)] by (simp add: service_work_def)
qed

lemma main_less:
  assumes "main_step s = Next s'"
  shows "service_work s' < service_work s"
  using assms
proof (cases rule: main_stepE)
  case (resumes e es p)
  then show ?thesis by (auto simp: service_work_def pool_send_def split: if_splits)
next
  case closing_bus
  then show ?thesis using bus_cost_signal(1) [of "sBus s"] by (simp add: service_work_def)
next
  case (closing_saga p)
  then show ?thesis by (auto simp: service_work_def pool_close_def split: if_splits)
qed (simp_all add: service_work_def)

lemma pool_less:
  assumes "crew_total (crew p) out + 8 * length (queue p) < crew_total (crew (sPool s)) (outboxes s) + 8 * length (queue (sPool s))"
  shows "service_work (s\<lparr>outboxes := out, sPool := p\<rparr>) < service_work s"
  using assms by (simp add: service_work_def)

lemma take_less:
  assumes "pool_receive (sPool s) i = Goes p" and "length (outboxes s) = length (crew (sPool s))"
  shows "service_work (s\<lparr>outboxes := (outboxes s)[i := Silent], sPool := p\<rparr>) < service_work s"
  using assms(1)
proof (cases rule: pool_receive_cases)
  case (event e q)
  have "crew_total (crew p) ((outboxes s)[i := Silent]) + 1 = crew_total (crew (sPool s)) (outboxes s) + 8"
    using crew_cost_update [OF event(1) assms(2) [symmetric], of "Busy e" Silent] event(2,4) by simp
  moreover have "length (queue (sPool s)) = Suc (length (queue p))" using event(3,4) by simp
  ultimately show ?thesis by (intro pool_less) simp
next
  case over
  have "crew_total (crew p) ((outboxes s)[i := Silent]) + 1 = crew_total (crew (sPool s)) (outboxes s)"
    using crew_cost_update [OF over(1) assms(2) [symmetric], of Gone Silent] over(2,5) by simp
  moreover have "queue p = queue (sPool s)" using over(5) by simp
  ultimately show ?thesis by (intro pool_less) simp
qed

lemma return_less:
  assumes "pool_finish (sPool s) i = Goes p" and "length (outboxes s) = length (crew (sPool s))"
  shows "service_work (s\<lparr>sPool := p\<rparr>) < service_work s"
proof -
  from assms(1) obtain e where e: "i < length (crew (sPool s))" "crew (sPool s) ! i = Busy e"
      "p = sPool s\<lparr>crew := (crew (sPool s))[i := Idle], handled := handled (sPool s) @ [e]\<rparr>" by (rule pool_finish_cases)
  have "2 \<le> crew_cost (Busy e) (outboxes s ! i)" by (cases "outboxes s ! i") simp_all
  moreover have "crew_total (crew p) (outboxes s) + crew_cost (Busy e) (outboxes s ! i) = crew_total (crew (sPool s)) (outboxes s) + 1"
    using crew_cost_update [OF e(1) assms(2) [symmetric], of Idle "outboxes s ! i"] e(2,3) by simp
  moreover have "queue p = queue (sPool s)" using e(3) by simp
  ultimately show ?thesis using pool_less [of p "outboxes s" s] by simp
qed

lemma service_less:
  assumes "service_ok s" and "by_itself a" and "service_step s a = Next s'"
  shows "service_work s' < service_work s"
proof -
  obtain n where sh: "shape_inv n (sBus s)" using assms(1) by (auto simp: service_ok_def)
  have h: "handlers (sBus s) = 2" and ok: "outboxes_ok (crew (sPool s)) (outboxes s)"
    using assms(1) by (auto simp: service_ok_def)
  then have len: "length (outboxes s) = length (crew (sPool s))" by (simp add: outboxes_ok_def)
  have out: "crew_total (crew (sPool s)) ((outboxes s)[i := y]) + crew_cost (crew (sPool s) ! i) (outboxes s ! i) =
      crew_total (crew (sPool s)) (outboxes s) + crew_cost (crew (sPool s) ! i) y" if "i < length (outboxes s)" for i y
    using crew_cost_update [OF that [unfolded len] len [symmetric], of "crew (sPool s) ! i" y] by simp
  have busy: "settling f \<and> (\<exists>e. crew (sPool s) ! i = Busy e)" if "i < length (outboxes s)" "outboxes s ! i = Posting f" for i f
    using ok that by (cases "crew (sPool s) ! i") (auto simp: outboxes_ok_def)
  from assms(3) show ?thesis
  proof (cases rule: service_stepE)
    case (worker c b)
    then show ?thesis using bus_cost_step [OF worker(1,3) sh h] by (simp add: service_work_def)
  next
    case (delivery i dropped)
    then show ?thesis using delivery_less [OF _ sh h] by simp
  next
    case (take i p)
    then show ?thesis using take_less [OF take(2) len] by simp
  next
    case (append i f e)
    then show ?thesis using out [of i "Posting f"] len by (simp add: service_work_def)
  next
    case (return i p)
    then show ?thesis using return_less [OF return(4) len] by simp
  next
    case propagate
    then show ?thesis using bus_cost_signal(2) by (simp add: service_work_def)
  next
    case main
    then show ?thesis using main_less by simp
  next
    case (post i f b)
    from busy [OF post(2,3)] obtain e where e: "settling f" "crew (sPool s) ! i = Busy e" by blast
    then show ?thesis using post out [OF post(2), of Posted] bus_cost_send [OF post(4) sh] by (simp add: service_work_def)
  next
    case (unposted i f)
    from busy [OF unposted(2,3)] obtain e where "crew (sPool s) ! i = Busy e" by blast
    then show ?thesis using unposted out [OF unposted(2), of Posted] by (simp add: service_work_def)
  qed (use assms(2) in auto)
qed

section \<open>Something can always go on\<close>

lemma bus_goes_on:
  assumes "shape_inv n (sBus s)" and "closed (sBus s)" and "cancelled s" and "\<not> drained (sBus s)"
  shows "\<exists>a s'. by_itself a \<and> service_step s a = Next s'"
proof -
  obtain c b where c: "worker_action c" "bus_step (sBus s) c = Some b" using worker_progress [OF assms(1,2,4)] by blast
  show ?thesis
  proof (cases c)
    case (AHandle i)
    then have "handle (sBus s) i = Some b" using c(2) by simp
    moreover from this obtain d e m where "i < length (workers (sBus s))" "workers (sBus s) ! i = Delivering d e m"
      by (cases rule: handleE) auto
    moreover have "pool_Handle (sPool s) True e = Goes (sPool s)" for e by (simp add: pool_Handle_def)
    ultimately show ?thesis using assms(3) by (intro exI [of _ "Delivers i True"]) (simp add: bus_delivers_def on_bus_def)
  next
    case (AReceive i)
    then show ?thesis using c(2) by (intro exI [of _ "Receives i"]) (simp add: on_bus_def)
  next
    case (ASeeDone i)
    then show ?thesis using c(2) by (intro exI [of _ "SeesDone i"]) (simp add: on_bus_def)
  next
    case (AStop i)
    then show ?thesis using c(2) by (intro exI [of _ "Stops i"]) (simp add: on_bus_def)
  qed (use c(1) in simp_all)
qed

lemma crew_goes_on:
  assumes "closed (sBus s)" and "outboxes_ok (crew (sPool s)) (outboxes s)" and "i < length (crew (sPool s))"
    and "crew (sPool s) ! i \<noteq> Gone" and "queue (sPool s) \<noteq> [] \<or> shut (sPool s)"
  shows "\<exists>a s'. by_itself a \<and> service_step s a = Next s'"
proof (cases "crew (sPool s) ! i")
  case Idle
  then obtain p where "pool_receive (sPool s) i = Goes p"
    using assms(3,5) by (cases "queue (sPool s)") (auto simp: pool_receive_def)
  then show ?thesis by (intro exI [of _ "Takes i"]) (simp add: saga_takes_def on_pool_def)
next
  case (Busy e)
  have i: "i < length (outboxes s)" using assms(2,3) by (simp add: outboxes_ok_def)
  show ?thesis
  proof (cases "outboxes s ! i")
    case (Posting f)
    then show ?thesis using i assms(1) by (intro exI [of _ "Posts i True"]) (simp add: saga_posts_def on_bus_def drop_publish_def)
  qed (use i Busy assms(3) in \<open>auto simp: saga_returns_def on_pool_def pool_finish_def intro!: exI [of _ "Returns i"]\<close>)
qed (use assms(4) in simp)

lemma service_goes_on:
  assumes "service_ok s" and "cancelled s" and "main_at s \<noteq> Bye"
  shows "\<exists>a s'. by_itself a \<and> service_step s a = Next s'"
proof (cases "closed (sBus s)")
  case False
  then show ?thesis using assms(2) by (intro exI [of _ Propagates]) (simp add: propagates_def)
next
  case True
  obtain n where sh: "shape_inv n (sBus s)" using assms(1) by (auto simp: service_ok_def)
  have ok: "outboxes_ok (crew (sPool s)) (outboxes s)" "crew (sPool s) \<noteq> []" "pool_inv (sPool s)" "0 < capacity (sPool s)" "control s"
    using assms(1) by (auto simp: service_ok_def)
  have mainI: ?thesis if "main_step s = Next s'" for s' using that by (intro exI [of _ Main]) simp
  show ?thesis
  proof (cases "main_at s")
    case (Resumes es)
    show ?thesis
    proof (cases "\<exists>s'. main_step s = Next s'")
      case False
      have sh: "\<not> shut (sPool s)" using ok(5) Resumes by (simp add: control_defs)
      then have "queue (sPool s) \<noteq> []" using False Resumes ok(4)
        by (cases es) (auto simp: main_step_def pool_send_def on_pool_def)
      moreover have "crew (sPool s) ! 0 \<noteq> Gone" using sh ok(2,3) by (auto simp: pool_inv_def in_set_conv_nth)
      ultimately show ?thesis using ok(2) by (intro crew_goes_on [OF True ok(1), of 0]) auto
    qed (use mainI in blast)
  next
    case ClosingBus
    show ?thesis
    proof (cases "drained (sBus s)")
      case True
      moreover have "\<not> shut (sPool s)" using ok(5) ClosingBus by (simp add: control_defs)
      ultimately show ?thesis using ClosingBus by (intro mainI) (simp add: main_step_def on_pool_def pool_close_def)
    qed (use bus_goes_on [OF sh \<open>closed (sBus s)\<close> assms(2)] in blast)
  next
    case ClosingSaga
    show ?thesis
    proof (cases "crew_gone (sPool s)")
      case False
      then obtain i where i: "i < length (crew (sPool s))" "crew (sPool s) ! i \<noteq> Gone" by (auto simp: crew_gone_def list_all_length)
      moreover have "shut (sPool s)" using ok(5) ClosingSaga by (simp add: control_defs)
      ultimately show ?thesis using crew_goes_on [OF True ok(1)] by blast
    qed (use ClosingSaga in \<open>intro mainI, simp add: main_step_def\<close>)
  next
    case Serves
    then show ?thesis using assms(2) by (intro mainI) (simp add: main_step_def)
  next
    case Stopping
    then show ?thesis by (intro mainI) (simp add: main_step_def)
  qed (use assms(3) in simp)
qed

lemma cancelled_stays:
  assumes "service_step s a = Next s'" and "cancelled s"
  shows "cancelled s'"
  using assms(1)
proof (cases rule: service_stepE)
  case (delivery i dropped)
  from delivery(2) show ?thesis by (cases rule: bus_deliversE) (use assms(2) in simp_all)
next
  case main
  from main(2) show ?thesis by (cases rule: main_stepE) (use assms(2) in simp_all)
qed (use assms(2) in auto)

interpretation service_closing: draining service_move by_itself "\<lambda>s. service_ok s \<and> cancelled s" "\<lambda>s. main_at s = Bye" service_work
proof unfold_locales
  show "\<exists>a s'. by_itself a \<and> service_move s a = Some s'" if "service_ok s \<and> cancelled s" "main_at s \<noteq> Bye" for s
    using service_goes_on that by simp
qed (use service_ok_step service_less cancelled_stays in \<open>auto 0 3\<close>)

section \<open>From the boot\<close>

lemma pipeline_run:
  assumes "pipeline = Some b"
  shows "bus_run 8 1024 b" "started b" "handlers b = 2" "\<not> closed b" "calls b = []"
proof -
  have "bus_exec (NewInMemory 8 1024) [ASubscribe, ASubscribe, AStart] = Some b"
    using assms by (simp add: pipeline_def split: Option.bind_splits option.splits)
  then show "bus_run 8 1024 b" by (rule bus_exec_run [OF bus_run.new])
  show "started b" "handlers b = 2" "\<not> closed b" "calls b = []"
    using assms by (auto simp: pipeline_def NewInMemory_def Subscribe_def Start_def)
qed

lemma boot_starts:
  assumes "boot srv h db = Some (Inr st, db')"
  shows "pipeline = Some (rBus st)" "rSaga st = saga_Start NewSaga 4"
  using assms by (auto simp: boot_def Let_def split: option.split_asm prod.split_asm)

lemma launch_ok:
  assumes "boot srv h db = Some (Inr st, db')"
  shows "service_ok (launch st)"
proof -
  note b = pipeline_run [OF boot_starts(1) [OF assms]]
  have "shape_inv 8 (rBus st)" using bus_run_inv [OF b(1)] by simp
  with b(2-4) boot_starts(2) [OF assms] pool_start_inv [of 4] show ?thesis
    by (auto simp: service_ok_def launch_def control_defs outboxes_ok_def saga_Start_def NewSaga_def)
qed

lemma service_run_ok:
  assumes "service_run st s" and "boot srv h db = Some (Inr st, db')"
  shows "service_ok s"
  using assms(1) by induction (use launch_ok [OF assms(2)] service_ok_step in auto)

text \<open>
  C21. The service shuts down: in no state it can reach does a step panic, neither by a send on the
  closed queue nor by closing it twice; and once the context has ended, whatever is in flight, its
  goroutines take finitely many steps by themselves, and from wherever these have led, more of them
  lead to the end of \<^verbatim>\<open>main\<close>.
\<close>

theorem shutdown_completes:
  assumes "boot srv h db = Some (Inr st, db')" and "service_run st s"
  shows "(\<forall>a. service_step s a \<noteq> Crash) \<and>
    (cancelled s \<longrightarrow> (\<forall>as s'. list_all by_itself as \<and> exec_steps service_move s as = Some s' \<longrightarrow>
      length as \<le> service_work s \<and>
      (\<exists>bs s''. list_all by_itself bs \<and> exec_steps service_move s' bs = Some s'' \<and> main_at s'' = Bye)))"
proof -
  have ok: "service_ok s" using service_run_ok [OF assms(2,1)] .
  show ?thesis using service_no_crash [OF ok] service_closing.drains [of s] ok by blast
qed

section \<open>What is left at the end\<close>

definition debits :: "Event list \<Rightarrow> Event list" where
  "debits es = filter (\<lambda>e. eType e = EventTransferDebited) es"

fun unsent :: "main_pc \<Rightarrow> Event list" where
  "unsent (Resumes es) = es"
| "unsent _ = []"

text \<open>
  The debits the saga was ever offered, by the catch-up and by the bus, are those it was sent, those
  \<^verbatim>\<open>Handle\<close> dropped and those the catch-up has yet to send.
\<close>

definition offered :: "Running \<Rightarrow> Service \<Rightarrow> bool" where
  "offered st s \<longleftrightarrow> mset (sent (sPool s)) + mset (skipped s) + mset (unsent (main_at s)) =
     mset (resumed st) + mset (debits (seen_by 1 (calls (sBus s))))"

lemma calls_same:
  assumes "bus_step b c = Some b'" and "\<And>i. c \<noteq> AHandle i"
  shows "calls b' = calls b"
  using assms by (cases c) (auto simp: Subscribe_def Start_def signalDone_def drop_publish_Some split: if_splits
      elim!: sendE receiveE see_doneE stopE)

lemma handle_calls:
  assumes "handle b i = Some b'" and "workers b ! i = Delivering d e m" and "handlers b = 2"
  shows "seen_by 1 (calls b') = seen_by 1 (calls b) @ (if m = 1 then [e] else [])"
  using assms(1)
proof (cases rule: handleE)
  case (call d' e' m')
  then show ?thesis using assms(2) by (auto simp: seen_by_def)
next
  case (return d' e' m')
  then show ?thesis using assms(2,3) by simp
qed

lemma offered_delivery:
  assumes "bus_delivers s i dropped = Next s'" and "handlers (sBus s) = 2" and "offered st s"
  shows "offered st s'"
  using assms(1)
proof (cases rule: bus_deliversE)
  case (projector d e m b)
  then show ?thesis using handle_calls [OF projector(4,2) assms(2)] assms(3) by (simp add: offered_def)
next
  case (saga d e p b)
  have "mset (sent p) + mset (skipped s') = mset (sent (sPool s)) + mset (skipped s) + mset (debits [e])"
    using saga(4,6) by (auto simp: pool_Handle_def pool_send_def debits_def split: if_splits)
  then show ?thesis
    using handle_calls [OF saga(5,2) assms(2)] saga(6) assms(3) by (simp add: offered_def debits_def) (metis add.assoc add.commute)
qed

lemma offered_main:
  assumes "main_step s = Next s'" and "offered st s"
  shows "offered st s'"
  using assms(1)
proof (cases rule: main_stepE)
  case (resumes e es p)
  then show ?thesis using assms(2) by (auto simp: offered_def pool_send_def split: if_splits)
next
  case closing_bus
  then show ?thesis using assms(2) calls_same [of "sBus s" ASignal] by (simp add: offered_def)
next
  case (closing_saga p)
  then show ?thesis using assms(2) by (auto simp: offered_def pool_close_def split: if_splits)
qed (use assms(2) in \<open>auto simp: offered_def\<close>)

lemma offered_step:
  assumes "service_step s a = Next s'" and "handlers (sBus s) = 2" and "offered st s"
  shows "offered st s'"
  using assms(1)
proof (cases rule: service_stepE)
  case (request e b)
  then show ?thesis using calls_same [of "sBus s" "ASend e" b] assms(3) by (simp add: offered_def)
next
  case (worker c b)
  then show ?thesis using calls_same [OF worker(3)] assms(3) by (simp add: offered_def)
next
  case (delivery i dropped)
  then show ?thesis using offered_delivery [OF _ assms(2,3)] by simp
next
  case (take i p)
  then show ?thesis using assms(3) by (auto simp: offered_def elim!: pool_receive_cases)
next
  case (post i f b)
  then show ?thesis using calls_same [of "sBus s" "ASend f" b] assms(3) by (simp add: offered_def)
next
  case (return i p)
  then show ?thesis using assms(3) by (auto simp: offered_def elim!: pool_finish_cases)
next
  case propagate
  then show ?thesis using calls_same [of "sBus s" ASignal] assms(3) by (simp add: offered_def)
next
  case main
  then show ?thesis using offered_main [OF _ assms(3)] by simp
qed (use assms(3) in \<open>auto simp: offered_def\<close>)

lemma crew_gone_stays: "pool_step p c = Goes p' \<Longrightarrow> crew_gone p \<Longrightarrow> crew_gone p'"
  by (cases c) (auto simp: pool_Handle_def pool_send_def pool_close_def crew_gone_def list_all_length split: if_splits
      elim!: pool_receive_cases pool_finish_cases)

lemma bye_step:
  assumes "service_step s a = Next s'" and "main_at s = Bye \<longrightarrow> crew_gone (sPool s)" and "main_at s' = Bye"
  shows "crew_gone (sPool s')"
proof (cases "main_at s = Bye")
  case True
  then show ?thesis using service_pool [OF assms(1)] crew_gone_stays assms(2) by auto
next
  case False
  from assms(1) show ?thesis
  proof (cases rule: service_stepE)
    case (delivery i dropped)
    from delivery(2) show ?thesis by (cases rule: bus_deliversE) (use False assms(3) in simp_all)
  next
    case main
    from main(2) show ?thesis by (cases rule: main_stepE) (use False assms(3) in simp_all)
  qed (use False assms(3) in auto)
qed

lemma service_run_inv:
  assumes "service_run st s" and "boot srv h db = Some (Inr st, db')"
  shows "offered st s \<and> bus_run 8 1024 (sBus s) \<and> (main_at s = Bye \<longrightarrow> crew_gone (sPool s))"
  using assms(1)
proof induction
  case launched
  show ?case using pipeline_run [OF boot_starts(1) [OF assms(2)]] boot_starts(2) [OF assms(2)]
    by (simp add: launch_def offered_def debits_def seen_by_def saga_Start_def NewSaga_def)
next
  case (stepped s a s')
  have "handlers (sBus s) = 2" using service_run_ok [OF stepped.hyps(1) assms(2)] by (simp add: service_ok_def)
  moreover have "bus_run 8 1024 (sBus s')"
    using service_bus [OF stepped.hyps(2)] stepped.IH by (auto intro: bus_run.step)
  ultimately show ?case using offered_step [OF stepped.hyps(2)] bye_step [OF stepped.hyps(2)] stepped.IH by blast
qed

text \<open>
  C20. Nothing the saga was handed is left behind: when \<^verbatim>\<open>main\<close> ends, the debits that went through
  \<^verbatim>\<open>process\<close>, together with those \<^verbatim>\<open>Handle\<close> dropped because the context had ended, are exactly those the
  catch-up resumed and those the bus delivered, each as often as it was delivered; and the bus has
  delivered, account by account and in order, every event that entered it before it was closed.
\<close>

theorem shutdown_settles:
  assumes "boot srv h db = Some (Inr st, db')" and "service_run st s" and "main_at s = Bye"
  shows "mset (handled (sPool s)) + mset (skipped s) = mset (resumed st) + mset (debits (seen_by 1 (calls (sBus s)))) \<and>
    (\<forall>g. \<exists>late. of_account g (seen_by 1 (calls (sBus s))) = of_account g (take (closedAt (sBus s)) (accepted (sBus s))) @ late)"
proof -
  have ok: "pool_inv (sPool s)" "crew (sPool s) \<noteq> []" "started (sBus s)" "handlers (sBus s) = 2" "control s"
    using service_run_ok [OF assms(2,1)] by (auto simp: service_ok_def)
  have inv: "offered st s" "bus_run 8 1024 (sBus s)" "crew_gone (sPool s)"
    using service_run_inv [OF assms(2,1)] assms(3) by auto
  have "drained (sBus s)" using ok(5) assms(3) by (simp add: control_defs)
  then show ?thesis
    using crew_gone_handled [OF ok(1,2) inv(3)] inv(1) assms(3) drained_account [OF inv(2) _ ok(3), of 1] ok(4)
    by (simp add: offered_def)
qed

section \<open>A service on the sample database\<close>

text \<open>The boot after a crash between a debit and its credit; the signal comes while the debit is being processed.\<close>

definition sample_boot :: "(((string \<times> error) + Running) \<times> DB) option" where
  "sample_boot = boot healthy_server sample_host pg_transfer_started"

lemma sample_boot_state: "\<exists>st db. sample_boot = Some (Inr st, db) \<and> resumed st = [stored_debit]"
proof -
  have "case sample_boot of Some (Inr st, db) \<Rightarrow> resumed st = [stored_debit] | _ \<Rightarrow> False" by code_simp
  then show ?thesis by (auto split: option.splits sum.splits prod.splits)
qed

definition sample_stop :: "service_action list" where
  "sample_stop = [Main, Main, Takes 2, Appends 2 (stored_debit\<lparr>eType := EventTransferReversed\<rparr>), Cancel]"

lemma sample_stopped:
  assumes "sample_boot = Some (Inr st, db)" and "resumed st = [stored_debit]"
  shows "\<exists>s. exec_steps service_move (launch st) sample_stop = Some s \<and> cancelled s \<and> main_at s = Serves"
  using boot_starts(2) [OF assms(1) [unfolded sample_boot_def]] assms(2)
  by (simp add: sample_stop_def launch_def service_move_def main_step_def on_pool_def pool_send_def saga_Start_def NewSaga_def
      saga_takes_def pool_receive_def saga_appends_def settling_def eval_nat_numeral)

theorem shutdown_completes_witness:
  "\<exists>st db s bs s'. sample_boot = Some (Inr st, db) \<and> exec_steps service_move (launch st) sample_stop = Some s \<and>
     main_at s = Serves \<and> exec_steps service_move s bs = Some s' \<and> main_at s' = Bye"
proof -
  obtain st db where b: "sample_boot = Some (Inr st, db)" "resumed st = [stored_debit]" using sample_boot_state by blast
  obtain s where s: "exec_steps service_move (launch st) sample_stop = Some s" "cancelled s" "main_at s = Serves"
    using sample_stopped [OF b] by blast
  have r: "service_run st s" using service_run_exec [OF s(1)] service_run.launched by blast
  have "\<exists>bs s''. list_all by_itself bs \<and> exec_steps service_move s bs = Some s'' \<and> main_at s'' = Bye"
    using shutdown_completes [OF b(1) [unfolded sample_boot_def] r, THEN conjunct2, rule_format, OF s(2), of "[]" s] by simp
  with b(1) s show ?thesis by blast
qed

theorem shutdown_settles_witness:
  "\<exists>st s. service_run st s \<and> main_at s = Bye \<and>
     mset (handled (sPool s)) + mset (skipped s) = {#stored_debit#} + mset (debits (seen_by 1 (calls (sBus s))))"
proof -
  obtain st db where b: "sample_boot = Some (Inr st, db)" "resumed st = [stored_debit]" using sample_boot_state by blast
  note b1 = b(1) [unfolded sample_boot_def]
  obtain s where s: "exec_steps service_move (launch st) sample_stop = Some s" "cancelled s" using sample_stopped [OF b] by blast
  have r: "service_run st s" using service_run_exec [OF s(1)] service_run.launched by blast
  obtain bs s' where s': "exec_steps service_move s bs = Some s'" "main_at s' = Bye"
    using service_closing.finishes [of s] service_run_ok [OF r b1] s(2) by blast
  have "service_run st s'" using service_run_exec [OF s'(1) r] .
  with shutdown_settles [OF b1 this s'(2)] b(2) s'(2) show ?thesis by auto
qed

section \<open>The order of the shutdown\<close>

definition early_stop :: "service_action list" where
  "early_stop = [Main, Cancel, Propagates] @ map SeesDone [0..<8] @ map Stops [0..<8]"

definition idle_start :: Running where
  "idle_start = \<lparr>rBus = (NewInMemory 8 1024)\<lparr>handlers := 2, started := True, workers := replicate 8 Waiting\<rparr>,
     rSaga = saga_Start NewSaga 4, resumed = []\<rparr>"

lemma early_stop_state:
  "\<exists>s. exec_steps service_move (launch idle_start) early_stop = Some s \<and> main_at s = Serves \<and> drained (sBus s)"
proof -
  have "case exec_steps service_move (launch idle_start) early_stop of None \<Rightarrow> False | Some s \<Rightarrow> main_at s = Serves \<and> drained (sBus s)"
    by code_simp
  then show ?thesis by (auto split: option.splits)
qed

lemma boot_idle_start:
  assumes "boot srv h db = Some (Inr st, db')" and "resumed st = []"
  shows "st = idle_start"
  using boot_starts [OF assms(1)] assms(2)
  by (cases st) (auto simp: idle_start_def pipeline_def NewInMemory_def Subscribe_def Start_def)

text \<open>
  C40. The bus stops before the requests do: \<^verbatim>\<open>main\<close> means to stop accepting requests first and to drain the
  bus then, but the bus closes as soon as the context ends. There are runs in which the API is
  open, \<^verbatim>\<open>main\<close> has not even begun to stop it, and no event of any request reaches the projector or the
  saga any more.
\<close>

theorem bus_stops_before_requests:
  assumes "boot srv h db = Some (Inr st, db')" and "resumed st = []"
  shows "\<exists>s. service_run st s \<and> main_at s = Serves \<and> api_open s \<and>
    (\<forall>as s'. exec_steps service_move s as = Some s' \<longrightarrow> calls (sBus s') = calls (sBus s))"
proof -
  obtain s where s: "exec_steps service_move (launch st) early_stop = Some s" "main_at s = Serves" "drained (sBus s)"
    using early_stop_state boot_idle_start [OF assms] by blast
  have r: "service_run st s" using service_run_exec [OF s(1)] service_run.launched by blast
  have "drained (sBus s') \<and> service_ok s' \<and> calls (sBus s') = calls (sBus s)" if "exec_steps service_move s as = Some s'" for as s'
    using that
  proof (rule exec_steps_inv [where P = "\<lambda>x. drained (sBus x) \<and> service_ok x \<and> calls (sBus x) = calls (sBus s)"])
    fix x a y assume x: "drained (sBus x) \<and> service_ok x \<and> calls (sBus x) = calls (sBus s)" "service_move x a = Some y"
    then obtain n where "shape_inv n (sBus x)" "started (sBus x)" by (auto simp: service_ok_def)
    with x service_drained [of x a y n] service_ok_step [of x a y]
    show "drained (sBus y) \<and> service_ok y \<and> calls (sBus y) = calls (sBus s)" by simp
  qed (use s(3) service_run_ok [OF r assms(1)] in simp)
  with r s(2) show ?thesis by (auto simp: api_open_def)
qed

theorem bus_stops_before_requests_witness:
  "\<exists>st db s. boot healthy_server sample_host empty_DB = Some (Inr st, db) \<and> service_run st s \<and> api_open s \<and>
     (\<forall>as s'. exec_steps service_move s as = Some s' \<longrightarrow> calls (sBus s') = calls (sBus s))"
proof -
  have "case boot healthy_server sample_host empty_DB of Some (Inr st, db) \<Rightarrow> resumed st = [] | _ \<Rightarrow> False" by code_simp
  then obtain st db where "boot healthy_server sample_host empty_DB = Some (Inr st, db)" "resumed st = []"
    by (auto split: option.splits sum.splits prod.splits)
  with bus_stops_before_requests [OF this] show ?thesis by blast
qed

end
