(* ===== verification/Backpressure.thy ===== *)
theory Backpressure
  imports Shutdown
begin

text \<open>
  The cycle of bounded channels in the running service: the workers of the bus wait for room in the
  queue of the saga, the workers of the saga wait for room in a partition of the bus.
\<close>

section \<open>A state nobody leaves\<close>

text \<open>
  Partition \<open>p\<close> is full and its worker waits with a debit for the queue of the saga, the queue is full,
  and every worker of the saga waits in \<^verbatim>\<open>Publish\<close> with an event for the same partition.
\<close>

fun posting_to :: "nat \<Rightarrow> nat \<Rightarrow> outbox \<Rightarrow> bool" where
  "posting_to n p (Posting f) = (partition_of n f = p)"
| "posting_to n p _ = False"

definition jammed :: "nat \<Rightarrow> Service \<Rightarrow> bool" where
  "jammed p s \<longleftrightarrow> \<not> cancelled s \<and> \<not> closed (sBus s) \<and> \<not> shut (sPool s) \<and> 0 < buffer (sBus s) \<and> started (sBus s) \<and>
     p < length (partitions (sBus s)) \<and> length (workers (sBus s)) = length (partitions (sBus s)) \<and>
     buffer (sBus s) \<le> length (partitions (sBus s) ! p) \<and> capacity (sPool s) \<le> length (queue (sPool s)) \<and>
     (\<exists>d e. workers (sBus s) ! p = Delivering d e 1 \<and> eType e = EventTransferDebited) \<and>
     (case main_at s of Resumes _ \<Rightarrow> True | Serves \<Rightarrow> True | _ \<Rightarrow> False) \<and>
     length (outboxes s) = length (crew (sPool s)) \<and> list_all (\<lambda>w. in_hand w \<noteq> []) (crew (sPool s)) \<and>
     list_all (posting_to (length (partitions (sBus s))) p) (outboxes s)"

lemma jammed_send:
  assumes "jammed p s" and "send (sBus s) e = Some b"
  shows "partition_of (length (partitions (sBus s))) e \<noteq> p \<and> jammed p (s\<lparr>sBus := b\<rparr>)"
  using assms(2)
proof (cases rule: sendE)
  case (queued i)
  have "i \<noteq> p" using queued(3) assms(1) by (auto simp: jammed_def)
  then show ?thesis using queued(1,4) assms(1) by (simp add: jammed_def)
next
  case (handed i d)
  then show ?thesis using assms(1) by (simp add: jammed_def)
qed

lemma jammed_worker:
  assumes "jammed p s" and "i \<noteq> p" and "workers b = (workers (sBus s))[i := w]"
    and "length (partitions b) = length (partitions (sBus s))" and "partitions b ! p = partitions (sBus s) ! p"
    and "closed b = closed (sBus s)" and "buffer b = buffer (sBus s)" and "started b = started (sBus s)"
  shows "jammed p (s\<lparr>sBus := b\<rparr>)"
  using assms by (simp add: jammed_def)

lemma jammed_bus:
  assumes "jammed p s" and "worker_action c" and "\<And>i. c \<noteq> AHandle i" and "bus_step (sBus s) c = Some b"
  shows "jammed p (s\<lparr>sBus := b\<rparr>)"
proof -
  have w: "\<exists>d e. workers (sBus s) ! p = Delivering d e 1" using assms(1) by (auto simp: jammed_def)
  show ?thesis
  proof (cases c)
    case (AReceive i)
    then have "receive (sBus s) i = Some b" using assms(4) by simp
    then show ?thesis
    proof (cases rule: receiveE)
      case (1 e q d)
      then have "i \<noteq> p" using w by (auto simp: idle_def split: if_splits)
      with 1 show ?thesis by (intro jammed_worker [OF assms(1) \<open>i \<noteq> p\<close>]) simp_all
    qed
  next
    case (ASeeDone i)
    then have "see_done (sBus s) i = Some b" using assms(4) by simp
    then show ?thesis using assms(1) by (cases rule: see_doneE) (simp add: jammed_def)
  next
    case (AStop i)
    then have "stop (sBus s) i = Some b" using assms(4) by simp
    then show ?thesis
    proof (cases rule: stopE)
      case 1
      then have "i \<noteq> p" using w by auto
      then show ?thesis by (rule jammed_worker [OF assms(1)]) (use 1 in simp_all)
    qed
  qed (use assms(2,3) in simp_all)
qed

lemma jammed_delivery:
  assumes "jammed p s" and "bus_delivers s i dropped = Next s'"
  shows "jammed p s' \<and> sPool s' = sPool s"
proof -
  have w: "\<exists>d e. workers (sBus s) ! p = Delivering d e 1 \<and> eType e = EventTransferDebited" "\<not> cancelled s" "\<not> shut (sPool s)"
      "capacity (sPool s) \<le> length (queue (sPool s))" using assms(1) by (auto simp: jammed_def)
  have step: "jammed p (s\<lparr>sBus := b\<rparr>)" if "handle (sBus s) i = Some b" "i \<noteq> p" for b
    using that(1)
  proof (cases rule: handleE)
    case (call d e m)
    show ?thesis by (rule jammed_worker [OF assms(1) that(2)]) (use call in simp_all)
  next
    case (return d e m)
    show ?thesis by (rule jammed_worker [OF assms(1) that(2)]) (use return in simp_all)
  qed
  from assms(2) show ?thesis
  proof (cases rule: bus_deliversE)
    case (projector d e m b)
    then have "i \<noteq> p" using w(1) by auto
    then show ?thesis using step [OF projector(4)] projector(5) by simp
  next
    case (saga d e q b)
    then have e: "eType e \<noteq> EventTransferDebited" "q = sPool s" using w by (auto simp: pool_Handle_def pool_send_def split: if_splits)
    then have "i \<noteq> p" using w(1) saga(2) by auto
    moreover have "s' = s\<lparr>sBus := b\<rparr>" using saga(6) e by simp
    ultimately show ?thesis using step [OF saga(5)] by simp
  qed
qed

lemma jammed_step:
  assumes "jammed p s" and "service_step s a = Next s'" and "a \<noteq> Cancel"
  shows "jammed p s' \<and> sPool s' = sPool s"
proof -
  have j: "\<not> cancelled s" "\<not> closed (sBus s)" "\<not> shut (sPool s)" "capacity (sPool s) \<le> length (queue (sPool s))"
    "length (outboxes s) = length (crew (sPool s))"
    "\<And>i. i < length (crew (sPool s)) \<Longrightarrow> in_hand (crew (sPool s) ! i) \<noteq> []"
    "\<And>i. i < length (outboxes s) \<Longrightarrow> \<exists>f. outboxes s ! i = Posting f \<and> partition_of (length (partitions (sBus s))) f = p"
    using assms(1) by (auto simp: jammed_def list_all_length elim!: posting_to.elims(2))
  from assms(2) show ?thesis
  proof (cases rule: service_stepE)
    case (request e b)
    then show ?thesis using jammed_send [OF assms(1)] by simp
  next
    case (worker c b)
    then show ?thesis using jammed_bus [OF assms(1) worker(1-3)] by simp
  next
    case (delivery i dropped)
    then show ?thesis using jammed_delivery [OF assms(1)] by simp
  next
    case (take i q)
    from take(2) have "i < length (crew (sPool s)) \<and> crew (sPool s) ! i = Idle" by (cases rule: pool_receive_cases) auto
    then show ?thesis using j(6) [of i] by simp
  next
    case (append i f e)
    then show ?thesis using j(5) j(7) [of i] by auto
  next
    case (post i f b)
    then show ?thesis using j(7) [of i] jammed_send [OF assms(1) post(4)] by auto
  next
    case (return i q)
    then show ?thesis using j(7) [of i] by auto
  next
    case main
    from main(2) show ?thesis
    proof (cases rule: main_stepE)
      case resumed
      then show ?thesis using assms(1) by (simp add: jammed_def)
    next
      case (resumes e es q)
      then show ?thesis using j(3,4) by (simp add: pool_send_def)
    qed (use assms(1) in \<open>auto simp: jammed_def\<close>)
  qed (use assms j in auto)
qed

lemma jammed_forever:
  assumes "jammed p s" and "exec_steps service_move s as = Some s'" and "Cancel \<notin> set as"
  shows "jammed p s' \<and> sPool s' = sPool s"
  using assms(2)
proof (rule exec_steps_inv [where P = "\<lambda>x. jammed p x \<and> sPool x = sPool s"])
  fix x a y assume "a \<in> set as" "jammed p x \<and> sPool x = sPool s" "service_move x a = Some y"
  with jammed_step [of p x a y] assms(3) show "jammed p y \<and> sPool y = sPool s" by auto
qed (use assms(1) in simp)

lemma jammed_request:
  assumes "jammed p s" and "partition_of (length (partitions (sBus s))) e = p"
  shows "service_step s (Request e) = Wait"
proof -
  have "send (sBus s) e = None" using jammed_send [OF assms(1)] assms(2) by (cases "send (sBus s) e") auto
  then show ?thesis by (simp add: on_bus_def)
qed

section \<open>A run that leads there\<close>

text \<open>The service at work, with \<open>k\<close> debits in the queue and nothing in partition \<open>p\<close>.\<close>

definition calm :: "nat \<Rightarrow> nat \<Rightarrow> Service \<Rightarrow> bool" where
  "calm p k s \<longleftrightarrow> \<not> cancelled s \<and> \<not> closed (sBus s) \<and> \<not> shut (sPool s) \<and> buffer (sBus s) = 1024 \<and> started (sBus s) \<and>
     handlers (sBus s) = 2 \<and> p < 8 \<and> length (partitions (sBus s)) = 8 \<and> length (workers (sBus s)) = 8 \<and>
     workers (sBus s) ! p = Waiting \<and> partitions (sBus s) ! p = [] \<and> main_at s = Serves \<and>
     capacity (sPool s) = 1024 \<and> length (queue (sPool s)) = k \<and> length (outboxes s) = 4 \<and> length (crew (sPool s)) = 4 \<and>
     handled (sPool s) = []"

definition debit_for :: "nat \<Rightarrow> Event \<Rightarrow> bool" where
  "debit_for p e \<longleftrightarrow> eType e = EventTransferDebited \<and> partition_of 8 e = p"

lemma deliver_run:
  assumes "calm p k s" and "debit_for p e" and "k < 1024"
  shows "\<exists>s'. exec_steps service_move s [Request e, Receives p, Delivers p False, Delivers p False, Delivers p False] = Some s' \<and>
    calm p (Suc k) s' \<and> crew (sPool s') = crew (sPool s) \<and> outboxes s' = outboxes s \<and> queue (sPool s') = queue (sPool s) @ [e]"
  using assms
  by (simp add: calm_def debit_for_def service_move_def api_open_def on_bus_def send_def Let_def receive_def set_worker_def
      bus_delivers_def handle_def pool_Handle_def pool_send_def nth_list_update) auto

lemma deliver_debit:
  assumes "calm p k s" and "debit_for p e" and "k < 1024"
  obtains as s' where "exec_steps service_move s as = Some s'" "calm p (Suc k) s'" "crew (sPool s') = crew (sPool s)"
    "outboxes s' = outboxes s" "queue (sPool s') = queue (sPool s) @ [e]"
  using deliver_run [OF assms] by blast

text \<open>A worker of the saga takes the debit and publishes what it has appended.\<close>

lemma occupy_worker:
  assumes "calm p 0 s" and "debit_for p e" and "settling f" and "i < 4" and "crew (sPool s) ! i = Idle"
  shows "\<exists>as s'. exec_steps service_move s as = Some s' \<and> calm p 0 s' \<and>
    crew (sPool s') = (crew (sPool s))[i := Busy e] \<and> outboxes s' = (outboxes s)[i := Posting f]"
proof -
  obtain as s1 where s1: "exec_steps service_move s as = Some s1" "calm p 1 s1" "crew (sPool s1) = crew (sPool s)"
      "outboxes s1 = outboxes s" "queue (sPool s1) = queue (sPool s) @ [e]"
    by (rule deliver_debit [OF assms(1,2)]) simp_all
  have q: "queue (sPool s) = []" using assms(1) by (simp add: calm_def)
  have "\<exists>s'. exec_steps service_move s1 [Takes i, Appends i f] = Some s' \<and> calm p 0 s' \<and>
    crew (sPool s') = (crew (sPool s))[i := Busy e] \<and> outboxes s' = (outboxes s)[i := Posting f]"
    using s1(2-5) q assms(3-5)
    by (simp add: calm_def service_move_def saga_takes_def on_pool_def pool_receive_def saga_appends_def)
  then show ?thesis using exec_steps_trans [OF s1(1)] by blast
qed

lemma fill_queue:
  "calm p k s \<Longrightarrow> list_all (debit_for p) es \<Longrightarrow> k + length es \<le> 1024 \<Longrightarrow>
     \<exists>as s'. exec_steps service_move s as = Some s' \<and> calm p (k + length es) s' \<and>
       crew (sPool s') = crew (sPool s) \<and> outboxes s' = outboxes s"
proof (induction es arbitrary: k s)
  case Nil
  then show ?case by (intro exI [of _ "[]"]) simp
next
  case (Cons e es)
  obtain as s1 where s1: "exec_steps service_move s as = Some s1" "calm p (Suc k) s1" "crew (sPool s1) = crew (sPool s)"
      "outboxes s1 = outboxes s"
    by (rule deliver_debit [OF Cons.prems(1), of e]) (use Cons.prems(2,3) in auto)
  from Cons.IH [OF s1(2)] Cons.prems(2,3) obtain bs s2 where "exec_steps service_move s1 bs = Some s2"
      "calm p (Suc k + length es) s2" "crew (sPool s2) = crew (sPool s1)" "outboxes s2 = outboxes s1" by auto
  with s1 exec_steps_trans [OF s1(1)] show ?case by fastforce
qed

text \<open>The worker of the partition is stuck with the next debit; then the partition fills up.\<close>

definition crowded :: "nat \<Rightarrow> nat \<Rightarrow> Service \<Rightarrow> bool" where
  "crowded p k s \<longleftrightarrow> \<not> cancelled s \<and> \<not> closed (sBus s) \<and> \<not> shut (sPool s) \<and> buffer (sBus s) = 1024 \<and> started (sBus s) \<and>
     p < 8 \<and> length (partitions (sBus s)) = 8 \<and> length (workers (sBus s)) = 8 \<and>
     (\<exists>d e. workers (sBus s) ! p = Delivering d e 1 \<and> eType e = EventTransferDebited) \<and>
     length (partitions (sBus s) ! p) = k \<and> main_at s = Serves \<and>
     capacity (sPool s) = 1024 \<and> length (queue (sPool s)) = 1024"

lemma block_worker:
  assumes "calm p 1024 s" and "debit_for p e"
  shows "\<exists>as s'. exec_steps service_move s as = Some s' \<and> crowded p 0 s' \<and>
    sPool s' = sPool s \<and> outboxes s' = outboxes s"
  using assms
  by (intro exI [of _ "[Request e, Receives p, Delivers p False]"])
    (simp add: calm_def crowded_def debit_for_def service_move_def api_open_def on_bus_def send_def Let_def receive_def
      set_worker_def bus_delivers_def handle_def, auto)

lemma fill_partition:
  "crowded p k s \<Longrightarrow> list_all (debit_for p) es \<Longrightarrow> k + length es \<le> 1024 \<Longrightarrow>
     \<exists>as s'. exec_steps service_move s as = Some s' \<and> crowded p (k + length es) s' \<and> sPool s' = sPool s \<and> outboxes s' = outboxes s"
proof (induction es arbitrary: k s)
  case Nil
  then show ?case by (intro exI [of _ "[]"]) simp
next
  case (Cons e es)
  have "\<exists>s1. service_move s (Request e) = Some s1 \<and> crowded p (Suc k) s1 \<and> sPool s1 = sPool s \<and> outboxes s1 = outboxes s"
    using Cons.prems by (simp add: crowded_def debit_for_def api_open_def on_bus_def send_def Let_def) auto
  then obtain s1 where s1: "service_move s (Request e) = Some s1" "crowded p (Suc k) s1" "sPool s1 = sPool s" "outboxes s1 = outboxes s"
    by blast
  from Cons.IH [OF s1(2)] Cons.prems(2,3) obtain bs s2 where "exec_steps service_move s1 bs = Some s2"
      "crowded p (Suc k + length es) s2" "sPool s2 = sPool s1" "outboxes s2 = outboxes s1" by auto
  moreover have "exec_steps service_move s [Request e] = Some s1" by (simp only: exec_steps.simps s1(1) option.case)
  ultimately show ?case using s1(3,4) exec_steps_trans [of service_move s "[Request e]" s1] by fastforce
qed

lemma occupy_workers:
  assumes "calm p 0 s" and "crew (sPool s) = replicate 4 Idle" and "list_all (debit_for p) ds" and "length ds = 4"
    and "list_all settling fs" and "length fs = 4" and "n \<le> 4"
  shows "\<exists>as s'. exec_steps service_move s as = Some s' \<and> calm p 0 s' \<and>
    (\<forall>i < n. in_hand (crew (sPool s') ! i) \<noteq> [] \<and> outboxes s' ! i = Posting (fs ! i)) \<and>
    (\<forall>i < 4. n \<le> i \<longrightarrow> crew (sPool s') ! i = Idle)"
  using assms(7)
proof (induction n)
  case 0
  then show ?case using assms(1,2) by (intro exI [of _ "[]"]) simp
next
  case (Suc n)
  then obtain as s1 where s1: "exec_steps service_move s as = Some s1" "calm p 0 s1"
      "\<forall>i < n. in_hand (crew (sPool s1) ! i) \<noteq> [] \<and> outboxes s1 ! i = Posting (fs ! i)"
      "\<forall>i < 4. n \<le> i \<longrightarrow> crew (sPool s1) ! i = Idle" by auto
  have n: "debit_for p (ds ! n)" "settling (fs ! n)" "n < 4" "crew (sPool s1) ! n = Idle"
    using assms(3-6) Suc.prems s1(4) by (simp_all add: list_all_length)
  from occupy_worker [OF s1(2) n] obtain bs s2 where s2: "exec_steps service_move s1 bs = Some s2" "calm p 0 s2"
      "crew (sPool s2) = (crew (sPool s1))[n := Busy (ds ! n)]" "outboxes s2 = (outboxes s1)[n := Posting (fs ! n)]" by blast
  have "length (crew (sPool s1)) = 4" "length (outboxes s1) = 4" using s1(2) by (simp_all add: calm_def)
  then have "(\<forall>i < Suc n. in_hand (crew (sPool s2) ! i) \<noteq> [] \<and> outboxes s2 ! i = Posting (fs ! i)) \<and>
    (\<forall>i < 4. Suc n \<le> i \<longrightarrow> crew (sPool s2) ! i = Idle)"
    using s1(3,4) s2(3,4) Suc.prems by (auto simp: nth_list_update less_Suc_eq)
  then show ?case using s2(2) exec_steps_trans [OF s1(1) s2(1)] by blast
qed

lemma jams:
  assumes "calm p 0 s" and "crew (sPool s) = replicate 4 Idle" and "list_all (debit_for p) ds" and "length ds = 2053"
    and "list_all settling fs" and "length fs = 4" and "list_all (\<lambda>f. partition_of 8 f = p) fs"
  shows "\<exists>as s'. exec_steps service_move s as = Some s' \<and> jammed p s' \<and> handled (sPool s') = [] \<and> main_at s' = Serves"
proof -
  have ds: "list_all (debit_for p) (take k (drop j ds))" for k j
    using assms(3) by (metis list_all_append append_take_drop_id)
  obtain as1 s1 where s1: "exec_steps service_move s as1 = Some s1" "calm p 0 s1"
      "\<forall>i < 4. in_hand (crew (sPool s1) ! i) \<noteq> [] \<and> outboxes s1 ! i = Posting (fs ! i)"
    using occupy_workers [OF assms(1,2) ds [of 4 0] _ assms(5,6), of 4] assms(4) by auto
  obtain as2 s2 where s2: "exec_steps service_move s1 as2 = Some s2" "calm p 1024 s2" "crew (sPool s2) = crew (sPool s1)"
      "outboxes s2 = outboxes s1"
    using fill_queue [OF s1(2) ds [of 1024 4]] assms(4) by auto
  have "debit_for p (ds ! 1028)" using assms(3,4) by (simp add: list_all_length)
  from block_worker [OF s2(2) this] obtain as3 s3 where s3: "exec_steps service_move s2 as3 = Some s3" "crowded p 0 s3"
      "sPool s3 = sPool s2" "outboxes s3 = outboxes s2" by blast
  obtain as4 s4 where s4: "exec_steps service_move s3 as4 = Some s4" "crowded p 1024 s4" "sPool s4 = sPool s3" "outboxes s4 = outboxes s3"
    using fill_partition [OF s3(2) ds [of 1024 1029]] assms(4) by auto
  have same: "crew (sPool s4) = crew (sPool s1)" "outboxes s4 = outboxes s1" "handled (sPool s4) = []"
      "length (crew (sPool s1)) = 4" "length (outboxes s1) = 4"
    using s1(2) s2(2-4) s3(3,4) s4(3,4) by (simp_all add: calm_def)
  have "list_all (posting_to 8 p) (outboxes s1)" using s1(3) same(5) assms(6,7) by (auto simp: list_all_length)
  then have "jammed p s4" using s4(2) s1(3) same unfolding jammed_def crowded_def by (auto simp: list_all_length)
  moreover have "exec_steps service_move s (as1 @ as2 @ as3 @ as4) = Some s4"
    using s1(1) s2(1) s3(1) s4(1) by (simp add: exec_steps_append)
  moreover have "main_at s4 = Serves" using s4(2) by (simp add: crowded_def)
  ultimately show ?thesis using same(3) by blast
qed

lemma idle_start_calm:
  assumes "p < 8"
  shows "\<exists>s. exec_steps service_move (launch idle_start) [Main] = Some s \<and> calm p 0 s \<and> crew (sPool s) = replicate 4 Idle"
  using assms by (simp add: service_move_def main_step_def launch_def idle_start_def calm_def NewInMemory_def saga_Start_def NewSaga_def)

text \<open>
  C15. The bus and the saga can block each other: when enough transfers meet in one partition of the bus
  (2053 debits, while the four workers of the saga settle the first four of them in the same
  partition, as they do when these are reversed), there is a run to a state, with the API open,
  from which no transfer is ever settled again, whatever runs, until the process is told to
  stop; and every request that publishes to the partition waits for ever, without regard to its
  time-out.
\<close>

theorem pipeline_deadlock:
  assumes "boot srv h db = Some (Inr st, db')" and "resumed st = []" and "p < 8"
    and "list_all (debit_for p) ds" and "length ds = 2053"
    and "list_all settling fs" and "length fs = 4" and "list_all (\<lambda>f. partition_of 8 f = p) fs"
  shows "\<exists>s. service_run st s \<and> main_at s = Serves \<and> handled (sPool s) = [] \<and>
    (\<forall>as s'. exec_steps service_move s as = Some s' \<and> Cancel \<notin> set as \<longrightarrow>
      sPool s' = sPool s \<and> (\<forall>e. partition_of 8 e = p \<longrightarrow> service_step s' (Request e) = Wait))"
proof -
  obtain s0 where s0: "exec_steps service_move (launch st) [Main] = Some s0" "calm p 0 s0" "crew (sPool s0) = replicate 4 Idle"
    using idle_start_calm [OF assms(3)] boot_idle_start [OF assms(1,2)] by blast
  obtain as s where s: "exec_steps service_move s0 as = Some s" "jammed p s" "handled (sPool s) = []" "main_at s = Serves"
    using jams [OF s0(2,3) assms(4-8)] by blast
  have r: "service_run st s" using service_run_exec [OF s(1)] service_run_exec [OF s0(1)] service_run.launched by blast
  have "sPool s' = sPool s \<and> (\<forall>e. partition_of 8 e = p \<longrightarrow> service_step s' (Request e) = Wait)"
    if as: "exec_steps service_move s as = Some s'" "Cancel \<notin> set as" for as s'
  proof -
    have "bus_run 8 1024 (sBus s')" using service_run_inv [OF service_run_exec [OF as(1) r] assms(1)] by simp
    then have "length (partitions (sBus s')) = 8" using bus_run_inv shape_lengths(1) by blast
    then show ?thesis using jammed_forever [OF s(2) as] jammed_request [of p s'] by simp
  qed
  with r s(3,4) show ?thesis by blast
qed

text \<open>Two thousand transfers of \<open>ana\<close> that are all reversed.\<close>

definition ana_reversal :: Event where
  "ana_reversal = ana_debit\<lparr>eType := EventTransferReversed\<rparr>"

theorem pipeline_deadlock_witness:
  "\<exists>st db s. boot healthy_server sample_host empty_DB = Some (Inr st, db) \<and> service_run st s \<and> main_at s = Serves \<and>
     service_step s (Request ana_deposit) = Wait"
proof -
  have "case boot healthy_server sample_host empty_DB of Some (Inr st, db) \<Rightarrow> resumed st = [] | _ \<Rightarrow> False" by code_simp
  then obtain st db where b: "boot healthy_server sample_host empty_DB = Some (Inr st, db)" "resumed st = []"
    by (auto split: option.splits sum.splits prod.splits)
  let ?p = "partition_of 8 ana_debit"
  have "eType ana_debit = EventTransferDebited" by code_simp
  then have ds: "list_all (debit_for ?p) (replicate 2053 ana_debit)" by (simp add: list_all_iff debit_for_def)
  have fs: "list_all settling (replicate 4 ana_reversal)" "list_all (\<lambda>f. partition_of 8 f = ?p) (replicate 4 ana_reversal)"
    by (simp_all add: list_all_iff settling_def ana_reversal_def partition_of_def)
  have p: "?p < 8" by code_simp
  have dep: "partition_of 8 ana_deposit = ?p" by code_simp
  obtain s where s: "service_run st s" "main_at s = Serves" "\<forall>as s'. exec_steps service_move s as = Some s' \<and> Cancel \<notin> set as \<longrightarrow>
      sPool s' = sPool s \<and> (\<forall>e. partition_of 8 e = ?p \<longrightarrow> service_step s' (Request e) = Wait)"
    using pipeline_deadlock [OF b p ds _ fs(1) _ fs(2)] by auto
  from s(3) [rule_format, of "[]" s] dep have "service_step s (Request ana_deposit) = Wait" by simp
  with b(1) s(1,2) show ?thesis by blast
qed

end
