(* ===== verification/Spec2Isabelle.thy ===== *)
theory Spec2Isabelle
  imports App_Memory Server_Postgres Backpressure
begin

text \<open>
  Eventledger: a bank ledger with event sourcing and CQRS, written in Go.

  \<^bold>\<open>The program.\<close> A command enters through the HTTP server (\<^verbatim>\<open>internal/api\<close>), passes the rate limiter and the
  check of its \<^verbatim>\<open>Idempotency-Key\<close>, and reaches the command side (\<^verbatim>\<open>internal/app\<close>). That loads the account
  from the event store (\<^verbatim>\<open>internal/eventstore\<close>) by replaying its events, lets the aggregate
  (\<^verbatim>\<open>internal/domain\<close>) decide on one new event, appends it under optimistic locking, tries again after a
  conflict, and publishes the event on the bus (\<^verbatim>\<open>internal/bus\<close>). Two subscribers take events from the
  bus: the projector (\<^verbatim>\<open>internal/projection\<close>) writes the read models, which the queries
  (\<^verbatim>\<open>internal/query\<close>) read; the saga (\<^verbatim>\<open>internal/saga\<close>) credits the destination of a transfer that has been
  debited, or reverses the debit. \<^verbatim>\<open>cmd/api/main.go\<close> puts the parts together and makes up at boot for what
  a crash has left undone.

  \<^bold>\<open>Theories and sources.\<close> Names of the model are those of the code, with a prefix where several types
  have a method of that name (\<open>mem_\<close>, \<open>pg_\<close>, \<open>app_\<close>, \<open>saga_\<close>, \<open>proj_\<close>, \<open>q_\<close>).
  \<^item> \<^verbatim>\<open>Prelude\<close>, \<^verbatim>\<open>Errors\<close>, \<^verbatim>\<open>Json\<close>, \<^verbatim>\<open>Payload_Order\<close>: machine integers (\<^verbatim>\<open>int64\<close> is \<^typ>\<open>64 word\<close>), the error
    values with \<^verbatim>\<open>errors.Is\<close>, and what the code uses of \<^verbatim>\<open>encoding/json\<close>.
  \<^item> \<^verbatim>\<open>Events\<close> (\<^verbatim>\<open>domain/events.go\<close>): envelope, payloads with their encoding, \<^const>\<open>NewEvent\<close>, \<^const>\<open>NewID\<close>. The
    random bytes and the clock of a call are its argument \<^typ>\<open>draw\<close>.
  \<^item> \<^verbatim>\<open>Account\<close>, \<^verbatim>\<open>Account_History\<close> (\<^verbatim>\<open>domain/account.go\<close>): \<^const>\<open>Apply\<close>, \<^const>\<open>Replay\<close>, the decisions; the sequences
    of events the aggregate can produce (\<^const>\<open>produced\<close>) and those with the restriction the service keeps, that no
    reversal exceeds the operation limit (\<^const>\<open>history\<close>).
  \<^item> \<^verbatim>\<open>Store\<close> (\<^verbatim>\<open>eventstore/store.go\<close>): the interface as a record of operations; the locales \<open>event_store\<close> and
    \<open>reliable_store\<close> say what a store promises. \<^verbatim>\<open>Memory_Store\<close> (\<^verbatim>\<open>memory.go\<close>) interprets the second,
    \<^verbatim>\<open>Postgres_Store\<close> (\<^verbatim>\<open>postgres.go\<close>) gives the first on every server of the locale \<open>postgres_server\<close>.
  \<^item> \<^verbatim>\<open>Database\<close> (\<^verbatim>\<open>migrations/001_schema.sql\<close>): the tables with their constraints, transactions, and a fault
    at any statement. \<^verbatim>\<open>Sample_Server\<close> is a server the examples run on, \<^verbatim>\<open>Samples\<close> holds their data.
  \<^item> \<^verbatim>\<open>App\<close>, \<^verbatim>\<open>App_Memory\<close>, \<^verbatim>\<open>Postgres_App\<close>, \<^verbatim>\<open>Concurrency\<close> (\<^verbatim>\<open>app/app.go\<close>): every command for any store, its outcome
    on the two stores, and many goroutines that run \<^const>\<open>mutate\<close> at the same time.
  \<^item> \<^verbatim>\<open>Bus\<close> (\<^verbatim>\<open>bus/bus.go\<close>): partitions, workers, publishers and \<^verbatim>\<open>Close\<close> as steps that interleave.
  \<^item> \<^verbatim>\<open>Saga\<close>, \<^verbatim>\<open>Saga_Pool\<close> (\<^verbatim>\<open>saga/transfer.go\<close>): \<^const>\<open>process\<close> with its retries and compensation, the catch-up;
    the bounded channel, the workers and \<^verbatim>\<open>Close\<close> as steps that interleave.
  \<^item> \<^verbatim>\<open>Projector\<close>, \<^verbatim>\<open>Read_Model\<close> (\<^verbatim>\<open>projection/projector.go\<close>): every statement in its transaction; the read
    models against the event store. \<^verbatim>\<open>Query\<close> (\<^verbatim>\<open>query/query.go\<close>): every query.
  \<^item> \<^verbatim>\<open>Float64\<close>, \<^verbatim>\<open>RateLimit\<close> (\<^verbatim>\<open>api/ratelimit.go\<close>): the token bucket with rounded arithmetic, with and without
    a fused multiplication and addition, since the compiler may choose.
  \<^item> \<^verbatim>\<open>Sha256\<close>, \<^verbatim>\<open>Http\<close>, \<^verbatim>\<open>Idempotency\<close> (\<^verbatim>\<open>api/idempotency.go\<close>): both stores of keys, with the locale
    \<open>idempotency_store\<close> interpreted on each, \<^const>\<open>hashRequest\<close>, and the responses.
  \<^item> \<^verbatim>\<open>Idempotent\<close>, \<^verbatim>\<open>Requests\<close>, \<^verbatim>\<open>Path\<close>, \<^verbatim>\<open>Server\<close>, \<^verbatim>\<open>Server_Postgres\<close> (\<^verbatim>\<open>api/server.go\<close>): the middlewares, the
    bodies, what \<^verbatim>\<open>http.ServeMux\<close> does with a path (normal form and redirect, segments, patterns), the routes
    and handlers, and the server as \<^verbatim>\<open>main\<close> builds it.
  \<^item> \<^verbatim>\<open>Boot\<close> (\<^verbatim>\<open>cmd/api/main.go\<close>): the way from the start to the point where the API opens.
  \<^item> \<^verbatim>\<open>Service\<close>, \<^verbatim>\<open>Shutdown\<close>, \<^verbatim>\<open>Backpressure\<close> (\<^verbatim>\<open>cmd/api/main.go\<close> with \<^verbatim>\<open>bus.go\<close> and \<^verbatim>\<open>transfer.go\<close>): \<^verbatim>\<open>main\<close>, the bus and the
    saga running together, from the catch-up of the saga to the end of the program. \<^verbatim>\<open>Draining\<close> is the
    locale of a part that is told to stop: its steps get fewer and one is always possible. The bus,
    the pool of the saga and the whole service interpret it.

  \<^bold>\<open>What is shown.\<close>
  \<^item> Money: a history replays to the exact sum, which is never negative and does not overflow (without the
    bound on reversals it is the sum modulo \<open>2\<^sup>6\<^sup>4\<close>); under every
    interleaving of commands, on both stores and under all faults of the database, no update is
    lost and each command counts once (\<^verbatim>\<open>Account_History\<close>, \<^verbatim>\<open>Concurrency\<close>, \<^verbatim>\<open>Postgres_App\<close>).
  \<^item> Stores: optimistic locking and atomicity of \<open>Append\<close>; loading through a snapshot equals the full
    replay; payloads survive the store.
  \<^item> Commands: the outcome on every branch, bounded retries, publication exactly on success.
  \<^item> Transfers: on the in-memory store, with one worker and nothing else running, recovery settles every
    pending debit and conserves money; a failed credit is reversed; what a repeated delivery does.
  \<^item> Bus and saga: order per account, each event once; both \<open>Close\<close> return when run alone.
  \<^item> Shutdown: no step of the running service panics, \<^verbatim>\<open>main\<close> reaches its end, and what bus and saga were
    handed before has been worked off by then.
  \<^item> Read models: they refine the replay whatever the deliveries, balances equal the sum of the
    statement, pages cover a statement.
  \<^item> Server: one key runs one command, retries replay its response, every reply is well formed; the
    limiter keeps its bound and its janitor is invisible.
  \<^item> Boot: a healthy database in which every transfer event has UUIDs leads to a server with nothing left
    to catch up.
  \<^item> Where the code does less than its comments say there is a theorem that shows the behaviour: a credit
    paid twice by overlapping deliveries or after a lost commit, a credit paid after its reversal, a batch appended in part, events
    published in the wrong order, a transfer that stays pending, an entry lost between pages, a key that
    is blocked for good, a debit that stops every boot, a bus that stops before the requests do, and
    channels of bus and saga that are full and wait for each other.

  \<^bold>\<open>Bounds.\<close> \<^const>\<open>history_limit\<close> (92233720368 events) is the length up to which sums of amounts within
  \<^const>\<open>MaxOperationAmount\<close> fit into an \<^verbatim>\<open>int64\<close>; statements on balances ask for shorter streams. The retry
  loops recurse on the attempts left, which the code bounds by five and three. \<^const>\<open>service_work\<close> bounds
  the steps a service takes by itself; requests and the signal come from outside. Reading page by
  page takes fuel, and the number of entries is enough. \<^const>\<open>wait_loop\<close> may run forever on a clock that
  stands still; on one that runs it ends.

  \<^bold>\<open>What is assumed of other code.\<close> The database is a parameter \<^typ>\<open>server\<close>: how it reads and prints UUIDs, JSON
  and timestamps, and which statement fails. The locale \<open>postgres_server\<close> holds its documented behaviour;
  a transaction is atomic, and statements of different connections interleave at the points the
  environment of a call names. In \<^const>\<open>app_step\<close> and \<^const>\<open>postgres_store\<close> a load and an append are one step each: the
  append is one transaction, and a load with other writers between its two queries is treated in
  \<^verbatim>\<open>Postgres_App\<close>, where it is shown to be the replay of the stream at its second query. A fault is an error without an effect or an effect whose answer
  is lost. The decoder of request bodies is modelled from the values it reads, not from the
  text, and the layout of RFC 3339 is what the handlers see of it. What \<^verbatim>\<open>net/http\<close> answers by itself before
  it calls the handler (a request it cannot parse, \<^verbatim>\<open>OPTIONS *\<close>) is not the server's. Numbers of
  type \<^verbatim>\<open>float64\<close> stay within the range of the exponent.

  \<^bold>\<open>Not modelled.\<close> Logging, which only observes; the listener and its shutdown and the delivery of signals, which
  are calls into \<^verbatim>\<open>net/http\<close> and the operating system: the running service has a step for a request that
  publishes, one for the return of \<^verbatim>\<open>Shutdown\<close> (its time-out makes it return) and one for the end of the
  context. Also the exit after a failure of the listener; the settings of the connection pool;
  tests, container files and documents.
\<close>

end
